(* ===== verification/Prelude.thy ===== *)
theory Prelude
  imports Main "HOL-Library.Word"
begin

text \<open>
  Shared vocabulary of the development.

  \<^item> Machine integers: a Rust u8 is an 8-bit word, a u16 a 16-bit word.
  \<^item> Every Rust function that can fail or panic yields an \<open>outcome\<close>: \<open>Ok\<close> and \<open>Err\<close>
    are the variants of Rust's Result, \<open>Panic\<close> is an unwinding panic (an index or slice out of
    range, an arithmetic overflow under the default dev profile, a failed assertion).
  \<^item> A method with a \<open>&mut self\<close> (or a \<open>&mut\<close> cursor, or a \<open>&mut Vec<u8>\<close> output) is an \<open>op\<close>:
    it maps the state before to the outcome and the state after, so what a failing call has
    already written stays visible.  \<open>and_then\<close> is the ? operator.
\<close>

unbundle bit_operations_syntax

section \<open>Machine types\<close>

type_synonym u8 = "8 word"
type_synonym u16 = "16 word"
type_synonym bytes = "u8 list"

section \<open>Outcomes\<close>

datatype ('e, 'a) outcome = Ok 'a | Err 'e | Panic

fun map_err :: "('e \<Rightarrow> 'f) \<Rightarrow> ('e, 'a) outcome \<Rightarrow> ('f, 'a) outcome" where
  "map_err f (Ok x) = Ok x"
| "map_err f (Err e) = Err (f e)"
| "map_err f Panic = Panic"

definition bind_outcome ::
  "('e, 'a) outcome \<Rightarrow> ('a \<Rightarrow> ('e, 'b) outcome) \<Rightarrow> ('e, 'b) outcome" where
  "bind_outcome r f = (case r of Ok x \<Rightarrow> f x | Err e \<Rightarrow> Err e | Panic \<Rightarrow> Panic)"

definition ok_or :: "'a option \<Rightarrow> 'e \<Rightarrow> ('e, 'a) outcome" where
  "ok_or x e = (case x of Some y \<Rightarrow> Ok y | None \<Rightarrow> Err e)"

lemma bind_outcome_simps [simp]:
  "bind_outcome (Ok x) f = f x"
  "bind_outcome (Err e) f = Err e"
  "bind_outcome Panic f = Panic"
  by (simp_all add: bind_outcome_def)

lemma bind_outcome_Ok_iff: "bind_outcome r f = Ok y \<longleftrightarrow> (\<exists>x. r = Ok x \<and> f x = Ok y)"
  by (cases r) auto

lemma bind_outcome_Panic_iff:
  "bind_outcome r f = Panic \<longleftrightarrow> r = Panic \<or> (\<exists>x. r = Ok x \<and> f x = Panic)"
  by (cases r) auto

lemma ok_or_simps [simp]: "ok_or (Some y) e = Ok y" "ok_or None e = Err e"
  by (simp_all add: ok_or_def)

lemma ok_or_not_Panic [simp]: "ok_or x e \<noteq> Panic"
  by (cases x) simp_all

lemma ok_or_Ok_iff [simp]: "ok_or x e = Ok y \<longleftrightarrow> x = Some y"
  by (cases x) simp_all

lemma map_err_eq_iff [simp]:
  "map_err f r = Ok x \<longleftrightarrow> r = Ok x"
  "map_err f r = Panic \<longleftrightarrow> r = Panic"
  by (cases r; simp)+

section \<open>Operations on a mutable state\<close>

type_synonym ('s, 'e, 'a) op = "'s \<Rightarrow> ('e, 'a) outcome \<times> 's"

definition ret :: "'a \<Rightarrow> ('s, 'e, 'a) op" where
  "ret x s = (Ok x, s)"

definition throw :: "'e \<Rightarrow> ('s, 'e, 'a) op" where
  "throw e s = (Err e, s)"

definition lift :: "('e, 'a) outcome \<Rightarrow> ('s, 'e, 'a) op" where
  "lift r s = (r, s)"

definition get :: "('s \<Rightarrow> 'a) \<Rightarrow> ('s, 'e, 'a) op" where
  "get f s = (Ok (f s), s)"

definition put :: "'s \<Rightarrow> ('s, 'e, unit) op" where
  "put s' s = (Ok (), s')"

definition modify :: "('s \<Rightarrow> 's) \<Rightarrow> ('s, 'e, unit) op" where
  "modify f s = (Ok (), f s)"

definition and_then ::
  "('s, 'e, 'a) op \<Rightarrow> ('a \<Rightarrow> ('s, 'e, 'b) op) \<Rightarrow> ('s, 'e, 'b) op" where
  "and_then m f s =
     (case m s of
        (Ok x, s') \<Rightarrow> f x s'
      | (Err e, s') \<Rightarrow> (Err e, s')
      | (Panic, s') \<Rightarrow> (Panic, s'))"

text \<open>\<open>map_err\<close> applied to the outcome of a method call.\<close>

definition map_err_op :: "('e \<Rightarrow> 'f) \<Rightarrow> ('s, 'e, 'a) op \<Rightarrow> ('s, 'f, 'a) op" where
  "map_err_op f m s = (case m s of (r, s') \<Rightarrow> (map_err f r, s'))"

text \<open>A method call on a field: \<open>sel\<close> reads the field and \<open>upd\<close> writes it back.\<close>

definition on_field :: "('s \<Rightarrow> 't) \<Rightarrow> ('t \<Rightarrow> 's \<Rightarrow> 's) \<Rightarrow> ('t, 'e, 'a) op \<Rightarrow> ('s, 'e, 'a) op" where
  "on_field sel upd m s = (case m (sel s) of (r, t) \<Rightarrow> (r, upd t s))"

text \<open>A call on a local value that is dropped when the call fails.\<close>

definition with_local :: "'t \<Rightarrow> ('t, 'e, 'a) op \<Rightarrow> ('s, 'e, 't) op" where
  "with_local t m s =
     (case m t of
        (Ok x, t') \<Rightarrow> (Ok t', s)
      | (Err e, t') \<Rightarrow> (Err e, s)
      | (Panic, t') \<Rightarrow> (Panic, s))"

text \<open>The outcome of a call on a local cursor.\<close>

definition on_cursor :: "'s \<Rightarrow> ('s, 'e, 'a) op \<Rightarrow> ('e, 'a) outcome" where
  "on_cursor s m = fst (m s)"

lemma on_cursor_Ok_iff: "on_cursor s m = Ok x \<longleftrightarrow> (\<exists>s'. m s = (Ok x, s'))"
  by (cases "m s") (auto simp: on_cursor_def)

named_theorems op_defs \<open>unfolding of the operation combinators\<close>

lemmas op_combinators [op_defs] =
  ret_def throw_def lift_def get_def put_def modify_def and_then_def map_err_op_def on_field_def
  with_local_def on_cursor_def

lemma and_then_Ok_iff:
  "and_then m f s = (Ok y, s'') \<longleftrightarrow> (\<exists>x s'. m s = (Ok x, s') \<and> f x s' = (Ok y, s''))"
  by (auto simp: and_then_def split: prod.splits outcome.splits)

lemma and_then_Ok [simp]: "m s = (Ok x, s') \<Longrightarrow> and_then m f s = f x s'"
  by (simp add: and_then_def)

lemma and_then_Err [simp]: "m s = (Err e, s') \<Longrightarrow> and_then m f s = (Err e, s')"
  by (simp add: and_then_def)

lemma ret_Ok_iff: "ret x s = (Ok y, s') \<longleftrightarrow> y = x \<and> s' = s"
  by (auto simp: ret_def)

lemma throw_not_Ok: "throw e s \<noteq> (Ok y, s')"
  by (simp add: throw_def)

lemma lift_Ok_iff: "lift r s = (Ok y, s') \<longleftrightarrow> r = Ok y \<and> s' = s"
  by (auto simp: lift_def)

lemma guard_Ok_iff:
  "(if c then throw e else m) s = (Ok y, s') \<longleftrightarrow> \<not> c \<and> m s = (Ok y, s')"
  by (simp add: throw_def)

lemma get_Ok_iff: "get f s = (Ok y, s') \<longleftrightarrow> y = f s \<and> s' = s"
  by (auto simp: get_def)

text \<open>Inversion of a successful run, one \<open>?\<close> at a time.\<close>

lemmas op_Ok_iffs =
  and_then_Ok_iff ret_Ok_iff throw_not_Ok lift_Ok_iff guard_Ok_iff get_Ok_iff

subsection \<open>Panic freedom and invariants\<close>

text \<open>\<open>safe I m\<close>: started in a state of \<open>I\<close>, the operation does not panic and ends in \<open>I\<close>.\<close>

definition safe :: "('s \<Rightarrow> bool) \<Rightarrow> ('s, 'e, 'a) op \<Rightarrow> bool" where
  "safe I m \<longleftrightarrow> (\<forall>s. I s \<longrightarrow> fst (m s) \<noteq> Panic \<and> I (snd (m s)))"

lemma safeI: "(\<And>s. I s \<Longrightarrow> fst (m s) \<noteq> Panic \<and> I (snd (m s))) \<Longrightarrow> safe I m"
  by (simp add: safe_def)

lemma safeD: "safe I m \<Longrightarrow> I s \<Longrightarrow> fst (m s) \<noteq> Panic \<and> I (snd (m s))"
  by (simp add: safe_def)

lemma safe_run: "safe I m \<Longrightarrow> I s \<Longrightarrow> m s = (r, s') \<Longrightarrow> r \<noteq> Panic \<and> I s'"
  by (force simp: safe_def)

lemma safe_and_then [intro]:
  assumes "safe I m" and "\<And>x. safe I (f x)"
  shows "safe I (and_then m f)"
proof (rule safeI)
  fix s assume s: "I s"
  obtain r s' where m: "m s = (r, s')" by (cases "m s")
  with assms(1) s have r: "r \<noteq> Panic \<and> I s'" by (rule safe_run)
  show "fst (and_then m f s) \<noteq> Panic \<and> I (snd (and_then m f s))"
    using r safeD [OF assms(2), of s'] by (cases r) (simp_all add: m and_then_def)
qed

lemma safe_ret [intro, simp]: "safe I (ret x)"
  by (simp add: safe_def ret_def)

lemma safe_throw [intro, simp]: "safe I (throw e)"
  by (simp add: safe_def throw_def)

lemma safe_get [intro, simp]: "safe I (get f)"
  by (simp add: safe_def get_def)

lemma safe_lift [intro]: "r \<noteq> Panic \<Longrightarrow> safe I (lift r)"
  by (simp add: safe_def lift_def)

lemma safe_modify [intro]: "(\<And>s. I s \<Longrightarrow> I (f s)) \<Longrightarrow> safe I (modify f)"
  by (simp add: safe_def modify_def)

lemma safe_map_err_op [intro]: "safe I m \<Longrightarrow> safe I (map_err_op f m)"
  by (auto simp: safe_def map_err_op_def split: prod.splits)

section \<open>Checked access and arithmetic\<close>

text \<open>\<open>xs[i]\<close> and \<open>&xs[a..b]\<close> panic out of range; \<open>xs[i] = v\<close> likewise.\<close>

definition index :: "'a list \<Rightarrow> nat \<Rightarrow> ('e, 'a) outcome" where
  "index xs i = (if i < length xs then Ok (xs ! i) else Panic)"

definition slice :: "'a list \<Rightarrow> nat \<Rightarrow> nat \<Rightarrow> ('e, 'a list) outcome" where
  "slice xs a b = (if a \<le> b \<and> b \<le> length xs then Ok (take (b - a) (drop a xs)) else Panic)"

definition store :: "'a list \<Rightarrow> nat \<Rightarrow> 'a \<Rightarrow> ('e, 'a list) outcome" where
  "store xs i v = (if i < length xs then Ok (xs[i := v]) else Panic)"

text \<open>\<open>a - b\<close> on usize and \<open>a + b\<close>, \<open>a - b\<close> on u16, with the overflow check of the dev profile.\<close>

definition checked_sub :: "nat \<Rightarrow> nat \<Rightarrow> ('e, nat) outcome" where
  "checked_sub a b = (if b \<le> a then Ok (a - b) else Panic)"

definition add_u16 :: "u16 \<Rightarrow> u16 \<Rightarrow> ('e, u16) outcome" where
  "add_u16 a b = (if unat a + unat b < 2 ^ 16 then Ok (a + b) else Panic)"

definition sub_u16 :: "u16 \<Rightarrow> u16 \<Rightarrow> ('e, u16) outcome" where
  "sub_u16 a b = (if b \<le> a then Ok (a - b) else Panic)"

lemmas checked_defs = index_def slice_def store_def checked_sub_def add_u16_def sub_u16_def

lemma u16_bound: "unat (a :: u16) < 65536"
  using unsigned_less [of a] by simp

lemma u16_eq_FFFF: "unat (a :: u16) = 65535 \<longleftrightarrow> a = 0xFFFF"
  using word_unat_eq_iff [of a 65535] by simp

lemma add_u16_1: "add_u16 a 1 = (if a = 0xFFFF then Panic else Ok (a + 1))"
  using u16_bound [of a] u16_eq_FFFF [of a] by (auto simp: add_u16_def)

lemma u16_Suc: "(a :: u16) \<noteq> 0xFFFF \<Longrightarrow> unat (a + 1) = Suc (unat a) \<and> a + 1 \<noteq> 0"
  by (unat_arith; simp)

lemma u16_less_not_FFFF: "(a :: u16) < b \<Longrightarrow> a \<noteq> 0xFFFF"
  using u16_bound [of b] by (auto simp: word_less_nat_alt)

lemma u16_ge_FFFF: "0xFFFF \<le> (a :: u16) \<Longrightarrow> a = 0xFFFF"
  using u16_bound [of a] u16_eq_FFFF [of a] by (simp add: word_le_nat_alt)

lemma unat_word_of_nat_u16: "n < 65536 \<Longrightarrow> unat (word_of_nat n :: u16) = n"
  by (simp add: unsigned_of_nat take_bit_nat_eq_self)

section \<open>Bytes\<close>

text \<open>The bytes of an ASCII literal of the source.\<close>

definition ascii :: "string \<Rightarrow> bytes" where
  "ascii s = map of_char s"

text \<open>
  A statement about all bytes is a statement about 16 times 16 pairs of nibbles, which the
  simplifier can evaluate.
\<close>

lemma all_nibbles_iff: "(\<forall>b::u8. b < 16 \<longrightarrow> P b) \<longleftrightarrow> (\<forall>n<16. P (word_of_nat n))"
proof
  assume h: "\<forall>n<16. P (word_of_nat n :: u8)"
  show "\<forall>b::u8. b < 16 \<longrightarrow> P b"
  proof (intro allI impI)
    fix b :: u8
    assume "b < 16"
    then have "unat b < 16" by (simp add: word_less_nat_alt)
    with h have "P (word_of_nat (unat b))" by blast
    then show "P b" by simp
  qed
next
  assume h: "\<forall>b::u8. b < 16 \<longrightarrow> P b"
  show "\<forall>n<16. P (word_of_nat n)"
  proof (intro allI impI)
    fix n :: nat assume "n < 16"
    then have "(word_of_nat n :: u8) < 16"
      by (simp add: word_less_nat_alt unsigned_of_nat take_bit_nat_eq_self)
    with h show "P (word_of_nat n)" by blast
  qed
qed

lemma nibble_split: "push_bit 4 (drop_bit 4 b) OR (b AND 0x0F) = (b :: u8)"
proof -
  have *: "b AND 0x0F = take_bit 4 b" by (simp add: take_bit_eq_mask mask_numeral)
  show ?thesis unfolding *
    by (rule bit_word_eqI) (auto simp: bit_simps)
qed
lemma nibble_less: "drop_bit 4 (b::u8) < 16" "b AND 0x0F < (16::u8)"
proof -
  have "unat (drop_bit 4 b) < 16"
  proof -
    have "unat b < 256" using unsigned_less [of b] by simp
    then show ?thesis by (simp add: drop_bit_eq_div unat_div)
  qed
  then show "drop_bit 4 b < 16" by (simp add: word_less_nat_alt)
  have *: "b AND 0x0F = take_bit 4 b" by (simp add: take_bit_eq_mask mask_numeral)
  show "b AND 0x0F < (16::u8)" unfolding * 
    by (simp add: word_less_nat_alt unsigned_take_bit_eq take_bit_eq_mod unat_mod)
qed

lemma all_bytes_iff:
  "(\<forall>b::u8. P b) \<longleftrightarrow>
   (\<forall>m<16. \<forall>n<16. P (push_bit 4 (word_of_nat m) OR word_of_nat n))"
proof
  assume h: "\<forall>m<16. \<forall>n<16. P (push_bit 4 (word_of_nat m) OR word_of_nat n :: u8)"
  then have "\<forall>a::u8. a < 16 \<longrightarrow> (\<forall>b::u8. b < 16 \<longrightarrow> P (push_bit 4 a OR b))"
    by (simp only: all_nibbles_iff)
  then show "\<forall>b. P b" by (metis nibble_split nibble_less)
qed simp

lemma and_exp_iff: "f AND 2 ^ i \<noteq> 0 \<longleftrightarrow> bit (f :: u8) i"
  by (metis and_exp_eq_0_iff_not_bit)

text \<open>u16::to_be_bytes and u16::from_be_bytes.\<close>

definition to_be_bytes :: "u16 \<Rightarrow> bytes" where
  "to_be_bytes v = [ucast (drop_bit 8 v), ucast v]"

definition from_be_bytes :: "u8 \<Rightarrow> u8 \<Rightarrow> u16" where
  "from_be_bytes a b = push_bit 8 (ucast a) OR ucast b"

lemma from_to_be_bytes [simp]: "from_be_bytes (ucast (drop_bit 8 v)) (ucast v) = v"
  by (rule bit_word_eqI) (auto simp: from_be_bytes_def bit_simps)

lemma to_from_be_bytes [simp]: "to_be_bytes (from_be_bytes a b) = [a, b]"
proof -
  have "ucast (drop_bit 8 (from_be_bytes a b)) = a"
    by (rule bit_word_eqI) (auto simp: from_be_bytes_def bit_simps dest: bit_imp_le_length)
  moreover have "ucast (from_be_bytes a b) = b"
    by (rule bit_word_eqI) (auto simp: from_be_bytes_def bit_simps)
  ultimately show ?thesis by (simp add: to_be_bytes_def)
qed

lemma length_to_be_bytes [simp]: "length (to_be_bytes v) = 2"
  by (simp add: to_be_bytes_def)

end
