(* ===== verification/Mqtt_Types.thy ===== *)
theory Mqtt_Types
  imports Prelude
begin

text \<open>
  The data model of src/types.rs and the codec's error type of src/protocol/v4/error.rs.

  A Rust struct is a record, a Rust enum a datatype.  Constructors and fields carry a short prefix
  because HOL has one namespace for them: \<open>P_\<close> for Packet, \<open>T_\<close> for PacketType, \<open>C_\<close> for
  Command.  A Rust String is the list of its UTF-8 bytes; that the bytes are valid UTF-8 is the
  predicate \<open>utf8_valid\<close>, which a Rust String satisfies by construction.  usize values (token ids,
  client ids, lengths) are natural numbers.
\<close>

section \<open>Errors\<close>

datatype mqtt_error =
    InsufficientBytes nat
  | MalformedRemainingLength
  | InvalidPacketType u8
  | InvalidQos u8
  | MalformedPacket
  | PacketIdZero
  | InvalidFixedHeaderFlags u8 u8
  | InvalidProtocol
  | InvalidProtocolLevel u8
  | InvalidConnAckCode u8

section \<open>Quality of service\<close>

datatype qos = AtMostOnce | AtLeastOnce | ExactlyOnce

fun qos_try_from :: "u8 \<Rightarrow> (mqtt_error, qos) outcome" where
  "qos_try_from v =
     (if v = 0 then Ok AtMostOnce
      else if v = 1 then Ok AtLeastOnce
      else if v = 2 then Ok ExactlyOnce
      else Err (InvalidQos v))"

fun qos_to_u8 :: "qos \<Rightarrow> u8" where
  "qos_to_u8 AtMostOnce = 0"
| "qos_to_u8 AtLeastOnce = 1"
| "qos_to_u8 ExactlyOnce = 2"

instantiation qos :: enum
begin

definition "enum_qos = [AtMostOnce, AtLeastOnce, ExactlyOnce]"
definition "enum_all_qos P \<longleftrightarrow> P AtMostOnce \<and> P AtLeastOnce \<and> P ExactlyOnce"
definition "enum_ex_qos P \<longleftrightarrow> P AtMostOnce \<or> P AtLeastOnce \<or> P ExactlyOnce"

instance
proof
  show univ: "(UNIV :: qos set) = set enum_class.enum"
    using qos.exhaust by (auto simp: enum_qos_def)
  show "distinct (enum_class.enum :: qos list)" by (simp add: enum_qos_def)
  show "enum_class.enum_all P \<longleftrightarrow> Ball UNIV P" for P :: "qos \<Rightarrow> bool"
    by (simp add: enum_all_qos_def univ enum_qos_def)
  show "enum_class.enum_ex P \<longleftrightarrow> Bex UNIV P" for P :: "qos \<Rightarrow> bool"
    by (simp add: enum_ex_qos_def univ enum_qos_def)
qed

end

section \<open>Strings\<close>

type_synonym rstring = bytes

text \<open>
  std::str::from_utf8 accepts exactly the well-formed byte sequences of the Unicode standard
  (table 3-7): no overlong form, no surrogate, nothing above U+10FFFF.
\<close>

definition utf8_cont :: "u8 \<Rightarrow> bool" where
  "utf8_cont b \<longleftrightarrow> 0x80 \<le> b \<and> b \<le> 0xBF"

fun utf8_valid :: "bytes \<Rightarrow> bool" where
  "utf8_valid [] = True"
| "utf8_valid (b # bs) =
     (if b \<le> 0x7F then utf8_valid bs
      else case bs of
        [] \<Rightarrow> False
      | c # cs \<Rightarrow>
          if 0xC2 \<le> b \<and> b \<le> 0xDF then utf8_cont c \<and> utf8_valid cs
          else case cs of
            [] \<Rightarrow> False
          | d # ds \<Rightarrow>
              if b = 0xE0 then 0xA0 \<le> c \<and> c \<le> 0xBF \<and> utf8_cont d \<and> utf8_valid ds
              else if b = 0xED then 0x80 \<le> c \<and> c \<le> 0x9F \<and> utf8_cont d \<and> utf8_valid ds
              else if 0xE1 \<le> b \<and> b \<le> 0xEF then utf8_cont c \<and> utf8_cont d \<and> utf8_valid ds
              else case ds of
                [] \<Rightarrow> False
              | e # es \<Rightarrow>
                  (if b = 0xF0 then 0x90 \<le> c \<and> c \<le> 0xBF
                   else if b = 0xF4 then 0x80 \<le> c \<and> c \<le> 0x8F
                   else 0xF1 \<le> b \<and> b \<le> 0xF3 \<and> utf8_cont c)
                  \<and> utf8_cont d \<and> utf8_cont e \<and> utf8_valid es)"

definition from_utf8 :: "bytes \<Rightarrow> rstring option" where
  "from_utf8 bs = (if utf8_valid bs then Some bs else None)"

lemma utf8_valid_ascii: "list_all (\<lambda>b. b \<le> 0x7F) bs \<Longrightarrow> utf8_valid bs"
  by (induction bs) simp_all

section \<open>Packets\<close>

record last_will =
  will_topic :: rstring
  will_message :: bytes
  will_qos :: qos
  will_retain :: bool

record connect =
  con_clean_session :: bool
  con_keep_alive :: u16
  con_client_id :: rstring
  con_will :: "last_will option"
  con_username :: "rstring option"
  con_password :: "bytes option"

record connack =
  connack_session_present :: bool
  connack_code :: u8

record publish =
  pub_dup :: bool
  pub_qos :: qos
  pub_retain :: bool
  pub_topic :: rstring
  pub_pkid :: u16
  pub_payload :: bytes

record puback = puback_pkid :: u16
record pubrec = pubrec_pkid :: u16
record pubrel = pubrel_pkid :: u16
record pubcomp = pubcomp_pkid :: u16

record topic_filter =
  filter_path :: rstring
  filter_qos :: qos

record subscribe =
  sub_pkid :: u16
  sub_filters :: "topic_filter list"

record suback =
  suback_pkid :: u16
  suback_return_codes :: "u8 list"

record unsubscribe =
  unsub_pkid :: u16
  unsub_filters :: "rstring list"

record unsuback = unsuback_pkid :: u16

datatype packet =
    P_Connect connect
  | P_ConnAck connack
  | P_Publish publish
  | P_PubAck puback
  | P_PubRec pubrec
  | P_PubRel pubrel
  | P_PubComp pubcomp
  | P_Subscribe subscribe
  | P_SubAck suback
  | P_UnSubscribe unsubscribe
  | P_UnsubAck unsuback
  | P_PingReq
  | P_PingResp
  | P_Disconnect

datatype packet_type =
    T_Connect | T_ConnAck | T_Publish | T_PubAck | T_PubRec | T_PubRel | T_PubComp
  | T_Subscribe | T_SubAck | T_Unsubscribe | T_UnsubAck | T_PingReq | T_PingResp | T_Disconnect

definition packet_type_try_from :: "u8 \<Rightarrow> (mqtt_error, packet_type) outcome" where
  "packet_type_try_from v =
     (if v = 1 then Ok T_Connect
      else if v = 2 then Ok T_ConnAck
      else if v = 3 then Ok T_Publish
      else if v = 4 then Ok T_PubAck
      else if v = 5 then Ok T_PubRec
      else if v = 6 then Ok T_PubRel
      else if v = 7 then Ok T_PubComp
      else if v = 8 then Ok T_Subscribe
      else if v = 9 then Ok T_SubAck
      else if v = 10 then Ok T_Unsubscribe
      else if v = 11 then Ok T_UnsubAck
      else if v = 12 then Ok T_PingReq
      else if v = 13 then Ok T_PingResp
      else if v = 14 then Ok T_Disconnect
      else Err (InvalidPacketType v))"

fun packet_type_to_u8 :: "packet_type \<Rightarrow> u8" where
  "packet_type_to_u8 T_Connect = 1"
| "packet_type_to_u8 T_ConnAck = 2"
| "packet_type_to_u8 T_Publish = 3"
| "packet_type_to_u8 T_PubAck = 4"
| "packet_type_to_u8 T_PubRec = 5"
| "packet_type_to_u8 T_PubRel = 6"
| "packet_type_to_u8 T_PubComp = 7"
| "packet_type_to_u8 T_Subscribe = 8"
| "packet_type_to_u8 T_SubAck = 9"
| "packet_type_to_u8 T_Unsubscribe = 10"
| "packet_type_to_u8 T_UnsubAck = 11"
| "packet_type_to_u8 T_PingReq = 12"
| "packet_type_to_u8 T_PingResp = 13"
| "packet_type_to_u8 T_Disconnect = 14"

fun packet_type_of :: "packet \<Rightarrow> packet_type" where
  "packet_type_of (P_Connect _) = T_Connect"
| "packet_type_of (P_ConnAck _) = T_ConnAck"
| "packet_type_of (P_Publish _) = T_Publish"
| "packet_type_of (P_PubAck _) = T_PubAck"
| "packet_type_of (P_PubRec _) = T_PubRec"
| "packet_type_of (P_PubRel _) = T_PubRel"
| "packet_type_of (P_PubComp _) = T_PubComp"
| "packet_type_of (P_Subscribe _) = T_Subscribe"
| "packet_type_of (P_SubAck _) = T_SubAck"
| "packet_type_of (P_UnSubscribe _) = T_Unsubscribe"
| "packet_type_of (P_UnsubAck _) = T_UnsubAck"
| "packet_type_of P_PingReq = T_PingReq"
| "packet_type_of P_PingResp = T_PingResp"
| "packet_type_of P_Disconnect = T_Disconnect"

section \<open>Commands\<close>

text \<open>The struct variants of Command, their fields in the order token, payload, client.\<close>

datatype command =
    C_Publish nat publish nat
  | C_Subscribe nat subscribe nat
  | C_Unsubscribe nat unsubscribe nat
  | C_Ping
  | C_Disconnect

section \<open>Conversions\<close>

lemma qos_try_from_to_u8 [simp]: "qos_try_from (qos_to_u8 q) = Ok q"
  by (cases q) simp_all

lemma qos_try_from_Ok_iff: "qos_try_from v = Ok q \<longleftrightarrow> v = qos_to_u8 q"
  by (cases q) auto

lemma qos_try_from_not_Panic [simp]: "qos_try_from v \<noteq> Panic"
  by simp

lemma qos_try_from_0 [simp]: "qos_try_from 0 = Ok AtMostOnce"
  by simp

declare qos_try_from.simps [simp del]

lemma qos_to_u8_le_2 [simp]: "qos_to_u8 q \<le> 2" "\<not> 2 < qos_to_u8 q"
  by (cases q; simp)+

lemma qos_to_u8_0_iff [simp]: "qos_to_u8 q = 0 \<longleftrightarrow> q = AtMostOnce"
  by (cases q) simp_all

lemma qos_to_u8_pos_iff [simp]: "0 < qos_to_u8 q \<longleftrightarrow> q \<noteq> AtMostOnce"
  by (cases q) simp_all

lemma packet_type_try_from_to_u8 [simp]: "packet_type_try_from (packet_type_to_u8 t) = Ok t"
  by (cases t) (simp_all add: packet_type_try_from_def)

lemma packet_type_try_from_Ok: "packet_type_try_from v = Ok t \<Longrightarrow> v = packet_type_to_u8 t"
  by (auto simp: packet_type_try_from_def split: if_splits)

lemma packet_type_try_from_not_Panic [simp]: "packet_type_try_from v \<noteq> Panic"
  by (simp add: packet_type_try_from_def)

end
