(* ===== verification/Primitives.thy ===== *)
theory Primitives
  imports Mqtt_Types
begin

text \<open>
  The wire primitives of src/codec/primitives.rs: big-endian integers, length-prefixed byte
  strings, and the remaining-length varint of the fixed header.

  Readers are operations on the cursor \<open>input: &mut &[u8]\<close>; writers append to the output vector.
  The locale \<open>item_codec\<close> is the contract between a reader and its writer that every packet codec
  relies on: what is written is read back, and what is read was written that way.
\<close>

section \<open>Readers and writers\<close>

definition read_u8 :: "(bytes, mqtt_error, u8) op" where
  "read_u8 =
     and_then (get (\<lambda>input. input)) (\<lambda>input.
     if input = [] then throw (InsufficientBytes 1)
     else
       and_then (lift (index input 0)) (\<lambda>v.
       and_then (lift (slice input 1 (length input))) (\<lambda>rest.
       and_then (put rest) (\<lambda>_. ret v))))"

definition read_u16 :: "(bytes, mqtt_error, u16) op" where
  "read_u16 =
     and_then (get (\<lambda>input. input)) (\<lambda>input.
     if length input < 2 then
       and_then (lift (checked_sub 2 (length input))) (\<lambda>n. throw (InsufficientBytes n))
     else
       and_then (lift (index input 0)) (\<lambda>a.
       and_then (lift (index input 1)) (\<lambda>b.
       and_then (lift (slice input 2 (length input))) (\<lambda>rest.
       and_then (put rest) (\<lambda>_. ret (from_be_bytes a b))))))"

definition read_mqtt_bytes :: "(bytes, mqtt_error, bytes) op" where
  "read_mqtt_bytes =
     and_then read_u16 (\<lambda>n.
     let len = unat n in
     and_then (get (\<lambda>input. input)) (\<lambda>input.
     if length input < len then
       and_then (lift (checked_sub len (length input))) (\<lambda>k. throw (InsufficientBytes k))
     else
       and_then (lift (slice input 0 len)) (\<lambda>bs.
       and_then (lift (slice input len (length input))) (\<lambda>rest.
       and_then (put rest) (\<lambda>_. ret bs)))))"

definition read_mqtt_string :: "(bytes, mqtt_error, rstring) op" where
  "read_mqtt_string =
     and_then read_mqtt_bytes (\<lambda>bs. lift (ok_or (from_utf8 bs) MalformedPacket))"

definition write_u16 :: "bytes \<Rightarrow> u16 \<Rightarrow> bytes" where
  "write_u16 out v = out @ to_be_bytes v"

text \<open>The cast \<open>bytes.len() as u16\<close> keeps the low 16 bits.\<close>

definition write_mqtt_bytes :: "bytes \<Rightarrow> bytes \<Rightarrow> bytes" where
  "write_mqtt_bytes out bs = write_u16 out (word_of_nat (length bs)) @ bs"

definition write_mqtt_string :: "bytes \<Rightarrow> rstring \<Rightarrow> bytes" where
  "write_mqtt_string out s = write_mqtt_bytes out s"

section \<open>Remaining length\<close>

definition MAX_REMAINING_LEN :: nat where
  "MAX_REMAINING_LEN = 268435455"

function encode_remaining_loop :: "nat \<Rightarrow> bytes \<Rightarrow> bytes" where
  "encode_remaining_loop len out =
     (let byte = word_of_nat (len mod 128);
          len' = len div 128;
          byte' = (if len' > 0 then byte OR 0x80 else byte);
          out' = out @ [byte']
      in if len' = 0 then out' else encode_remaining_loop len' out')"
  by pat_completeness auto
termination
  by (relation "measure (\<lambda>(len, out). len)") auto

definition encode_remaining_length :: "nat \<Rightarrow> (mqtt_error, bytes) outcome" where
  "encode_remaining_length len =
     (if len > MAX_REMAINING_LEN then Err MalformedRemainingLength
      else Ok (encode_remaining_loop len []))"

function decode_remaining_loop ::
  "nat \<Rightarrow> nat \<Rightarrow> nat \<Rightarrow> bytes \<Rightarrow> (mqtt_error, nat \<times> nat) outcome" where
  "decode_remaining_loop i multiplier value input =
     (if i < 4 then
        if i \<ge> length input then Err (InsufficientBytes 1)
        else bind_outcome (index input i) (\<lambda>byte.
          let value' = value + unat (byte AND 0x7F) * multiplier in
          if byte AND 0x80 = 0 then
            if value' > MAX_REMAINING_LEN then Err MalformedRemainingLength
            else Ok (value', i + 1)
          else decode_remaining_loop (i + 1) (multiplier * 128) value' input)
      else Err MalformedRemainingLength)"
  by pat_completeness auto
termination
  by (relation "measure (\<lambda>(i, multiplier, value, input). 4 - i)") auto

definition decode_remaining_length :: "bytes \<Rightarrow> (mqtt_error, nat \<times> nat) outcome" where
  "decode_remaining_length input = decode_remaining_loop 0 1 0 input"

declare encode_remaining_loop.simps [simp del] decode_remaining_loop.simps [simp del]

section \<open>What the readers do\<close>

lemma read_u8_eq:
  "read_u8 s = (case s of [] \<Rightarrow> (Err (InsufficientBytes 1), s) | b # r \<Rightarrow> (Ok b, r))"
  by (cases s) (simp_all add: read_u8_def op_defs checked_defs)

lemma read_u16_eq:
  "read_u16 s =
     (case s of
        [] \<Rightarrow> (Err (InsufficientBytes 2), s)
      | [a] \<Rightarrow> (Err (InsufficientBytes 1), s)
      | a # b # r \<Rightarrow> (Ok (from_be_bytes a b), r))"
  by (auto simp: read_u16_def op_defs checked_defs split: list.split)

lemma read_mqtt_bytes_eq:
  "read_mqtt_bytes s =
     (case s of
        [] \<Rightarrow> (Err (InsufficientBytes 2), s)
      | [a] \<Rightarrow> (Err (InsufficientBytes 1), s)
      | a # b # r \<Rightarrow>
          (let len = unat (from_be_bytes a b)
           in if length r < len then (Err (InsufficientBytes (len - length r)), r)
              else (Ok (take len r), drop len r)))"
  by (auto simp: read_mqtt_bytes_def read_u16_eq op_defs checked_defs Let_def split: list.split)

lemma read_mqtt_string_eq:
  "read_mqtt_string s =
     (case read_mqtt_bytes s of
        (Ok bs, s') \<Rightarrow> (if utf8_valid bs then Ok bs else Err MalformedPacket, s')
      | (Err e, s') \<Rightarrow> (Err e, s')
      | (Panic, s') \<Rightarrow> (Panic, s'))"
  by (auto simp: read_mqtt_string_def op_defs from_utf8_def split: prod.split outcome.split)

text \<open>Reading at most shortens the cursor and never panics.\<close>

lemma read_u8_safe [intro, simp]: "safe I read_u8 \<longleftrightarrow> (\<forall>s. I s \<longrightarrow> I (tl s))"
  by (auto simp: safe_def read_u8_eq split: list.splits) (metis list.sel(2,3) neq_Nil_conv)+

lemma read_not_Panic [simp]:
  "fst (read_u8 s) \<noteq> Panic"
  "fst (read_u16 s) \<noteq> Panic"
  "fst (read_mqtt_bytes s) \<noteq> Panic"
  "fst (read_mqtt_string s) \<noteq> Panic"
proof -
  show b: "fst (read_mqtt_bytes s) \<noteq> Panic"
    by (simp add: read_mqtt_bytes_eq Let_def split: list.split)
  then show "fst (read_mqtt_string s) \<noteq> Panic"
    by (cases "read_mqtt_bytes s"; cases "fst (read_mqtt_bytes s)")
      (simp_all add: read_mqtt_string_eq)
qed (simp_all add: read_u8_eq read_u16_eq split: list.split)

subsection \<open>The contract of a reader and its writer\<close>

locale item_codec =
  fixes rd :: "(bytes, mqtt_error, 'a) op"
    and wr :: "bytes \<Rightarrow> 'a \<Rightarrow> bytes"
    and fits :: "'a \<Rightarrow> bool"
  assumes wr_append: "wr out x = out @ wr [] x"
    and wr_nonempty: "wr [] x \<noteq> []"
    and rd_wr: "fits x \<Longrightarrow> rd (wr [] x @ rest) = (Ok x, rest)"
    and wr_rd: "rd s = (Ok x, s') \<Longrightarrow> s = wr [] x @ s' \<and> fits x"
    and rd_no_panic: "fst (rd s) \<noteq> Panic"
begin

lemma rd_wr_only: "fits x \<Longrightarrow> rd (wr [] x) = (Ok x, [])"
  using rd_wr [of x "[]"] by simp

lemma rd_Ok_iff: "rd s = (Ok x, s') \<longleftrightarrow> s = wr [] x @ s' \<and> fits x"
  using rd_wr wr_rd by blast

lemma rd_shrinks: "rd s = (Ok x, s') \<Longrightarrow> length s' < length s"
  using wr_rd [of s x s'] wr_nonempty [of x] by auto

lemma wr_inj:
  assumes "wr [] x @ r = wr [] y @ r'" and "fits x" and "fits y"
  shows "x = y \<and> r = r'"
proof -
  have "(Ok x, r) = rd (wr [] y @ r')"
    using rd_wr [OF assms(2), of r] unfolding assms(1) by (rule sym)
  also have "\<dots> = (Ok y, r')" by (rule rd_wr [OF assms(3)])
  finally show ?thesis by simp
qed

lemma rd_result: "(\<exists>x s'. rd s = (Ok x, s')) \<or> (\<exists>e s'. rd s = (Err e, s'))"
  using rd_no_panic [of s] by (cases "rd s"; cases "fst (rd s)") auto

end

interpretation u8_item: item_codec read_u8 "\<lambda>out b. out @ [b]" "\<lambda>_. True"
  by unfold_locales (auto simp: read_u8_eq split: list.splits)

interpretation u16_item: item_codec read_u16 write_u16 "\<lambda>_. True"
proof (unfold_locales, goal_cases)
  case (3 x rest)
  then show ?case by (simp add: read_u16_eq write_u16_def to_be_bytes_def)
next
  case (4 s x s')
  then show ?case
    by (auto simp: read_u16_eq write_u16_def split: list.splits)
qed (auto simp: write_u16_def to_be_bytes_def)

lemma unat_word_of_length: "length bs < 2 ^ 16 \<Longrightarrow> unat (word_of_nat (length bs) :: u16) = length bs"
  by (simp add: unsigned_of_nat take_bit_nat_eq_self)

interpretation bytes_item: item_codec read_mqtt_bytes write_mqtt_bytes "\<lambda>bs. length bs < 2 ^ 16"
proof (unfold_locales, goal_cases)
  case (3 bs rest)
  then show ?case
    by (simp add: read_mqtt_bytes_eq write_mqtt_bytes_def write_u16_def to_be_bytes_def
        unat_word_of_length)
next
  case (4 s bs s')
  then obtain a b r where s: "s = a # b # r"
    and len: "unat (from_be_bytes a b) \<le> length r"
    and bs: "bs = take (unat (from_be_bytes a b)) r" and s': "s' = drop (unat (from_be_bytes a b)) r"
    by (auto simp: read_mqtt_bytes_eq Let_def split: list.splits if_splits)
  from len bs have l: "length bs = unat (from_be_bytes a b)" by simp
  then have "write_mqtt_bytes [] bs = a # b # bs"
    by (simp add: write_mqtt_bytes_def write_u16_def)
  moreover have "length bs < 2 ^ 16"
    using unsigned_less [of "from_be_bytes a b"] l by simp
  ultimately show ?case using s bs s' by simp
qed (auto simp: write_mqtt_bytes_def write_u16_def to_be_bytes_def)

interpretation string_item:
  item_codec read_mqtt_string write_mqtt_string "\<lambda>s. length s < 2 ^ 16 \<and> utf8_valid s"
proof (unfold_locales, goal_cases)
  case (3 x rest)
  then show ?case
    using bytes_item.rd_wr [of x rest] by (simp add: read_mqtt_string_eq write_mqtt_string_def)
next
  case (4 s x s')
  then have "read_mqtt_bytes s = (Ok x, s') \<and> utf8_valid x"
    by (auto simp: read_mqtt_string_eq split: prod.splits outcome.splits if_splits)
  then show ?case using bytes_item.wr_rd [of s x s'] by (simp add: write_mqtt_string_def)
qed (auto simp: write_mqtt_string_def write_mqtt_bytes_def write_u16_def to_be_bytes_def)

end
