(* ===== verification/Remaining_Length.thy ===== *)
theory Remaining_Length
  imports Primitives
begin

text \<open>
  Correctness of the remaining-length varint (encode_remaining_length and
  decode_remaining_length of src/codec/primitives.rs) against a structural specification: a varint
  is a run of bytes of which exactly the last has its top bit clear, and its value is the little
  endian base-128 number of the low seven bits.
\<close>

section \<open>Specification\<close>

fun varint_form :: "bytes \<Rightarrow> bool" where
  "varint_form [] = False"
| "varint_form (b # bs) =
     (if b AND 0x80 = 0 then bs = [] else varint_form bs)"

fun varint_value :: "bytes \<Rightarrow> nat" where
  "varint_value [] = 0"
| "varint_value (b # bs) = unat (b AND 0x7F) + 128 * varint_value bs"

lemma low7: "unat ((b::u8) AND 0x7F) = unat b mod 128"
proof -
  have "b AND 0x7F = take_bit 7 b" by (simp add: take_bit_eq_mask mask_numeral)
  then show ?thesis by (simp add: unsigned_take_bit_eq take_bit_eq_mod unat_mod)
qed

lemma low7_less: "unat ((b::u8) AND 0x7F) < 128"
  by (simp add: low7)

lemma varint_digit:
  assumes "n < 128"
  shows "(word_of_nat n :: u8) AND 0x80 = 0"
    and "(word_of_nat n OR 0x80 :: u8) AND 0x80 \<noteq> 0"
    and "unat ((word_of_nat n :: u8) AND 0x7F) = n"
    and "unat ((word_of_nat n OR 0x80 :: u8) AND 0x7F) = n"
proof -
  have "\<forall>n<128. (word_of_nat n :: u8) AND 0x80 = 0 \<and> (word_of_nat n OR 0x80 :: u8) AND 0x80 \<noteq> 0
     \<and> unat ((word_of_nat n :: u8) AND 0x7F) = n \<and> unat ((word_of_nat n OR 0x80 :: u8) AND 0x7F) = n"
    by code_simp
  then show "(word_of_nat n :: u8) AND 0x80 = 0" "(word_of_nat n OR 0x80 :: u8) AND 0x80 \<noteq> 0"
    "unat ((word_of_nat n :: u8) AND 0x7F) = n" "unat ((word_of_nat n OR 0x80 :: u8) AND 0x7F) = n"
    using assms by blast+
qed

lemma varint_value_less: "varint_value bs < 128 ^ length bs"
proof (induction bs)
  case (Cons b bs)
  have "unat (b AND 0x7F) + 128 * varint_value bs < 128 + 128 * varint_value bs"
    using low7_less by simp
  also have "\<dots> = 128 * Suc (varint_value bs)" by simp
  also have "\<dots> \<le> 128 * 128 ^ length bs"
    using Cons.IH by (intro mult_le_mono2) (simp add: Suc_le_eq)
  finally show ?case by simp
qed simp

section \<open>The encoding loop\<close>

lemma encode_remaining_loop_append:
  "encode_remaining_loop len out = out @ encode_remaining_loop len []"
proof (induction len arbitrary: out rule: less_induct)
  case (less len)
  show ?case
  proof (cases "len div 128 = 0")
    case True
    then show ?thesis
      by (subst (1 2) encode_remaining_loop.simps) (simp add: Let_def)
  next
    case False
    then have "len div 128 < len" by simp
    note IH = less [OF this]
    define b where "b = (word_of_nat (len mod 128) :: u8) OR 0x80"
    have "encode_remaining_loop len out = encode_remaining_loop (len div 128) (out @ [b])" for out
      using False by (subst encode_remaining_loop.simps) (simp add: Let_def b_def)
    then show ?thesis by (metis IH append_assoc append_Nil)
  qed
qed

lemma encode_remaining_rec:
  "encode_remaining_loop len [] =
     (if len < 128 then [word_of_nat len]
      else (word_of_nat (len mod 128) OR 0x80) # encode_remaining_loop (len div 128) [])"
proof (cases "len < 128")
  case True
  then show ?thesis by (subst encode_remaining_loop.simps) (simp add: Let_def)
next
  case False
  then have "len div 128 > 0" by simp
  then show ?thesis using False encode_remaining_loop_append [of "len div 128" "[_]"]
    by (subst encode_remaining_loop.simps) (simp add: Let_def)
qed

lemma encode_varint_form: "varint_form (encode_remaining_loop len [])"
proof (induction len rule: less_induct)
  case (less len)
  show ?case
  proof (cases "len < 128")
    case True
    then show ?thesis by (subst encode_remaining_rec) (simp add: varint_digit)
  next
    case False
    then have "len div 128 < len" by simp
    with less False show ?thesis by (subst encode_remaining_rec) (simp add: varint_digit)
  qed
qed

lemma encode_varint_value: "varint_value (encode_remaining_loop len []) = len"
proof (induction len rule: less_induct)
  case (less len)
  show ?case
  proof (cases "len < 128")
    case True
    then show ?thesis by (subst encode_remaining_rec) (simp add: varint_digit)
  next
    case False
    then have "len div 128 < len" by simp
    with less False show ?thesis by (subst encode_remaining_rec) (simp add: varint_digit)
  qed
qed

lemma encode_varint_length:
  "len < 128 ^ Suc k \<Longrightarrow> length (encode_remaining_loop len []) \<le> Suc k"
proof (induction k arbitrary: len)
  case 0
  then show ?case by (subst encode_remaining_rec) simp
next
  case (Suc k)
  have "len div 128 < 128 ^ Suc k"
    using Suc.prems by (simp add: less_mult_imp_div_less mult.commute)
  then show ?case using Suc.IH by (subst encode_remaining_rec) simp
qed

lemma encode_varint_nonempty: "encode_remaining_loop len [] \<noteq> []"
  by (subst encode_remaining_rec) simp

lemma encode_varint_length_4:
  "len \<le> MAX_REMAINING_LEN \<Longrightarrow> length (encode_remaining_loop len []) \<le> 4"
  using encode_varint_length [of len 3] by (simp add: MAX_REMAINING_LEN_def)

section \<open>The decoding loop\<close>

lemma varint_bound_step:
  assumes "v < 128 ^ i" and "i < 4"
  shows "v + unat ((b::u8) AND 0x7F) * 128 ^ i < 128 ^ Suc i"
    and "v + unat (b AND 0x7F) * 128 ^ i \<le> MAX_REMAINING_LEN"
proof -
  have "unat (b AND 0x7F) * 128 ^ i \<le> 127 * 128 ^ i"
    using low7_less [of b] by (intro mult_le_mono1) simp
  with assms(1) have "v + unat (b AND 0x7F) * 128 ^ i < 128 ^ i + 127 * 128 ^ i"
    by (rule add_less_le_mono)
  then show *: "v + unat (b AND 0x7F) * 128 ^ i < 128 ^ Suc i" by simp
  have "(128::nat) ^ Suc i \<le> 128 ^ 4"
    using assms(2) by (intro power_increasing) simp_all
  with * show "v + unat (b AND 0x7F) * 128 ^ i \<le> MAX_REMAINING_LEN"
    by (simp add: MAX_REMAINING_LEN_def)
qed

text \<open>One unfolding on the rest of the input, the overflow test gone: it never fires.\<close>

lemma decode_remaining_step:
  assumes "v < 128 ^ i" and "i < 4" and "i \<le> length input"
  shows "decode_remaining_loop i (128 ^ i) v input =
     (case drop i input of
        [] \<Rightarrow> Err (InsufficientBytes 1)
      | b # r \<Rightarrow>
          (let v' = v + unat (b AND 0x7F) * 128 ^ i
           in if b AND 0x80 = 0 then Ok (v', Suc i)
              else decode_remaining_loop (Suc i) (128 ^ Suc i) v' input))"
proof (cases "drop i input")
  case Nil
  with assms show ?thesis by (subst decode_remaining_loop.simps) simp
next
  case (Cons b r)
  then have i: "i < length input" and b: "input ! i = b"
    by (metis drop_eq_Nil list.distinct(1) not_less, metis hd_drop_conv_nth list.sel(1) drop_eq_Nil
        list.distinct(1) not_less)
  show ?thesis
    using assms(2) i varint_bound_step(2) [OF assms(1,2), of b]
    by (subst decode_remaining_loop.simps)
      (simp add: Cons b checked_defs Let_def mult.commute)
qed

lemma decode_remaining_loop_exact:
  assumes "varint_form bs" and "drop i input = bs @ rest" and "i + length bs \<le> 4"
    and "v < 128 ^ i" and "i \<le> length input"
  shows "decode_remaining_loop i (128 ^ i) v input = Ok (v + 128 ^ i * varint_value bs, i + length bs)"
  using assms
proof (induction bs arbitrary: i v)
  case (Cons b bs)
  from Cons.prems have i: "i < 4" by simp
  have d: "drop (Suc i) input = bs @ rest"
    using Cons.prems(2) by (metis append_Cons drop_Suc list.sel(3) tl_drop)
  have l: "Suc i \<le> length input"
    using Cons.prems(2) by (metis append_Cons drop_eq_Nil list.distinct(1) not_less_eq_eq)
  note step = decode_remaining_step [OF Cons.prems(4) i Cons.prems(5)]
  show ?case
  proof (cases "b AND 0x80 = 0")
    case True
    with Cons.prems show ?thesis by (simp add: step mult.commute)
  next
    case False
    then have "decode_remaining_loop i (128 ^ i) v input =
        decode_remaining_loop (Suc i) (128 ^ Suc i) (v + unat (b AND 0x7F) * 128 ^ i) input"
      using Cons.prems(2) by (simp add: step)
    also have "\<dots> = Ok (v + unat (b AND 0x7F) * 128 ^ i + 128 ^ Suc i * varint_value bs,
                        Suc i + length bs)"
      using Cons.prems(1,3) False d l varint_bound_step(1) [OF Cons.prems(4) i]
      by (intro Cons.IH) simp_all
    finally show ?thesis by (simp add: algebra_simps)
  qed
qed simp

text \<open>The error is decided by the first four bytes alone.\<close>

lemma decode_remaining_loop_cont:
  assumes "list_all (\<lambda>b. b AND 0x80 \<noteq> 0) (take (4 - i) (drop i input))"
    and "i \<le> 4" and "i \<le> length input" and "v < 128 ^ i"
  shows "decode_remaining_loop i (128 ^ i) v input =
    (if length input < 4 then Err (InsufficientBytes 1) else Err MalformedRemainingLength)"
  using assms
proof (induction "4 - i" arbitrary: i v)
  case 0
  then show ?case by (subst decode_remaining_loop.simps) simp
next
  case (Suc n)
  from Suc have i: "i < 4" by simp
  note step = decode_remaining_step [OF Suc.prems(4) i Suc.prems(3)]
  show ?case
  proof (cases "drop i input")
    case Nil
    with i Suc.prems(3) show ?thesis by (simp add: step)
  next
    case (Cons b r)
    then have r: "r = drop (Suc i) input" by (metis drop_Suc list.sel(3) tl_drop)
    have e: "4 - i = Suc (4 - Suc i)" using i by simp
    from Suc.prems(1) Cons have "b AND 0x80 \<noteq> 0"
      and "list_all (\<lambda>b. b AND 0x80 \<noteq> 0) (take (4 - Suc i) (drop (Suc i) input))"
      by (simp_all add: e r)
    moreover have "Suc i \<le> length input"
      using Cons by (metis drop_eq_Nil list.distinct(1) not_less_eq_eq)
    ultimately show ?thesis
      using Suc.hyps(1) [of "Suc i"] Suc.hyps(2) i varint_bound_step(1) [OF Suc.prems(4) i]
      by (simp add: step Cons)
  qed
qed

text \<open>Every input starts with a varint of at most four bytes, or its first four bytes continue.\<close>

lemma varint_split:
  "(\<exists>bs rest. input = bs @ rest \<and> varint_form bs \<and> length bs \<le> k)
   \<or> list_all (\<lambda>b. b AND 0x80 \<noteq> 0) (take k input)"
proof (induction input arbitrary: k)
  case (Cons b input)
  show ?case
  proof (cases k)
    case (Suc k')
    show ?thesis
    proof (cases "b AND 0x80 = 0")
      case True
      then have "varint_form [b]" by simp
      with Suc show ?thesis by (intro disjI1 exI [of _ "[b]"] exI [of _ input]) simp
    next
      case False
      from Cons.IH [of k'] show ?thesis
      proof
        assume "\<exists>bs rest. input = bs @ rest \<and> varint_form bs \<and> length bs \<le> k'"
        then obtain bs rest where "input = bs @ rest" "varint_form bs" "length bs \<le> k'" by blast
        with Suc False show ?thesis
          by (intro disjI1 exI [of _ "b # bs"] exI [of _ rest]) simp
      qed (simp add: Suc False)
    qed
  qed simp
qed simp

lemma decode_remaining_length_varint:
  "varint_form bs \<Longrightarrow> length bs \<le> 4 \<Longrightarrow>
   decode_remaining_length (bs @ rest) = Ok (varint_value bs, length bs)"
  using decode_remaining_loop_exact [of bs 0 "bs @ rest" rest 0]
  by (simp add: decode_remaining_length_def)

lemma decode_remaining_length_cont:
  "list_all (\<lambda>b. b AND 0x80 \<noteq> 0) (take 4 input) \<Longrightarrow>
   decode_remaining_length input =
     (if length input < 4 then Err (InsufficientBytes 1) else Err MalformedRemainingLength)"
  using decode_remaining_loop_cont [of 0 input 0] by (simp add: decode_remaining_length_def)

lemma decode_remaining_length_cases:
  obtains (varint) bs rest where "input = bs @ rest" "varint_form bs" "length bs \<le> 4"
      "decode_remaining_length input = Ok (varint_value bs, length bs)"
  | (short) "length input < 4" "list_all (\<lambda>b. b AND 0x80 \<noteq> 0) input"
      "decode_remaining_length input = Err (InsufficientBytes 1)"
  | (long) "4 \<le> length input" "list_all (\<lambda>b. b AND 0x80 \<noteq> 0) (take 4 input)"
      "decode_remaining_length input = Err MalformedRemainingLength"
  using varint_split [of input 4] decode_remaining_length_varint decode_remaining_length_cont
  by (metis not_less order_less_imp_le take_all)

end
