(* ===== verification/Fixed_Header.thy ===== *)
theory Fixed_Header
  imports Remaining_Length
begin

text \<open>
  src/codec/fixed_header.rs: the control byte and the remaining length that open every frame.
  Besides the model, this theory shows that the header read from a buffer does not depend on the
  bytes that follow it, which is what lets the frame parser work on a growing buffer.
\<close>

record fixed_header =
  fh_byte1 :: u8
  fh_remaining_len :: nat
  fh_header_len :: nat

definition fh_packet_type :: "fixed_header \<Rightarrow> u8" where
  "fh_packet_type fh = drop_bit 4 (fh_byte1 fh)"

definition fh_flags :: "fixed_header \<Rightarrow> u8" where
  "fh_flags fh = fh_byte1 fh AND 0x0F"

definition frame_len :: "fixed_header \<Rightarrow> nat" where
  "frame_len fh = fh_header_len fh + fh_remaining_len fh"

definition parse_fixed_header :: "bytes \<Rightarrow> (mqtt_error, fixed_header) outcome" where
  "parse_fixed_header input =
     (if input = [] then Err (InsufficientBytes 1)
      else
        bind_outcome (index input 0) (\<lambda>byte1.
        bind_outcome (slice input 1 (length input)) (\<lambda>tail.
        bind_outcome (decode_remaining_length tail) (\<lambda>(remaining_len, len_bytes).
          Ok \<lparr>fh_byte1 = byte1, fh_remaining_len = remaining_len,
              fh_header_len = 1 + len_bytes\<rparr>))))"

lemma parse_fixed_header_Nil [simp]: "parse_fixed_header [] = Err (InsufficientBytes 1)"
  by (simp add: parse_fixed_header_def)

lemma parse_fixed_header_Cons:
  "parse_fixed_header (b # r) =
     bind_outcome (decode_remaining_length r) (\<lambda>(n, k).
       Ok \<lparr>fh_byte1 = b, fh_remaining_len = n, fh_header_len = 1 + k\<rparr>)"
  by (simp add: parse_fixed_header_def checked_defs)

lemma parse_fixed_header_varint:
  "varint_form bs \<Longrightarrow> length bs \<le> 4 \<Longrightarrow>
   parse_fixed_header (b # bs @ rest) =
     Ok \<lparr>fh_byte1 = b, fh_remaining_len = varint_value bs, fh_header_len = Suc (length bs)\<rparr>"
  by (simp add: parse_fixed_header_Cons decode_remaining_length_varint)

text \<open>The three ways a header parse ends.\<close>

lemma parse_fixed_header_cases:
  obtains (ok) b bs rest where "input = b # bs @ rest" "varint_form bs" "length bs \<le> 4"
      "parse_fixed_header input =
         Ok \<lparr>fh_byte1 = b, fh_remaining_len = varint_value bs, fh_header_len = Suc (length bs)\<rparr>"
  | (short) "length input \<le> 4" "list_all (\<lambda>b. b AND 0x80 \<noteq> 0) (tl input)"
      "parse_fixed_header input = Err (InsufficientBytes 1)"
  | (malformed) "5 \<le> length input" "list_all (\<lambda>b. b AND 0x80 \<noteq> 0) (take 4 (tl input))"
      "parse_fixed_header input = Err MalformedRemainingLength"
proof (cases input)
  case Nil
  then show ?thesis using short by simp
next
  case (Cons b r)
  show ?thesis
  proof (cases r rule: decode_remaining_length_cases)
    case (varint bs rest)
    then show ?thesis using Cons ok [of b bs rest] by (simp add: parse_fixed_header_Cons)
  next
    case short
    then show ?thesis using Cons that(2) by (simp add: parse_fixed_header_Cons)
  next
    case long
    then show ?thesis using Cons malformed by (simp add: parse_fixed_header_Cons)
  qed
qed

lemma parse_fixed_header_not_Panic [simp]: "parse_fixed_header input \<noteq> Panic"
  by (cases input rule: parse_fixed_header_cases) simp_all

lemma parse_fixed_header_Ok_append:
  assumes "parse_fixed_header input = Ok fh"
  shows "parse_fixed_header (input @ ys) = Ok fh"
  using assms
  by (cases input rule: parse_fixed_header_cases) (simp_all add: parse_fixed_header_varint)

lemma parse_fixed_header_malformed_append:
  assumes "parse_fixed_header input = Err MalformedRemainingLength"
  shows "parse_fixed_header (input @ ys) = Err MalformedRemainingLength"
  using assms
proof (cases input rule: parse_fixed_header_cases)
  case malformed
  then obtain b r where "input = b # r" "4 \<le> length r" "list_all (\<lambda>b. b AND 0x80 \<noteq> 0) (take 4 r)"
    by (cases input) auto
  then show ?thesis
    by (simp add: parse_fixed_header_Cons decode_remaining_length_cont)
qed simp_all

lemma parse_fixed_header_Ok_bounds:
  assumes "parse_fixed_header input = Ok fh"
  shows "2 \<le> fh_header_len fh" and "fh_header_len fh \<le> length input" and "2 \<le> frame_len fh"
    and "fh_byte1 fh = hd input"
proof -
  have "2 \<le> fh_header_len fh \<and> fh_header_len fh \<le> length input \<and> fh_byte1 fh = hd input"
    using assms
  proof (cases input rule: parse_fixed_header_cases)
    case (ok b bs rest)
    then have "bs \<noteq> []" by auto
    then have "1 \<le> length bs" by (simp add: Suc_le_eq)
    with ok assms show ?thesis by auto
  qed simp_all
  then show "2 \<le> fh_header_len fh" "fh_header_len fh \<le> length input" "2 \<le> frame_len fh"
    "fh_byte1 fh = hd input"
    by (simp_all add: frame_len_def)
qed

lemma parse_fixed_header_Err:
  assumes "parse_fixed_header input = Err e"
  shows "e = InsufficientBytes 1 \<or> e = MalformedRemainingLength"
  using assms by (cases input rule: parse_fixed_header_cases) simp_all

text \<open>The header an encoder writes: a control byte and the minimal varint of the body length.\<close>

lemma parse_fixed_header_encoded:
  assumes "encode_remaining_length n = Ok rl"
  shows "parse_fixed_header (b # rl @ rest) =
    Ok \<lparr>fh_byte1 = b, fh_remaining_len = n, fh_header_len = Suc (length rl)\<rparr>"
proof -
  from assms have "rl = encode_remaining_loop n []" "n \<le> MAX_REMAINING_LEN"
    by (auto simp: encode_remaining_length_def split: if_splits)
  then show ?thesis
    using parse_fixed_header_varint [of rl b rest]
    by (simp add: encode_varint_form encode_varint_value encode_varint_length_4)
qed

end
