(* ===== verification/Packet_Codec.thy ===== *)
theory Packet_Codec
  imports Fixed_Header
begin

text \<open>
  The packet encoders and decoders of src/codec/packet.rs.

  An encoder is an operation on the output vector \<open>out\<close>; a body that the code first builds in a
  local vector is a \<open>let\<close> chain.  A decoder takes the body slice and works on a local cursor.
\<close>

section \<open>Encoders\<close>

text \<open>
  The three statements that close the length-prefixed encoders: push the control byte, extend by
  the remaining length (an error leaves the control byte behind), extend by the body.
\<close>

definition emit_frame :: "u8 \<Rightarrow> bytes \<Rightarrow> (bytes, mqtt_error, unit) op" where
  "emit_frame byte1 body =
     and_then (modify (\<lambda>out. out @ [byte1])) (\<lambda>_.
     and_then (lift (encode_remaining_length (length body))) (\<lambda>rl.
     and_then (modify (\<lambda>out. out @ rl)) (\<lambda>_.
     modify (\<lambda>out. out @ body))))"

definition encode_disconnect :: "(bytes, mqtt_error, unit) op" where
  "encode_disconnect =
     and_then (modify (\<lambda>out. out @ [0xE0])) (\<lambda>_. modify (\<lambda>out. out @ [0x00]))"

definition encode_connack :: "connack \<Rightarrow> (bytes, mqtt_error, unit) op" where
  "encode_connack p =
     (if \<not> (0x00 \<le> connack_code p \<and> connack_code p \<le> 0x05) then
        throw (InvalidConnAckCode (connack_code p))
      else if connack_code p \<noteq> 0x00 \<and> connack_session_present p then throw MalformedPacket
      else
        and_then (modify (\<lambda>out. out @ [0x20])) (\<lambda>_.
        and_then (modify (\<lambda>out. out @ [0x02])) (\<lambda>_.
        let ack_flags = (if connack_session_present p then 0x01 else 0x00) in
        and_then (modify (\<lambda>out. out @ [ack_flags])) (\<lambda>_.
        modify (\<lambda>out. out @ [connack_code p])))))"

definition construct_flags :: "connect \<Rightarrow> (mqtt_error, u8) outcome" where
  "construct_flags p =
     (let f = (0 :: u8);
          f = (if con_clean_session p then f OR push_bit 1 1 else f) in
      bind_outcome
        (case con_will p of
           None \<Rightarrow> Ok f
         | Some w \<Rightarrow>
             (let f = f OR push_bit 2 1;
                  qos = qos_to_u8 (will_qos w)
              in if qos > 2 then Err (InvalidQos qos)
                 else
                   (let f = f OR push_bit 3 (qos AND 3)
                    in Ok (if will_retain w then f OR push_bit 5 1 else f))))
        (\<lambda>f.
          let f = (if con_username p \<noteq> None then f OR push_bit 7 1 else f);
              f = (if con_password p \<noteq> None then f OR push_bit 6 1 else f)
          in if con_password p \<noteq> None \<and> con_username p = None then Err InvalidProtocol
             else if f AND 0x01 \<noteq> 0 then Panic
             else Ok f))"

definition encode_connect :: "connect \<Rightarrow> (bytes, mqtt_error, unit) op" where
  "encode_connect p =
     (let body = write_mqtt_string [] (ascii ''MQTT'');
          body = body @ [4] in
      and_then (lift (construct_flags p)) (\<lambda>flags.
        let body = body @ [flags];
            body = write_u16 body (con_keep_alive p);
            body = write_mqtt_string body (con_client_id p);
            body =
              (case con_will p of
                 None \<Rightarrow> body
               | Some w \<Rightarrow> write_mqtt_bytes (write_mqtt_string body (will_topic w)) (will_message w));
            body =
              (case con_username p of
                 None \<Rightarrow> body
               | Some username \<Rightarrow>
                   (let body = write_mqtt_string body username in
                    case con_password p of
                      None \<Rightarrow> body
                    | Some password \<Rightarrow> write_mqtt_bytes body password))
        in emit_frame 0x10 body))"

definition encode_pkid_only :: "u8 \<Rightarrow> u16 \<Rightarrow> u8 \<Rightarrow> (bytes, mqtt_error, unit) op" where
  "encode_pkid_only ptype pkid flags =
     (if pkid = 0 then throw PacketIdZero
      else
        and_then (modify (\<lambda>out. out @ [push_bit 4 ptype OR (flags AND 0x0F)])) (\<lambda>_.
        and_then (modify (\<lambda>out. out @ [0x02])) (\<lambda>_.
        modify (\<lambda>out. write_u16 out pkid))))"

definition encode_publish :: "publish \<Rightarrow> (bytes, mqtt_error, unit) op" where
  "encode_publish p =
     (let qos = qos_to_u8 (pub_qos p) in
      if qos > 2 then throw (InvalidQos qos)
      else if qos = 0 \<and> pub_pkid p \<noteq> 0 then throw MalformedPacket
      else if qos > 0 \<and> pub_pkid p = 0 then throw PacketIdZero
      else
        (let body = write_mqtt_string [] (pub_topic p);
             body = (if qos > 0 then write_u16 body (pub_pkid p) else body);
             body = body @ pub_payload p;
             flags = push_bit 3 (of_bool (pub_dup p)) OR push_bit 1 (qos AND 3)
                     OR of_bool (pub_retain p)
         in emit_frame (push_bit 4 3 OR flags) body))"

text \<open>The loop over the filters, on the local body vector.\<close>

fun write_filters :: "topic_filter list \<Rightarrow> (bytes, mqtt_error, unit) op" where
  "write_filters [] = ret ()"
| "write_filters (f # filters) =
     (let k = qos_to_u8 (filter_qos f) in
      if k > 2 then throw (InvalidQos k)
      else
        and_then (modify (\<lambda>body. write_mqtt_string body (filter_path f))) (\<lambda>_.
        and_then (modify (\<lambda>body. body @ [k])) (\<lambda>_.
        write_filters filters)))"

definition encode_subscribe :: "subscribe \<Rightarrow> (bytes, mqtt_error, unit) op" where
  "encode_subscribe p =
     (if sub_pkid p = 0 then throw PacketIdZero
      else if sub_filters p = [] then throw MalformedPacket
      else
        and_then (with_local (write_u16 [] (sub_pkid p)) (write_filters (sub_filters p))) (\<lambda>body.
        emit_frame 0x82 body))"

definition valid_suback_code :: "u8 \<Rightarrow> bool" where
  "valid_suback_code c \<longleftrightarrow> c = 0x00 \<or> c = 0x01 \<or> c = 0x02 \<or> c = 0x80"

definition encode_suback :: "suback \<Rightarrow> (bytes, mqtt_error, unit) op" where
  "encode_suback p =
     (if suback_pkid p = 0 then throw PacketIdZero
      else if suback_return_codes p = [] then throw MalformedPacket
      else if \<not> list_all valid_suback_code (suback_return_codes p) then throw MalformedPacket
      else
        (let body = write_u16 [] (suback_pkid p);
             body = body @ suback_return_codes p
         in emit_frame 0x90 body))"

definition encode_unsubscribe :: "unsubscribe \<Rightarrow> (bytes, mqtt_error, unit) op" where
  "encode_unsubscribe p =
     (if unsub_pkid p = 0 then throw PacketIdZero
      else if unsub_filters p = [] then throw MalformedPacket
      else
        (let body = write_u16 [] (unsub_pkid p);
             body = fold (\<lambda>topic body. write_mqtt_string body topic) (unsub_filters p) body
         in emit_frame 0xA2 body))"

definition encode_unsuback :: "unsuback \<Rightarrow> (bytes, mqtt_error, unit) op" where
  "encode_unsuback p =
     (if unsuback_pkid p = 0 then throw PacketIdZero
      else
        and_then (modify (\<lambda>out. out @ [0xB0])) (\<lambda>_.
        and_then (modify (\<lambda>out. out @ [0x02])) (\<lambda>_.
        modify (\<lambda>out. write_u16 out (unsuback_pkid p)))))"

definition encode_ping :: "u8 \<Rightarrow> (bytes, mqtt_error, unit) op" where
  "encode_ping ptype =
     and_then (modify (\<lambda>out. out @ [push_bit 4 ptype])) (\<lambda>_. modify (\<lambda>out. out @ [0x00]))"

fun encode_packet :: "packet \<Rightarrow> (bytes, mqtt_error, unit) op" where
  "encode_packet (P_Connect p) = encode_connect p"
| "encode_packet (P_ConnAck p) = encode_connack p"
| "encode_packet (P_Publish p) = encode_publish p"
| "encode_packet (P_PubAck p) = encode_pkid_only 4 (puback_pkid p) 0"
| "encode_packet (P_PubRec p) = encode_pkid_only 5 (pubrec_pkid p) 0"
| "encode_packet (P_PubRel p) = encode_pkid_only 6 (pubrel_pkid p) 0x02"
| "encode_packet (P_PubComp p) = encode_pkid_only 7 (pubcomp_pkid p) 0"
| "encode_packet (P_Subscribe p) = encode_subscribe p"
| "encode_packet (P_SubAck p) = encode_suback p"
| "encode_packet (P_UnSubscribe p) = encode_unsubscribe p"
| "encode_packet (P_UnsubAck p) = encode_unsuback p"
| "encode_packet P_PingReq = encode_ping 12"
| "encode_packet P_PingResp = encode_ping 13"
| "encode_packet P_Disconnect = encode_disconnect"

section \<open>Decoders\<close>

definition decode_connect :: "bytes \<Rightarrow> (mqtt_error, connect) outcome" where
  "decode_connect body = on_cursor body (
     and_then read_mqtt_string (\<lambda>protocol.
     if protocol \<noteq> ascii ''MQTT'' then throw InvalidProtocol
     else and_then read_u8 (\<lambda>level.
     if level \<noteq> 4 then throw (InvalidProtocolLevel level)
     else and_then read_u8 (\<lambda>flags.
     if flags AND 0x01 \<noteq> 0 then throw MalformedPacket
     else
       let clean_session = (flags AND 0x02 \<noteq> 0);
           will_flag = (flags AND 0x04 \<noteq> 0);
           will_qos = drop_bit 3 flags AND 3;
           will_retain = (flags AND 0x20 \<noteq> 0);
           password_flag = (flags AND 0x40 \<noteq> 0);
           username_flag = (flags AND 0x80 \<noteq> 0) in
     if \<not> will_flag \<and> (will_qos \<noteq> 0 \<or> will_retain) then throw MalformedPacket
     else if will_flag \<and> will_qos > 2 then throw (InvalidQos will_qos)
     else if password_flag \<and> \<not> username_flag then throw MalformedPacket
     else and_then read_u16 (\<lambda>keep_alive.
     and_then read_mqtt_string (\<lambda>client_id.
     and_then
       (if will_flag then
          and_then read_mqtt_string (\<lambda>topic.
          and_then read_mqtt_bytes (\<lambda>message.
          and_then (lift (qos_try_from will_qos)) (\<lambda>qos.
          ret (Some \<lparr>will_topic = topic, will_message = message, will_qos = qos,
                     will_retain = will_retain\<rparr>))))
        else ret None) (\<lambda>will.
     and_then
       (if username_flag then and_then read_mqtt_string (\<lambda>u. ret (Some u)) else ret None)
       (\<lambda>username.
     and_then
       (if password_flag then and_then read_mqtt_bytes (\<lambda>p. ret (Some p)) else ret None)
       (\<lambda>password.
     and_then (get (\<lambda>cur. cur)) (\<lambda>cur.
     if cur \<noteq> [] then throw MalformedPacket
     else ret \<lparr>con_clean_session = clean_session, con_keep_alive = keep_alive,
               con_client_id = client_id, con_will = will, con_username = username,
               con_password = password\<rparr>))))))))))"

definition decode_connack :: "bytes \<Rightarrow> (mqtt_error, connack) outcome" where
  "decode_connack body =
     (if length body \<noteq> 2 then Err MalformedPacket
      else
        bind_outcome (index body 0) (\<lambda>ack_flags.
        if ack_flags AND 0xFE \<noteq> 0 then Err MalformedPacket
        else
          let session_present = (ack_flags AND 0x01 \<noteq> 0) in
          bind_outcome (index body 1) (\<lambda>code.
          if \<not> (0x00 \<le> code \<and> code \<le> 0x05) then Err MalformedPacket
          else if code \<noteq> 0x00 \<and> session_present then Err MalformedPacket
          else Ok \<lparr>connack_session_present = session_present, connack_code = code\<rparr>)))"

definition decode_publish :: "u8 \<Rightarrow> bytes \<Rightarrow> (mqtt_error, packet) outcome" where
  "decode_publish flags body =
     (let dup = (flags AND 8 \<noteq> 0);
          qos_bits = drop_bit 1 flags AND 3;
          retain = (flags AND 1 \<noteq> 0) in
      bind_outcome (qos_try_from qos_bits) (\<lambda>qos.
      on_cursor body (
        and_then read_mqtt_string (\<lambda>topic.
        and_then
          (if qos_bits > 0 then
             and_then read_u16 (\<lambda>id. if id = 0 then throw PacketIdZero else ret id)
           else ret 0) (\<lambda>pkid.
        and_then (get (\<lambda>cur. cur)) (\<lambda>payload.
        ret (P_Publish \<lparr>pub_dup = dup, pub_qos = qos, pub_retain = retain, pub_topic = topic,
                         pub_pkid = pkid, pub_payload = payload\<rparr>)))))))"

definition decode_puback_like :: "u8 \<Rightarrow> u8 \<Rightarrow> bytes \<Rightarrow> (mqtt_error, packet) outcome" where
  "decode_puback_like ptype flags body =
     (let required_flags = (if ptype = 6 then 2 else 0) in
      if flags \<noteq> required_flags then Err (InvalidFixedHeaderFlags ptype flags)
      else if length body \<noteq> 2 then Err MalformedPacket
      else on_cursor body (
        and_then read_u16 (\<lambda>pkid.
        if pkid = 0 then throw PacketIdZero
        else if ptype = 4 then ret (P_PubAck \<lparr>puback_pkid = pkid\<rparr>)
        else if ptype = 5 then ret (P_PubRec \<lparr>pubrec_pkid = pkid\<rparr>)
        else if ptype = 6 then ret (P_PubRel \<lparr>pubrel_pkid = pkid\<rparr>)
        else if ptype = 7 then ret (P_PubComp \<lparr>pubcomp_pkid = pkid\<rparr>)
        else throw (InvalidPacketType ptype))))"

text \<open>The body of the loop of \<open>decode_subscribe\<close>, and the two \<open>while !curr.is_empty()\<close> loops.\<close>

definition read_filter :: "(bytes, mqtt_error, topic_filter) op" where
  "read_filter =
     and_then read_mqtt_string (\<lambda>topic.
     and_then read_u8 (\<lambda>q.
     and_then (lift (qos_try_from q)) (\<lambda>qos.
     ret \<lparr>filter_path = topic, filter_qos = qos\<rparr>)))"

definition write_filter :: "bytes \<Rightarrow> topic_filter \<Rightarrow> bytes" where
  "write_filter out f = write_mqtt_string out (filter_path f) @ [qos_to_u8 (filter_qos f)]"

interpretation filter_item: item_codec read_filter write_filter
  "\<lambda>f. length (filter_path f) < 2 ^ 16 \<and> utf8_valid (filter_path f)"
proof (unfold_locales, goal_cases)
  case (1 out x)
  then show ?case
    using string_item.wr_append [of out "filter_path x"] by (simp add: write_filter_def)
next
  case (3 x rest)
  then show ?case
    using string_item.rd_wr [of "filter_path x" "qos_to_u8 (filter_qos x) # rest"]
    by (simp add: read_filter_def write_filter_def read_u8_eq op_defs)
next
  case (4 s x s')
  then obtain t q where t: "read_mqtt_string s = (Ok (filter_path x), t)"
    and q: "read_u8 t = (Ok q, s')" and x: "qos_try_from q = Ok (filter_qos x)"
    by (auto simp: read_filter_def op_Ok_iffs)
  from u8_item.wr_rd [OF q] x have "t = qos_to_u8 (filter_qos x) # s'"
    by (simp add: qos_try_from_Ok_iff)
  then show ?case using string_item.wr_rd [OF t] by (simp add: write_filter_def)
next
  case (5 s)
  show ?case
    by (cases "read_mqtt_string s"; cases "fst (read_mqtt_string s)")
      (auto simp: read_filter_def op_defs read_u8_eq split: list.split outcome.split
        dest: arg_cong [of _ _ fst])
qed (simp add: write_filter_def)

function read_filters :: "topic_filter list \<Rightarrow> (bytes, mqtt_error, topic_filter list) op" where
  "read_filters filters cur =
     (if cur = [] then (Ok filters, cur)
      else case read_filter cur of
          (Ok f, cur') \<Rightarrow> read_filters (filters @ [f]) cur'
        | (Err e, cur') \<Rightarrow> (Err e, cur')
        | (Panic, cur') \<Rightarrow> (Panic, cur'))"
  by pat_completeness auto
termination
  by (relation "measure (\<lambda>(filters, cur). length cur)")
    (auto dest: filter_item.rd_shrinks [OF sym])

function read_topics :: "rstring list \<Rightarrow> (bytes, mqtt_error, rstring list) op" where
  "read_topics filters cur =
     (if cur = [] then (Ok filters, cur)
      else case read_mqtt_string cur of
          (Ok f, cur') \<Rightarrow> read_topics (filters @ [f]) cur'
        | (Err e, cur') \<Rightarrow> (Err e, cur')
        | (Panic, cur') \<Rightarrow> (Panic, cur'))"
  by pat_completeness auto
termination
  by (relation "measure (\<lambda>(filters, cur). length cur)")
    (auto dest: string_item.rd_shrinks [OF sym])

declare read_filters.simps [simp del] read_topics.simps [simp del]

definition decode_subscribe :: "u8 \<Rightarrow> bytes \<Rightarrow> (mqtt_error, packet) outcome" where
  "decode_subscribe f body =
     (if f \<noteq> 0x02 then Err (InvalidFixedHeaderFlags 8 f)
      else on_cursor body (
        and_then read_u16 (\<lambda>pkid.
        if pkid = 0 then throw PacketIdZero
        else and_then (read_filters []) (\<lambda>filters.
        if filters = [] then throw MalformedPacket
        else ret (P_Subscribe \<lparr>sub_pkid = pkid, sub_filters = filters\<rparr>)))))"

definition decode_unsubscribe :: "u8 \<Rightarrow> bytes \<Rightarrow> (mqtt_error, packet) outcome" where
  "decode_unsubscribe f body =
     (if f \<noteq> 0x02 then Err (InvalidFixedHeaderFlags 10 f)
      else on_cursor body (
        and_then read_u16 (\<lambda>pkid.
        if pkid = 0 then throw PacketIdZero
        else and_then (read_topics []) (\<lambda>filters.
        if filters = [] then throw MalformedPacket
        else ret (P_UnSubscribe \<lparr>unsub_pkid = pkid, unsub_filters = filters\<rparr>)))))"

definition decode_suback :: "u8 \<Rightarrow> bytes \<Rightarrow> (mqtt_error, packet) outcome" where
  "decode_suback f body =
     (if f \<noteq> 0 then Err (InvalidFixedHeaderFlags 9 f)
      else on_cursor body (
        and_then read_u16 (\<lambda>pkid.
        if pkid = 0 then throw PacketIdZero
        else and_then (get (\<lambda>cur. cur)) (\<lambda>return_codes.
        if return_codes = [] then throw MalformedPacket
        else if \<not> list_all valid_suback_code return_codes then throw MalformedPacket
        else ret (P_SubAck \<lparr>suback_pkid = pkid, suback_return_codes = return_codes\<rparr>)))))"

definition decode_unsuback :: "u8 \<Rightarrow> bytes \<Rightarrow> (mqtt_error, packet) outcome" where
  "decode_unsuback f body =
     (if f \<noteq> 0 then Err (InvalidFixedHeaderFlags 11 f)
      else if length body \<noteq> 2 then Err MalformedPacket
      else on_cursor body (
        and_then read_u16 (\<lambda>pkid.
        if pkid = 0 then throw PacketIdZero
        else ret (P_UnsubAck \<lparr>unsuback_pkid = pkid\<rparr>))))"

definition decode_ping :: "u8 \<Rightarrow> u8 \<Rightarrow> bytes \<Rightarrow> (mqtt_error, packet) outcome" where
  "decode_ping ptype flags body =
     (if flags \<noteq> 0 then Err (InvalidFixedHeaderFlags ptype flags)
      else if body \<noteq> [] then Err MalformedPacket
      else if ptype = 12 then Ok P_PingReq
      else if ptype = 13 then Ok P_PingResp
      else Err (InvalidPacketType ptype))"

definition decode_disconnect :: "u8 \<Rightarrow> bytes \<Rightarrow> (mqtt_error, packet) outcome" where
  "decode_disconnect f body =
     (if f \<noteq> 0 then Err (InvalidFixedHeaderFlags 14 f)
      else if body \<noteq> [] then Err MalformedPacket
      else Ok P_Disconnect)"

text \<open>The dispatch of \<open>decode_packet\<close> on the packet type, once flags and body are known.\<close>

fun decode_body :: "packet_type \<Rightarrow> u8 \<Rightarrow> bytes \<Rightarrow> (mqtt_error, packet) outcome" where
  "decode_body T_Connect flag body =
     (if flag \<noteq> 0 then Err (InvalidFixedHeaderFlags (packet_type_to_u8 T_Connect) flag)
      else bind_outcome (decode_connect body) (\<lambda>c. Ok (P_Connect c)))"
| "decode_body T_ConnAck flag body =
     (if flag \<noteq> 0 then Err (InvalidFixedHeaderFlags (packet_type_to_u8 T_ConnAck) flag)
      else bind_outcome (decode_connack body) (\<lambda>c. Ok (P_ConnAck c)))"
| "decode_body T_Publish flag body = decode_publish flag body"
| "decode_body T_PubAck flag body = decode_puback_like 4 flag body"
| "decode_body T_PubRec flag body = decode_puback_like 5 flag body"
| "decode_body T_PubRel flag body = decode_puback_like 6 flag body"
| "decode_body T_PubComp flag body = decode_puback_like 7 flag body"
| "decode_body T_Subscribe flag body = decode_subscribe flag body"
| "decode_body T_SubAck flag body = decode_suback flag body"
| "decode_body T_Unsubscribe flag body = decode_unsubscribe flag body"
| "decode_body T_UnsubAck flag body = decode_unsuback flag body"
| "decode_body T_PingReq flag body = decode_ping 12 flag body"
| "decode_body T_PingResp flag body = decode_ping 13 flag body"
| "decode_body T_Disconnect flag body = decode_disconnect flag body"

definition decode_packet :: "bytes \<Rightarrow> (mqtt_error, packet) outcome" where
  "decode_packet input =
     bind_outcome (parse_fixed_header input) (\<lambda>fh.
     if length input < frame_len fh then
       bind_outcome (checked_sub (frame_len fh) (length input)) (\<lambda>n. Err (InsufficientBytes n))
     else
       bind_outcome (slice input (fh_header_len fh) (frame_len fh)) (\<lambda>body.
       let flag = fh_flags fh in
       bind_outcome (packet_type_try_from (fh_packet_type fh)) (\<lambda>ptype.
       decode_body ptype flag body)))"

end
