(* ===== verification/Codec_Loops.thy ===== *)
theory Codec_Loops
  imports Packet_Codec
begin

text \<open>
  The reading loops of \<open>decode_subscribe\<close> and \<open>decode_unsubscribe\<close> (src/codec/packet.rs), proved
  once for any loop that reads items of an \<open>item_codec\<close> until the cursor is empty.
\<close>

locale item_loop = item_codec rd wr fits
  for rd :: "(bytes, mqtt_error, 'a) op" and wr :: "bytes \<Rightarrow> 'a \<Rightarrow> bytes" and fits :: "'a \<Rightarrow> bool" +
  fixes loop :: "'a list \<Rightarrow> (bytes, mqtt_error, 'a list) op"
  assumes loop_Nil: "loop acc [] = (Ok acc, [])"
    and loop_Ok: "cur \<noteq> [] \<Longrightarrow> rd cur = (Ok x, cur') \<Longrightarrow> loop acc cur = loop (acc @ [x]) cur'"
    and loop_Err: "cur \<noteq> [] \<Longrightarrow> rd cur = (Err e, cur') \<Longrightarrow> loop acc cur = (Err e, cur')"
begin

lemma fold_wr: "fold (\<lambda>x out. wr out x) xs out = out @ concat (map (wr []) xs)"
proof (induction xs arbitrary: out)
  case (Cons x xs)
  then show ?case using wr_append [of out x] by simp
qed simp

lemma loop_concat:
  "list_all fits xs \<Longrightarrow> loop acc (concat (map (wr []) xs)) = (Ok (acc @ xs), [])"
proof (induction xs arbitrary: acc)
  case (Cons x xs)
  then have "rd (wr [] x @ concat (map (wr []) xs)) = (Ok x, concat (map (wr []) xs))"
    by (simp add: rd_wr)
  then have "loop acc (wr [] x @ concat (map (wr []) xs))
      = loop (acc @ [x]) (concat (map (wr []) xs))"
    using wr_nonempty [of x] by (intro loop_Ok) simp_all
  with Cons show ?case by simp
qed (simp add: loop_Nil)

lemma loop_OkD:
  "loop acc cur = (Ok ys, cur') \<Longrightarrow>
   \<exists>xs. ys = acc @ xs \<and> cur = concat (map (wr []) xs) \<and> list_all fits xs \<and> cur' = []"
proof (induction "length cur" arbitrary: acc cur rule: less_induct)
  case less
  show ?case
  proof (cases "cur = []")
    case True
    with less.prems show ?thesis by (simp add: loop_Nil)
  next
    case False
    from rd_result [of cur] obtain x c e where "rd cur = (Ok x, c) \<or> rd cur = (Err e, c)"
      by blast
    then have rd: "rd cur = (Ok x, c)"
      using less.prems loop_Err [OF False] by force
    with less.prems have "loop (acc @ [x]) c = (Ok ys, cur')"
      using loop_Ok [OF False] by simp
    with less.hyps [OF rd_shrinks [OF rd]] obtain xs where
      "ys = (acc @ [x]) @ xs" "c = concat (map (wr []) xs)" "list_all fits xs" "cur' = []"
      by blast
    with wr_rd [OF rd] show ?thesis by (intro exI [of _ "x # xs"]) simp
  qed
qed

lemma loop_no_panic: "fst (loop acc cur) \<noteq> Panic"
proof (induction "length cur" arbitrary: acc cur rule: less_induct)
  case less
  show ?case
  proof (cases "cur = []")
    case True
    then show ?thesis by (simp add: loop_Nil)
  next
    case False
    from rd_result [of cur] show ?thesis
      using less.hyps rd_shrinks loop_Ok [OF False] loop_Err [OF False] by fastforce
  qed
qed

end

interpretation filters_loop: item_loop read_filter write_filter
  "\<lambda>f. length (filter_path f) < 2 ^ 16 \<and> utf8_valid (filter_path f)" read_filters
  by unfold_locales (subst read_filters.simps; simp)+

interpretation topics_loop: item_loop read_mqtt_string write_mqtt_string
  "\<lambda>s. length s < 2 ^ 16 \<and> utf8_valid s" read_topics
  by unfold_locales (subst read_topics.simps; simp)+

text \<open>The writing loop of \<open>encode_subscribe\<close> never fails: a \<open>Qos\<close> is at most 2.\<close>

lemma write_filters_eq:
  "write_filters fs body = (Ok (), fold (\<lambda>f out. write_filter out f) fs body)"
  by (induction fs arbitrary: body)
    (simp_all add: op_defs write_filter_def Let_def)

end
