(* ===== verification/Wire_Format.thy ===== *)
theory Wire_Format
  imports Codec_Loops
begin

text \<open>
  The abstract wire format of MQTT 3.1.1 packets: for each packet the low nibble of its control
  byte, its body, and the conditions under which it is a legal packet.  It is a plain description,
  without cursors, buffers and errors, on which the encoders and decoders do not rely; only its smallest
  parts are shared with the model of the code: the length-prefixed string and filter, the varint of the
  length and the table of SUBACK codes, each of which has its own properties.  The next theory shows
  that encoders and decoders implement it.
\<close>

section \<open>Reference format\<close>

definition connect_flags :: "connect \<Rightarrow> u8" where
  "connect_flags c =
     (if con_clean_session c then 0x02 else 0) OR
     (case con_will c of None \<Rightarrow> 0
      | Some w \<Rightarrow> 0x04 OR push_bit 3 (qos_to_u8 (will_qos w)) OR (if will_retain w then 0x20 else 0)) OR
     (if con_password c \<noteq> None then 0x40 else 0) OR
     (if con_username c \<noteq> None then 0x80 else 0)"

definition publish_flags :: "publish \<Rightarrow> u8" where
  "publish_flags p =
     push_bit 3 (of_bool (pub_dup p)) OR push_bit 1 (qos_to_u8 (pub_qos p)) OR of_bool (pub_retain p)"

fun wire_flags :: "packet \<Rightarrow> u8" where
  "wire_flags (P_Publish p) = publish_flags p"
| "wire_flags (P_PubRel _) = 2"
| "wire_flags (P_Subscribe _) = 2"
| "wire_flags (P_UnSubscribe _) = 2"
| "wire_flags _ = 0"

definition wire_byte1 :: "packet \<Rightarrow> u8" where
  "wire_byte1 p = push_bit 4 (packet_type_to_u8 (packet_type_of p)) OR wire_flags p"

definition will_bytes :: "last_will option \<Rightarrow> bytes" where
  "will_bytes wo = (case wo of None \<Rightarrow> []
     | Some w \<Rightarrow> write_mqtt_string [] (will_topic w) @ write_mqtt_bytes [] (will_message w))"

definition opt_bytes :: "bytes option \<Rightarrow> bytes" where
  "opt_bytes bo = (case bo of None \<Rightarrow> [] | Some bs \<Rightarrow> write_mqtt_bytes [] bs)"

fun wire_body :: "packet \<Rightarrow> bytes" where
  "wire_body (P_Connect c) =
     write_mqtt_string [] (ascii ''MQTT'') @ [4, connect_flags c] @ to_be_bytes (con_keep_alive c) @
     write_mqtt_string [] (con_client_id c) @ will_bytes (con_will c) @
     opt_bytes (con_username c) @ opt_bytes (con_password c)"
| "wire_body (P_ConnAck p) = [of_bool (connack_session_present p), connack_code p]"
| "wire_body (P_Publish p) =
     write_mqtt_string [] (pub_topic p) @
     (if pub_qos p = AtMostOnce then [] else to_be_bytes (pub_pkid p)) @ pub_payload p"
| "wire_body (P_PubAck p) = to_be_bytes (puback_pkid p)"
| "wire_body (P_PubRec p) = to_be_bytes (pubrec_pkid p)"
| "wire_body (P_PubRel p) = to_be_bytes (pubrel_pkid p)"
| "wire_body (P_PubComp p) = to_be_bytes (pubcomp_pkid p)"
| "wire_body (P_Subscribe p) =
     to_be_bytes (sub_pkid p) @ concat (map (write_filter []) (sub_filters p))"
| "wire_body (P_SubAck p) = to_be_bytes (suback_pkid p) @ suback_return_codes p"
| "wire_body (P_UnSubscribe p) =
     to_be_bytes (unsub_pkid p) @ concat (map (write_mqtt_string []) (unsub_filters p))"
| "wire_body (P_UnsubAck p) = to_be_bytes (unsuback_pkid p)"
| "wire_body P_PingReq = []"
| "wire_body P_PingResp = []"
| "wire_body P_Disconnect = []"

text \<open>A frame: control byte, minimal varint of the body length, body.\<close>

definition wire_frame :: "packet \<Rightarrow> bytes" where
  "wire_frame p = wire_byte1 p # encode_remaining_loop (length (wire_body p)) [] @ wire_body p"

text \<open>The protocol rules on the fields.\<close>

fun legal_packet :: "packet \<Rightarrow> bool" where
  "legal_packet (P_Connect c) \<longleftrightarrow> (con_password c \<noteq> None \<longrightarrow> con_username c \<noteq> None)"
| "legal_packet (P_ConnAck p) \<longleftrightarrow>
     connack_code p \<le> 5 \<and> (connack_session_present p \<longrightarrow> connack_code p = 0)"
| "legal_packet (P_Publish p) \<longleftrightarrow> (pub_qos p = AtMostOnce \<longleftrightarrow> pub_pkid p = 0)"
| "legal_packet (P_PubAck p) \<longleftrightarrow> puback_pkid p \<noteq> 0"
| "legal_packet (P_PubRec p) \<longleftrightarrow> pubrec_pkid p \<noteq> 0"
| "legal_packet (P_PubRel p) \<longleftrightarrow> pubrel_pkid p \<noteq> 0"
| "legal_packet (P_PubComp p) \<longleftrightarrow> pubcomp_pkid p \<noteq> 0"
| "legal_packet (P_Subscribe p) \<longleftrightarrow> sub_pkid p \<noteq> 0 \<and> sub_filters p \<noteq> []"
| "legal_packet (P_SubAck p) \<longleftrightarrow>
     suback_pkid p \<noteq> 0 \<and> suback_return_codes p \<noteq> [] \<and>
     list_all valid_suback_code (suback_return_codes p)"
| "legal_packet (P_UnSubscribe p) \<longleftrightarrow> unsub_pkid p \<noteq> 0 \<and> unsub_filters p \<noteq> []"
| "legal_packet (P_UnsubAck p) \<longleftrightarrow> unsuback_pkid p \<noteq> 0"
| "legal_packet P_PingReq \<longleftrightarrow> True"
| "legal_packet P_PingResp \<longleftrightarrow> True"
| "legal_packet P_Disconnect \<longleftrightarrow> True"

text \<open>
  Length-prefixed fields fit their 16-bit length, and strings are strings: the second half holds of
  every Rust value by its type.
\<close>

definition fits_bytes :: "bytes \<Rightarrow> bool" where
  "fits_bytes bs \<longleftrightarrow> length bs < 2 ^ 16"

definition fits_string :: "rstring \<Rightarrow> bool" where
  "fits_string s \<longleftrightarrow> length s < 2 ^ 16 \<and> utf8_valid s"

fun fits_packet :: "packet \<Rightarrow> bool" where
  "fits_packet (P_Connect c) \<longleftrightarrow>
     fits_string (con_client_id c) \<and>
     pred_option (\<lambda>w. fits_string (will_topic w) \<and> fits_bytes (will_message w)) (con_will c) \<and>
     pred_option fits_string (con_username c) \<and> pred_option fits_bytes (con_password c)"
| "fits_packet (P_Publish p) \<longleftrightarrow> fits_string (pub_topic p)"
| "fits_packet (P_Subscribe p) \<longleftrightarrow> list_all (\<lambda>f. fits_string (filter_path f)) (sub_filters p)"
| "fits_packet (P_UnSubscribe p) \<longleftrightarrow> list_all fits_string (unsub_filters p)"
| "fits_packet _ \<longleftrightarrow> True"

section \<open>Bit facts\<close>

lemma nibbles:
  fixes a b :: u8
  assumes "a < 16" "b < 16"
  shows "drop_bit 4 (push_bit 4 a OR b) = a" "(push_bit 4 a OR b) AND 0x0F = b"
proof -
  have "\<forall>a<16. \<forall>b<16.
      drop_bit 4 (push_bit 4 (word_of_nat a) OR word_of_nat b :: u8) = word_of_nat a \<and>
      (push_bit 4 (word_of_nat a) OR word_of_nat b) AND (0x0F :: u8) = word_of_nat b"
    by code_simp
  moreover have "unat a < 16" "unat b < 16" using assms by (simp_all add: word_less_nat_alt)
  ultimately have
    "drop_bit 4 (push_bit 4 (word_of_nat (unat a)) OR word_of_nat (unat b) :: u8) = word_of_nat (unat a) \<and>
     (push_bit 4 (word_of_nat (unat a)) OR word_of_nat (unat b)) AND (0x0F :: u8) = word_of_nat (unat b)"
    by blast
  then show "drop_bit 4 (push_bit 4 a OR b) = a" "(push_bit 4 a OR b) AND 0x0F = b"
    by simp_all
qed

lemma packet_type_to_u8_less [simp]: "packet_type_to_u8 t < 16"
  by (cases t) simp_all

lemma publish_flags_less: "publish_flags p < 16"
  by (cases "pub_dup p"; cases "pub_qos p"; cases "pub_retain p") (simp_all add: publish_flags_def)

lemma wire_flags_less [simp]: "wire_flags p < 16"
  by (cases p) (simp_all add: publish_flags_less)

lemma wire_byte1_split:
  "drop_bit 4 (wire_byte1 p) = packet_type_to_u8 (packet_type_of p)"
  "wire_byte1 p AND 0x0F = wire_flags p"
  by (simp_all only: wire_byte1_def nibbles packet_type_to_u8_less wire_flags_less)

lemma publish_flags_decode:
  "publish_flags p AND 8 \<noteq> 0 \<longleftrightarrow> pub_dup p"
  "drop_bit 1 (publish_flags p) AND 3 = qos_to_u8 (pub_qos p)"
  "publish_flags p AND 1 \<noteq> 0 \<longleftrightarrow> pub_retain p"
  by (cases "pub_dup p"; cases "pub_qos p"; cases "pub_retain p"; simp add: publish_flags_def)+

lemma publish_flags_encode:
  assumes "f < 16" and "drop_bit 1 f AND 3 = qos_to_u8 q"
  shows "publish_flags \<lparr>pub_dup = (f AND 8 \<noteq> 0), pub_qos = q, pub_retain = (f AND 1 \<noteq> 0),
           pub_topic = t, pub_pkid = i, pub_payload = d\<rparr> = f"
proof -
  have "\<forall>f::u8. f < 16 \<longrightarrow>
     push_bit 3 (of_bool (f AND 8 \<noteq> 0)) OR push_bit 1 (drop_bit 1 f AND 3) OR of_bool (f AND 1 \<noteq> 0) = f"
    unfolding all_nibbles_iff by code_simp
  then have "push_bit 3 (of_bool (f AND 8 \<noteq> 0)) OR push_bit 1 (drop_bit 1 f AND 3)
      OR of_bool (f AND 1 \<noteq> 0) = f"
    using assms(1) by blast
  then show ?thesis unfolding assms(2) by (simp add: publish_flags_def)
qed

lemma connect_flags_decode:
  "connect_flags c AND 0x01 = 0"
  "connect_flags c AND 0x02 \<noteq> 0 \<longleftrightarrow> con_clean_session c"
  "connect_flags c AND 0x04 \<noteq> 0 \<longleftrightarrow> con_will c \<noteq> None"
  "drop_bit 3 (connect_flags c) AND 3 =
     (case con_will c of None \<Rightarrow> 0 | Some w \<Rightarrow> qos_to_u8 (will_qos w))"
  "connect_flags c AND 0x20 \<noteq> 0 \<longleftrightarrow> (case con_will c of None \<Rightarrow> False | Some w \<Rightarrow> will_retain w)"
  "connect_flags c AND 0x40 \<noteq> 0 \<longleftrightarrow> con_password c \<noteq> None"
  "connect_flags c AND 0x80 \<noteq> 0 \<longleftrightarrow> con_username c \<noteq> None"
proof -
  let ?P = "\<lambda>cs wo pw un.
     let f = (if cs then 0x02 else 0) OR
       (case wo of None \<Rightarrow> 0 | Some (q, r) \<Rightarrow> 0x04 OR push_bit 3 (qos_to_u8 q) OR (if r then 0x20 else 0)) OR
       (if pw then 0x40 else 0) OR (if un then 0x80 else (0::u8))
     in f AND 0x01 = 0 \<and> (f AND 0x02 \<noteq> 0 \<longleftrightarrow> cs) \<and> (f AND 0x04 \<noteq> 0 \<longleftrightarrow> wo \<noteq> None) \<and>
        drop_bit 3 f AND 3 = (case wo of None \<Rightarrow> 0 | Some (q, r) \<Rightarrow> qos_to_u8 q) \<and>
        (f AND 0x20 \<noteq> 0 \<longleftrightarrow> (case wo of None \<Rightarrow> False | Some (q, r) \<Rightarrow> r)) \<and>
        (f AND 0x40 \<noteq> 0 \<longleftrightarrow> pw) \<and> (f AND 0x80 \<noteq> 0 \<longleftrightarrow> un)"
  have "\<forall>cs wo pw un. ?P cs wo pw un" by code_simp
  then have "?P (con_clean_session c) (map_option (\<lambda>w. (will_qos w, will_retain w)) (con_will c))
    (con_password c \<noteq> None) (con_username c \<noteq> None)" by blast
  then show "connect_flags c AND 0x01 = 0"
    "connect_flags c AND 0x02 \<noteq> 0 \<longleftrightarrow> con_clean_session c"
    "connect_flags c AND 0x04 \<noteq> 0 \<longleftrightarrow> con_will c \<noteq> None"
    "drop_bit 3 (connect_flags c) AND 3 =
       (case con_will c of None \<Rightarrow> 0 | Some w \<Rightarrow> qos_to_u8 (will_qos w))"
    "connect_flags c AND 0x20 \<noteq> 0 \<longleftrightarrow> (case con_will c of None \<Rightarrow> False | Some w \<Rightarrow> will_retain w)"
    "connect_flags c AND 0x40 \<noteq> 0 \<longleftrightarrow> con_password c \<noteq> None"
    "connect_flags c AND 0x80 \<noteq> 0 \<longleftrightarrow> con_username c \<noteq> None"
    by (cases "con_will c"; simp add: connect_flags_def Let_def)+
qed

lemma connect_bits:
  "(if f AND 0x02 \<noteq> 0 then 0x02 else 0) OR
     ((if f AND 0x04 \<noteq> 0 then 0x04 else 0) OR push_bit 3 (drop_bit 3 f AND 3) OR (if f AND 0x20 \<noteq> 0 then 0x20 else 0)) OR
     (if f AND 0x40 \<noteq> 0 then 0x40 else 0) OR
     (if f AND 0x80 \<noteq> 0 then 0x80 else 0) OR (f AND 1) = (f :: u8)" (is "?l = f")
proof (rule bit_word_eqI)
  fix n
  assume "n < LENGTH(8)"
  then have "n \<in> {0,1,2,3,4,5,6,7}" by auto
  moreover have "(f AND 0x02 \<noteq> 0) = bit f 1" "(f AND 0x04 \<noteq> 0) = bit f 2" "(f AND 0x20 \<noteq> 0) = bit f 5" "(f AND 0x40 \<noteq> 0) = bit f 6" "(f AND 0x80 \<noteq> 0) = bit f 7"
    using and_exp_iff [of f 1] and_exp_iff [of f 2] and_exp_iff [of f 5] and_exp_iff [of f 6] and_exp_iff [of f 7]
    by simp_all
  ultimately show "bit ?l n = bit f n"
    by (elim insertE emptyE; simp only:) (simp_all add: bit_simps if_distrib [of "\<lambda>w. bit w _"] bit_0 even_or_iff even_and_iff)
qed

end
