(* ===== verification/Codec_Correct.thy ===== *)
theory Codec_Correct
  imports Wire_Format
begin

text \<open>
  The encoders and decoders of src/codec/packet.rs implement the wire format: an encoder writes
  exactly the frame of a legal packet and refuses every other one, a decoder accepts exactly the
  bodies of legal packets, and nothing panics.
\<close>

section \<open>Encoders\<close>

lemma emit_frame_eq:
  "emit_frame b body out =
     (if length body \<le> MAX_REMAINING_LEN
      then (Ok (), out @ b # encode_remaining_loop (length body) [] @ body)
      else (Err MalformedRemainingLength, out @ [b]))"
  by (simp add: emit_frame_def op_defs encode_remaining_length_def)

lemma encode_remaining_small [simp]:
  "encode_remaining_loop 0 [] = [0]"
  "encode_remaining_loop 2 [] = [2]"
  "encode_remaining_loop (Suc (Suc 0)) [] = [2]"
  by (subst encode_remaining_rec; simp)+

lemma small_le_MAX [simp]: "2 \<le> MAX_REMAINING_LEN" "Suc (Suc 0) \<le> MAX_REMAINING_LEN"
  by (simp_all add: MAX_REMAINING_LEN_def)

lemma construct_flags_eq:
  "construct_flags c =
     (if con_password c \<noteq> None \<and> con_username c = None then Err InvalidProtocol
      else Ok (connect_flags c))"
proof -
  let ?f = "\<lambda>cs wo pw un.
     bind_outcome
        (case wo of
           None \<Rightarrow> Ok (if cs then 0 OR push_bit 1 1 else 0)
         | Some (q, r) \<Rightarrow>
             (let f = (if cs then 0 OR push_bit 1 1 else 0) OR push_bit 2 1
              in if qos_to_u8 q > 2 then Err (InvalidQos (qos_to_u8 q))
                 else
                   (let f = f OR push_bit 3 (qos_to_u8 q AND 3)
                    in Ok (if r then f OR push_bit 5 1 else f))))
        (\<lambda>f. let f = (if un then f OR push_bit 7 1 else f);
                 f = (if pw then f OR push_bit 6 1 else f)
             in if pw \<and> \<not> un then Err InvalidProtocol
                else if f AND 0x01 \<noteq> 0 then Panic else Ok f)"
  let ?g = "\<lambda>cs wo pw un. if pw \<and> \<not> un then Err InvalidProtocol
     else Ok ((if cs then 0x02 else 0) OR
       (case wo of None \<Rightarrow> 0 | Some (q, r) \<Rightarrow> 0x04 OR push_bit 3 (qos_to_u8 q) OR (if r then 0x20 else 0)) OR
       (if pw then 0x40 else 0) OR (if un then 0x80 else (0::u8)))"
  have "\<forall>cs wo pw un. ?f cs wo pw un = ?g cs wo pw un" by code_simp
  then have "?f (con_clean_session c) (map_option (\<lambda>w. (will_qos w, will_retain w)) (con_will c))
       (con_password c \<noteq> None) (con_username c \<noteq> None) =
     ?g (con_clean_session c) (map_option (\<lambda>w. (will_qos w, will_retain w)) (con_will c))
       (con_password c \<noteq> None) (con_username c \<noteq> None)" by blast
  then show ?thesis
    by (cases "con_will c") (simp_all add: construct_flags_def connect_flags_def Let_def)
qed

lemma encode_connect_eq:
  assumes "con_password c \<noteq> None \<longrightarrow> con_username c \<noteq> None"
  shows "encode_connect c out = emit_frame 0x10 (wire_body (P_Connect c)) out"
proof -
  have w: "write_mqtt_bytes out s = out @ write_mqtt_bytes [] s" for out s
    by (rule bytes_item.wr_append)
  have n: "write_mqtt_string out s = write_mqtt_bytes out s" for out s
    by (simp add: write_mqtt_string_def)
  show ?thesis
    using assms
    by (cases "con_will c"; cases "con_username c"; cases "con_password c")
      (simp_all add: encode_connect_def construct_flags_eq op_defs Let_def n will_bytes_def
        opt_bytes_def write_u16_def w [of "_ @ _"] w [of "_ # _"])
qed

lemma fold_write_string:
  "fold (\<lambda>topic body. write_mqtt_string body topic) ts out =
     out @ concat (map (write_mqtt_string []) ts)"
  by (rule topics_loop.fold_wr)

lemma encode_subscribe_eq:
  "sub_pkid p \<noteq> 0 \<Longrightarrow> sub_filters p \<noteq> [] \<Longrightarrow>
   encode_subscribe p out = emit_frame 0x82 (wire_body (P_Subscribe p)) out"
  by (simp add: encode_subscribe_def op_defs write_filters_eq filters_loop.fold_wr write_u16_def)

lemmas encode_defs =
  encode_connack_def encode_publish_def encode_pkid_only_def encode_suback_def
  encode_unsubscribe_def encode_unsuback_def encode_ping_def encode_disconnect_def

text \<open>A legal packet is framed; only an oversized body is refused, after the control byte.\<close>

lemma encode_packet_legal:
  assumes "legal_packet p"
  shows "encode_packet p out =
    (if length (wire_body p) \<le> MAX_REMAINING_LEN then (Ok (), out @ wire_frame p)
     else (Err MalformedRemainingLength, out @ [wire_byte1 p]))"
proof (cases p)
  case (P_Connect c)
  then show ?thesis
    using assms by (simp add: encode_connect_eq emit_frame_eq wire_frame_def wire_byte1_def
        del: wire_body.simps)
next
  case (P_Publish q)
  then have "encode_packet p out = emit_frame (wire_byte1 p) (wire_body p) out"
    using assms
    by (cases "pub_qos q")
      (simp_all add: encode_publish_def Let_def write_u16_def publish_flags_def wire_byte1_def)
  then show ?thesis by (simp add: emit_frame_eq wire_frame_def)
next
  case (P_Subscribe q)
  then show ?thesis
    using assms by (simp add: encode_subscribe_eq emit_frame_eq wire_frame_def wire_byte1_def
        del: wire_body.simps)
next
  case (P_SubAck q)
  then show ?thesis
    using assms by (simp add: encode_suback_def emit_frame_eq wire_frame_def wire_byte1_def
        write_u16_def)
next
  case (P_UnSubscribe q)
  then show ?thesis
    using assms by (simp add: encode_unsubscribe_def emit_frame_eq wire_frame_def wire_byte1_def
        write_u16_def fold_write_string)
qed (use assms in \<open>auto simp: encode_defs op_defs wire_frame_def wire_byte1_def write_u16_def
        to_be_bytes_def\<close>)

text \<open>An illegal packet is refused before anything is written.\<close>

lemma encode_packet_illegal:
  assumes "\<not> legal_packet p"
  shows "\<exists>e. encode_packet p out = (Err e, out) \<and> e \<noteq> MalformedRemainingLength"
  using assms
  by (cases p) (auto simp: encode_defs encode_subscribe_def encode_connect_def construct_flags_eq
      op_defs Let_def)

lemma encode_packet_Ok_iff:
  "encode_packet p out = (Ok (), out') \<longleftrightarrow>
     legal_packet p \<and> length (wire_body p) \<le> MAX_REMAINING_LEN \<and> out' = out @ wire_frame p"
  using encode_packet_legal [of p out] encode_packet_illegal [of p out]
  by (cases "legal_packet p") auto

section \<open>Decoders\<close>

text \<open>Reading a field that a writer wrote, in the middle and at the end of the cursor.\<close>

lemma read_written:
  "read_u8 (b # rest) = (Ok b, rest)"
  "read_u16 (to_be_bytes v @ rest) = (Ok v, rest)"
  "read_u16 (to_be_bytes v) = (Ok v, [])"
  "fits_bytes bs \<Longrightarrow> read_mqtt_bytes (write_mqtt_bytes [] bs @ rest) = (Ok bs, rest)"
  "fits_bytes bs \<Longrightarrow> read_mqtt_bytes (write_mqtt_bytes [] bs) = (Ok bs, [])"
  "fits_string s \<Longrightarrow> read_mqtt_string (write_mqtt_bytes [] s @ rest) = (Ok s, rest)"
  "fits_string s \<Longrightarrow> read_mqtt_string (write_mqtt_bytes [] s) = (Ok s, [])"
  using u16_item.rd_wr [of v rest] u16_item.rd_wr_only [of v]
    bytes_item.rd_wr [of bs rest] bytes_item.rd_wr_only [of bs]
    string_item.rd_wr [of s rest] string_item.rd_wr_only [of s]
  by (simp_all add: read_u8_eq write_u16_def write_mqtt_string_def fits_bytes_def fits_string_def)

lemma fits_MQTT: "fits_string (ascii ''MQTT'')"
  by (simp add: fits_string_def ascii_def)

lemma decode_connect_wire:
  assumes "legal_packet (P_Connect c)" and "fits_packet (P_Connect c)"
  shows "decode_connect (wire_body (P_Connect c)) = Ok c"
  using assms
  by (cases "con_will c"; cases "con_username c"; cases "con_password c")
    (simp_all add: decode_connect_def op_defs write_mqtt_string_def read_written fits_MQTT
      connect_flags_decode will_bytes_def opt_bytes_def Let_def)

lemma decode_publish_wire:
  assumes "legal_packet (P_Publish p)" and "fits_packet (P_Publish p)"
  shows "decode_publish (publish_flags p) (wire_body (P_Publish p)) = Ok (P_Publish p)"
  using assms
  by (cases "pub_qos p = AtMostOnce")
    (simp_all add: decode_publish_def op_defs write_mqtt_string_def read_written
      publish_flags_decode [unfolded One_nat_def] Let_def)

lemma connack_flag_byte:
  "of_bool b AND (0xFE :: u8) = 0" "(of_bool b AND (1 :: u8) \<noteq> 0) = b"
  by (cases b; simp)+

lemma decode_body_wire:
  assumes "legal_packet p" and "fits_packet p"
  shows "decode_body (packet_type_of p) (wire_flags p) (wire_body p) = Ok p"
proof (cases p)
  case (P_Connect c)
  then show ?thesis
    using assms decode_connect_wire [of c] by (simp del: wire_body.simps legal_packet.simps
        fits_packet.simps)
next
  case (P_Publish q)
  then show ?thesis
    using assms decode_publish_wire [of q] by (simp del: wire_body.simps legal_packet.simps
        fits_packet.simps)
next
  case (P_Subscribe q)
  then show ?thesis
    using assms filters_loop.loop_concat [of "sub_filters q" "[]"]
    by (simp add: decode_subscribe_def op_defs read_written fits_string_def)
next
  case (P_UnSubscribe q)
  then show ?thesis
    using assms topics_loop.loop_concat [of "unsub_filters q" "[]"]
    by (simp add: decode_unsubscribe_def op_defs read_written fits_string_def [abs_def])
qed (use assms in \<open>auto simp: decode_connack_def connack_flag_byte decode_puback_like_def
        decode_suback_def decode_unsuback_def decode_ping_def decode_disconnect_def op_defs
        read_written checked_defs Let_def\<close>)

section \<open>Inversion of the decoders\<close>

lemma read_string_OkD:
  "read_mqtt_string s = (Ok x, s') \<Longrightarrow> s = write_mqtt_bytes [] x @ s' \<and> fits_string x"
  using string_item.wr_rd [of s x s'] by (simp add: write_mqtt_string_def fits_string_def)

lemma read_bytes_OkD:
  "read_mqtt_bytes s = (Ok x, s') \<Longrightarrow> s = write_mqtt_bytes [] x @ s' \<and> fits_bytes x"
  using bytes_item.wr_rd [of s x s'] by (simp add: fits_bytes_def)

lemma read_u8_OkD: "read_u8 s = (Ok b, s') \<Longrightarrow> s = b # s'"
  using u8_item.wr_rd [of s b s'] by simp

lemma read_u16_OkD: "read_u16 s = (Ok v, s') \<Longrightarrow> s = to_be_bytes v @ s'"
  using u16_item.wr_rd [of s v s'] by (simp add: write_u16_def)

lemmas read_OkDs = read_string_OkD read_bytes_OkD read_u8_OkD read_u16_OkD

lemma read_will_OkD:
  assumes "(if wl then
          and_then read_mqtt_string (\<lambda>topic.
          and_then read_mqtt_bytes (\<lambda>message.
          and_then (lift (qos_try_from q)) (\<lambda>qos.
          ret (Some \<lparr>will_topic = topic, will_message = message, will_qos = qos,
                     will_retain = r\<rparr>))))
        else ret None) s = (Ok w, s')"
  shows "s = will_bytes w @ s'"
    and "pred_option (\<lambda>w. fits_string (will_topic w) \<and> fits_bytes (will_message w)) w"
    and "wl \<longleftrightarrow> w \<noteq> None"
    and "w = Some v \<Longrightarrow> q = qos_to_u8 (will_qos v) \<and> r = will_retain v"
  using assms
  by (auto simp: op_Ok_iffs will_bytes_def write_mqtt_string_def qos_try_from_Ok_iff
      dest!: read_OkDs split: if_splits)

lemma read_opt_string_OkD:
  assumes "(if c then and_then read_mqtt_string (\<lambda>u. ret (Some u)) else ret None) s = (Ok x, s')"
  shows "s = opt_bytes x @ s' \<and> pred_option fits_string x \<and> (c \<longleftrightarrow> x \<noteq> None)"
  using assms by (auto simp: op_Ok_iffs opt_bytes_def dest!: read_OkDs split: if_splits)

lemma read_opt_bytes_OkD:
  assumes "(if c then and_then read_mqtt_bytes (\<lambda>u. ret (Some u)) else ret None) s = (Ok x, s')"
  shows "s = opt_bytes x @ s' \<and> pred_option fits_bytes x \<and> (c \<longleftrightarrow> x \<noteq> None)"
  using assms by (auto simp: op_Ok_iffs opt_bytes_def dest!: read_OkDs split: if_splits)

lemma connect_flags_of_bits:
  assumes "f AND 0x01 = 0"
    and "con_clean_session c = (f AND 0x02 \<noteq> 0)"
    and "(f AND 0x04 \<noteq> 0) \<longleftrightarrow> con_will c \<noteq> None"
    and "con_will c = None \<Longrightarrow> drop_bit 3 f AND 3 = 0 \<and> f AND 0x20 = 0"
    and "\<And>v. con_will c = Some v \<Longrightarrow>
           drop_bit 3 f AND 3 = qos_to_u8 (will_qos v) \<and> (f AND 0x20 \<noteq> 0) = will_retain v"
    and "(f AND 0x40 \<noteq> 0) \<longleftrightarrow> con_password c \<noteq> None"
    and "(f AND 0x80 \<noteq> 0) \<longleftrightarrow> con_username c \<noteq> None"
  shows "connect_flags c = f"
proof -
  note bits = connect_bits [of f, unfolded assms(1)]
  show ?thesis
  proof (cases "con_will c")
    case None
    then have "drop_bit 3 f AND 3 = 0 \<and> f AND 0x20 = 0" "f AND 0x04 = 0"
      using assms(3,4) by simp_all
    with bits None assms(2,6,7) show ?thesis by (simp add: connect_flags_def)
  next
    case (Some v)
    then have "drop_bit 3 f AND 3 = qos_to_u8 (will_qos v)" "(f AND 0x20 \<noteq> 0) = will_retain v"
      "f AND 0x04 \<noteq> 0"
      using assms(3,5) by simp_all
    with bits Some assms(2,6,7) show ?thesis by (simp add: connect_flags_def)
  qed
qed

lemma decode_connect_OkD:
  assumes "decode_connect body = Ok c"
  shows "body = wire_body (P_Connect c) \<and> legal_packet (P_Connect c) \<and> fits_packet (P_Connect c)"
proof -
  from assms obtain f s1 s2 s3 s4 s5 s6 s7 where
    reads: "read_mqtt_string body = (Ok (ascii ''MQTT''), s1)" "read_u8 s1 = (Ok 4, s2)"
      "read_u8 s2 = (Ok f, s3)" "read_u16 s3 = (Ok (con_keep_alive c), s4)"
      "read_mqtt_string s4 = (Ok (con_client_id c), s5)" and
    will: "(if f AND 0x04 \<noteq> 0 then
          and_then read_mqtt_string (\<lambda>topic.
          and_then read_mqtt_bytes (\<lambda>message.
          and_then (lift (qos_try_from (drop_bit 3 f AND 3))) (\<lambda>qos.
          ret (Some \<lparr>will_topic = topic, will_message = message, will_qos = qos,
                     will_retain = f AND 0x20 \<noteq> 0\<rparr>))))
        else ret None) s5 = (Ok (con_will c), s6)" and
    user: "(if f AND 0x80 \<noteq> 0 then and_then read_mqtt_string (\<lambda>u. ret (Some u)) else ret None) s6
        = (Ok (con_username c), s7)" and
    pass: "(if f AND 0x40 \<noteq> 0 then and_then read_mqtt_bytes (\<lambda>u. ret (Some u)) else ret None) s7
        = (Ok (con_password c), [])" and
    flags: "f AND 0x01 = 0" "con_clean_session c = (f AND 0x02 \<noteq> 0)"
      "f AND 0x04 = 0 \<longrightarrow> drop_bit 3 f AND 3 = 0 \<and> f AND 0x20 = 0"
      "f AND 0x40 \<noteq> 0 \<longrightarrow> f AND 0x80 \<noteq> 0"
    unfolding decode_connect_def on_cursor_Ok_iff Let_def
    by (simp only: op_Ok_iffs not_not de_Morgan_disj) auto
  note w = read_will_OkD [OF will] and u = read_opt_string_OkD [OF user]
    and p = read_opt_bytes_OkD [OF pass]
  have "connect_flags c = f"
    using flags w(3,4) u p by (intro connect_flags_of_bits) auto
  moreover have "body = write_mqtt_bytes [] (ascii ''MQTT'') @ 4 # f # to_be_bytes (con_keep_alive c) @
      write_mqtt_bytes [] (con_client_id c) @ s5" "fits_string (con_client_id c)"
    using read_string_OkD [OF reads(1)] read_u8_OkD [OF reads(2)] read_u8_OkD [OF reads(3)]
      read_u16_OkD [OF reads(4)] read_string_OkD [OF reads(5)] by simp_all
  ultimately show ?thesis
    using w u p flags(4) by (auto simp: write_mqtt_string_def)
qed

lemma decode_connack_OkD:
  assumes "decode_connack body = Ok c"
  shows "body = wire_body (P_ConnAck c) \<and> legal_packet (P_ConnAck c)"
proof -
  from assms have "length body = 2" by (simp add: decode_connack_def split: if_splits)
  then obtain a b where body: "body = [a, b]" by (auto simp: length_Suc_conv numeral_2_eq_2)
  have "(a AND 0xFE) OR (a AND 1) = a AND (0xFE OR 1)" by (simp only: bit.conj_disj_distrib)
  also have "0xFE OR 1 = (- 1 :: u8)" by simp
  also have "a AND - 1 = a" by (rule bit.conj_one_right)
  finally have "a AND 0xFE = 0 \<Longrightarrow> of_bool (a AND 1 \<noteq> 0) = a"
    by (auto simp: and_one_eq mod2_eq_if split: if_splits)
  with assms show ?thesis
    by (auto simp: decode_connack_def body checked_defs Let_def split: if_splits)
qed

lemma decode_publish_OkD:
  assumes "decode_publish f body = Ok p" and "f < 16"
  shows "packet_type_of p = T_Publish \<and> body = wire_body p \<and> legal_packet p \<and> fits_packet p
    \<and> wire_flags p = f"
proof -
  from assms(1) obtain q s1 t i where q: "qos_try_from (drop_bit 1 f AND 3) = Ok q"
    and t: "read_mqtt_string body = (Ok t, s1)"
    and i: "\<exists>s2. (if drop_bit 1 f AND 3 > 0 then
             and_then read_u16 (\<lambda>id. if id = 0 then throw PacketIdZero else ret id)
           else ret 0) s1 = (Ok i, s2) \<and>
         p = P_Publish \<lparr>pub_dup = (f AND 8 \<noteq> 0), pub_qos = q, pub_retain = (f AND 1 \<noteq> 0),
           pub_topic = t, pub_pkid = i, pub_payload = s2\<rparr>"
    unfolding decode_publish_def Let_def bind_outcome_Ok_iff on_cursor_Ok_iff
    by (simp only: op_Ok_iffs) blast
  from q have qb: "drop_bit 1 f AND 3 = qos_to_u8 q" by (simp add: qos_try_from_Ok_iff)
  note fl = publish_flags_encode [OF assms(2) qb]
  show ?thesis
  proof (cases "q = AtMostOnce")
    case True
    from i read_string_OkD [OF t] show ?thesis
      unfolding qb by (auto simp: True fl [unfolded True] op_Ok_iffs write_mqtt_string_def)
  next
    case False
    from i read_string_OkD [OF t] False show ?thesis
      unfolding qb by (auto simp: fl op_Ok_iffs write_mqtt_string_def dest!: read_u16_OkD)
  qed
qed

lemma two_bytes_read: "length body = 2 \<Longrightarrow> read_u16 body = (Ok v, s') \<Longrightarrow> body = to_be_bytes v"
  by (drule read_u16_OkD) simp

lemma decode_puback_like_OkD:
  assumes "decode_puback_like ptype f body = Ok p" and "ptype = packet_type_to_u8 t"
  shows "packet_type_of p = t \<and> t \<in> {T_PubAck, T_PubRec, T_PubRel, T_PubComp} \<and>
    body = wire_body p \<and> legal_packet p \<and> fits_packet p \<and> wire_flags p = f"
  using assms
  by (cases t)
    (auto simp: decode_puback_like_def op_Ok_iffs on_cursor_Ok_iff Let_def split: if_splits
      dest!: two_bytes_read)

lemma decode_subscribe_OkD:
  assumes "decode_subscribe f body = Ok p"
  shows "packet_type_of p = T_Subscribe \<and> body = wire_body p \<and> legal_packet p \<and> fits_packet p
    \<and> wire_flags p = f"
  using assms
  by (auto simp: decode_subscribe_def op_Ok_iffs on_cursor_Ok_iff fits_string_def split: if_splits
      dest!: read_u16_OkD filters_loop.loop_OkD)

lemma decode_unsubscribe_OkD:
  assumes "decode_unsubscribe f body = Ok p"
  shows "packet_type_of p = T_Unsubscribe \<and> body = wire_body p \<and> legal_packet p \<and> fits_packet p
    \<and> wire_flags p = f"
  using assms
  by (auto simp: decode_unsubscribe_def op_Ok_iffs on_cursor_Ok_iff fits_string_def [abs_def]
      split: if_splits dest!: read_u16_OkD topics_loop.loop_OkD)

lemma decode_suback_OkD:
  assumes "decode_suback f body = Ok p"
  shows "packet_type_of p = T_SubAck \<and> body = wire_body p \<and> legal_packet p \<and> fits_packet p
    \<and> wire_flags p = f"
  using assms
  by (auto simp: decode_suback_def op_Ok_iffs on_cursor_Ok_iff split: if_splits
      dest!: read_u16_OkD)

lemma decode_unsuback_OkD:
  assumes "decode_unsuback f body = Ok p"
  shows "packet_type_of p = T_UnsubAck \<and> body = wire_body p \<and> legal_packet p \<and> fits_packet p
    \<and> wire_flags p = f"
  using assms
  by (auto simp: decode_unsuback_def op_Ok_iffs on_cursor_Ok_iff split: if_splits
      dest!: two_bytes_read)

lemma decode_body_OkD:
  assumes "decode_body t f body = Ok p" and "f < 16"
  shows "packet_type_of p = t \<and> body = wire_body p \<and> legal_packet p \<and> fits_packet p
    \<and> wire_flags p = f"
proof (cases t)
  case T_Connect
  with assms show ?thesis
    by (auto simp: bind_outcome_Ok_iff split: if_splits simp del: wire_body.simps
        legal_packet.simps fits_packet.simps dest!: decode_connect_OkD)
next
  case T_ConnAck
  with assms show ?thesis
    by (auto simp: bind_outcome_Ok_iff split: if_splits dest!: decode_connack_OkD)
next
  case T_Publish
  with assms show ?thesis using decode_publish_OkD [of f body p] by simp
next
  case T_PubAck
  with assms have "decode_puback_like 4 f body = Ok p" by simp
  from decode_puback_like_OkD [OF this, of T_PubAck] T_PubAck show ?thesis by simp
next
  case T_PubRec
  with assms have "decode_puback_like 5 f body = Ok p" by simp
  from decode_puback_like_OkD [OF this, of T_PubRec] T_PubRec show ?thesis by simp
next
  case T_PubRel
  with assms have "decode_puback_like 6 f body = Ok p" by simp
  from decode_puback_like_OkD [OF this, of T_PubRel] T_PubRel show ?thesis by simp
next
  case T_PubComp
  with assms have "decode_puback_like 7 f body = Ok p" by simp
  from decode_puback_like_OkD [OF this, of T_PubComp] T_PubComp show ?thesis by simp
next
  case T_Subscribe
  with assms show ?thesis using decode_subscribe_OkD [of f body p] by simp
next
  case T_SubAck
  with assms show ?thesis using decode_suback_OkD [of f body p] by simp
next
  case T_Unsubscribe
  with assms show ?thesis using decode_unsubscribe_OkD [of f body p] by simp
next
  case T_UnsubAck
  with assms show ?thesis using decode_unsuback_OkD [of f body p] by simp
qed (use assms in \<open>auto simp: decode_ping_def decode_disconnect_def split: if_splits\<close>)

section \<open>Panic freedom\<close>

lemma and_then_Panic_iff:
  "fst (and_then m f s) = Panic \<longleftrightarrow>
     fst (m s) = Panic \<or> (\<exists>x s'. m s = (Ok x, s') \<and> fst (f x s') = Panic)"
  by (cases "m s"; cases "fst (m s)") (auto simp: and_then_def)

lemma no_Panic_simps:
  "fst (ret x s) \<noteq> Panic" "fst (throw e s) \<noteq> Panic" "fst (get g s) \<noteq> Panic"
  "fst (lift r s) = Panic \<longleftrightarrow> r = Panic"
  by (simp_all add: op_defs)

lemmas op_Panic = and_then_Panic_iff no_Panic_simps on_cursor_def

lemma read_loops_not_Panic [simp]:
  "fst (read_filters acc s) \<noteq> Panic" "fst (read_topics acc' s) \<noteq> Panic"
  by (rule filters_loop.loop_no_panic, rule topics_loop.loop_no_panic)

lemma if_op_apply: "(if c then m else m') s = (if c then m s else m' s)"
  by simp

lemma decode_connect_not_Panic: "decode_connect body \<noteq> Panic"
  unfolding decode_connect_def Let_def
  by (auto simp: op_Panic split: if_splits)

lemma decode_connack_not_Panic: "decode_connack body \<noteq> Panic"
  by (auto simp: decode_connack_def bind_outcome_Panic_iff checked_defs Let_def)

lemma decode_publish_not_Panic: "decode_publish f body \<noteq> Panic"
  unfolding decode_publish_def Let_def
  by (auto simp: op_Panic bind_outcome_Panic_iff split: if_splits)

lemma decode_rest_not_Panic:
  "decode_puback_like t f body \<noteq> Panic" "decode_subscribe f body \<noteq> Panic"
  "decode_unsubscribe f body \<noteq> Panic" "decode_suback f body \<noteq> Panic"
  "decode_unsuback f body \<noteq> Panic" "decode_ping t f body \<noteq> Panic"
  "decode_disconnect f body \<noteq> Panic"
  by (auto simp: decode_puback_like_def decode_subscribe_def decode_unsubscribe_def
      decode_suback_def decode_unsuback_def decode_ping_def decode_disconnect_def
      op_Panic Let_def split: if_splits)

lemma decode_body_not_Panic: "decode_body t f body \<noteq> Panic"
  by (cases t) (simp_all add: decode_connect_not_Panic decode_connack_not_Panic
      decode_publish_not_Panic decode_rest_not_Panic bind_outcome_Panic_iff)

section \<open>Whole frames\<close>

lemma decode_packet_eq:
  "decode_packet input =
     bind_outcome (parse_fixed_header input) (\<lambda>fh.
     if length input < frame_len fh then Err (InsufficientBytes (frame_len fh - length input))
     else
       bind_outcome (packet_type_try_from (fh_packet_type fh)) (\<lambda>t.
       decode_body t (fh_flags fh) (take (fh_remaining_len fh) (drop (fh_header_len fh) input))))"
  by (cases "parse_fixed_header input")
    (simp_all add: decode_packet_def checked_defs frame_len_def Let_def)

lemma decode_packet_not_Panic: "decode_packet input \<noteq> Panic"
  by (simp add: decode_packet_eq bind_outcome_Panic_iff decode_body_not_Panic)

lemma decode_framed:
  assumes "legal_packet p" and "fits_packet p"
    and "varint_form rl" and "length rl \<le> 4" and "varint_value rl = length (wire_body p)"
  shows "decode_packet (wire_byte1 p # rl @ wire_body p @ rest) = Ok p"
  using decode_body_wire [OF assms(1,2)]
  by (simp add: decode_packet_eq parse_fixed_header_varint [OF assms(3,4)] assms(5) frame_len_def
      fh_packet_type_def fh_flags_def wire_byte1_split)

lemma decode_wire_frame:
  assumes "legal_packet p" and "fits_packet p" and "length (wire_body p) \<le> MAX_REMAINING_LEN"
  shows "decode_packet (wire_frame p @ rest) = Ok p"
  using decode_framed [OF assms(1,2) encode_varint_form encode_varint_length_4 encode_varint_value]
    assms(3) by (simp add: wire_frame_def)

text \<open>
  A frame that decodes is the wire frame of the packet, except that its length varint may be longer
  than needed.
\<close>

lemma decode_packet_OkD:
  assumes "decode_packet input = Ok p"
  shows "\<exists>rl rest. input = wire_byte1 p # rl @ wire_body p @ rest \<and> varint_form rl \<and> length rl \<le> 4
    \<and> varint_value rl = length (wire_body p) \<and> legal_packet p \<and> fits_packet p"
proof -
  from assms obtain fh where fh: "parse_fixed_header input = Ok fh"
    by (auto simp: decode_packet_eq bind_outcome_Ok_iff)
  then obtain b rl tail where input: "input = b # rl @ tail" and rl: "varint_form rl" "length rl \<le> 4"
    and fh_eq: "fh = \<lparr>fh_byte1 = b, fh_remaining_len = varint_value rl, fh_header_len = Suc (length rl)\<rparr>"
    by (cases input rule: parse_fixed_header_cases) auto
  let ?body = "take (varint_value rl) tail"
  from assms obtain t where len: "varint_value rl \<le> length tail"
    and t: "packet_type_try_from (drop_bit 4 b) = Ok t"
    and body: "decode_body t (b AND 0x0F) ?body = Ok p"
    by (auto simp: decode_packet_eq fh [unfolded input fh_eq] bind_outcome_Ok_iff input frame_len_def
        fh_packet_type_def fh_flags_def split: if_splits)
  from decode_body_OkD [OF body nibble_less(2)] have p: "packet_type_of p = t" "?body = wire_body p"
    "legal_packet p" "fits_packet p" "wire_flags p = b AND 0x0F" by auto
  have "wire_byte1 p = b"
    unfolding wire_byte1_def p(1,5) packet_type_try_from_Ok [OF t, symmetric]
    by (rule nibble_split)
  moreover have "tail = wire_body p @ drop (varint_value rl) tail"
    using p(2) by (metis append_take_drop_id)
  moreover have "varint_value rl = length (wire_body p)"
    using p(2) len by (metis length_take min.absorb2)
  ultimately show ?thesis
    using input rl p by (intro exI [of _ rl] exI [of _ "drop (varint_value rl) tail"]) simp
qed

end
