(* ===== verification/Codec_Properties.thy ===== *)
theory Codec_Properties
  imports Codec_Correct
begin

text \<open>
  The properties of the codec (src/codec) as a reader of the repository would state them: round
  trips in both directions, the exact accepted language, the exact refusals, behaviour on truncated
  input, and freedom from panics.  Each one with a hypothesis is followed by a concrete instance.
\<close>

text \<open>Equations that evaluate the codec on concrete bytes.\<close>

lemmas codec_eval =
  decode_remaining_length_def decode_remaining_loop.simps encode_remaining_length_def
  encode_remaining_loop.simps MAX_REMAINING_LEN_def parse_fixed_header_Cons checked_defs
  decode_packet_eq frame_len_def fh_packet_type_def fh_flags_def packet_type_try_from_def
  read_u16_eq from_be_bytes_def to_be_bytes_def write_u16_def write_mqtt_bytes_def
  write_mqtt_string_def decode_puback_like_def encode_pkid_only_def encode_publish_def
  emit_frame_def ascii_def op_defs

section \<open>Remaining length\<close>

text \<open>
  Every length up to the maximum is encoded in one to four bytes, and decoding
  those bytes, whatever follows them, gives back the length and the number of bytes used.
\<close>
theorem remaining_length_roundtrip:
  assumes "len \<le> MAX_REMAINING_LEN"
  shows "\<exists>rl. encode_remaining_length len = Ok rl \<and> 1 \<le> length rl \<and> length rl \<le> 4 \<and>
     decode_remaining_length (rl @ rest) = Ok (len, length rl)"
proof -
  let ?rl = "encode_remaining_loop len []"
  have "length ?rl \<le> 4" using assms by (rule encode_varint_length_4)
  moreover have "1 \<le> length ?rl" using encode_varint_nonempty [of len] by (simp add: Suc_le_eq)
  moreover have "decode_remaining_length (?rl @ rest) = Ok (len, length ?rl)"
    using decode_remaining_length_varint [OF encode_varint_form] calculation(1)
    by (simp add: encode_varint_value)
  ultimately show ?thesis using assms by (simp add: encode_remaining_length_def)
qed

theorem remaining_length_roundtrip_witness:
  "\<exists>rl. encode_remaining_length 321 = Ok rl \<and> 1 \<le> length rl \<and> length rl \<le> 4 \<and>
     decode_remaining_length (rl @ [7]) = Ok (321, length rl)"
  by (rule remaining_length_roundtrip) (simp add: MAX_REMAINING_LEN_def)

lemma varint_value_bound_4: "length bs \<le> 4 \<Longrightarrow> varint_value bs \<le> MAX_REMAINING_LEN"
proof -
  assume "length bs \<le> 4"
  then have "(128::nat) ^ length bs \<le> 128 ^ 4" by (intro power_increasing) simp_all
  with varint_value_less [of bs] show ?thesis by (simp add: MAX_REMAINING_LEN_def)
qed

lemma encode_length_minimal:
  "varint_form bs \<Longrightarrow> length (encode_remaining_loop (varint_value bs) []) \<le> length bs"
proof -
  assume "varint_form bs"
  then obtain k where "length bs = Suc k" by (cases bs) auto
  with varint_value_less [of bs] show ?thesis by (metis encode_varint_length)
qed

text \<open>
  A decoded remaining length is at most 268,435,455, so the overflow test of the
  decoder never fires; it uses one to four of the input's bytes, and the encoder's form of the same
  length is never longer.
\<close>
theorem decode_remaining_length_bounds:
  assumes "decode_remaining_length input = Ok (len, k)"
  shows "len \<le> MAX_REMAINING_LEN \<and> 1 \<le> k \<and> k \<le> 4 \<and> k \<le> length input \<and>
    (\<exists>rl. encode_remaining_length len = Ok rl \<and> length rl \<le> k)"
proof (cases input rule: decode_remaining_length_cases)
  case (varint bs rest)
  with assms have eq: "len = varint_value bs" "k = length bs" by simp_all
  have "bs \<noteq> []" using varint(2) by auto
  with varint eq show ?thesis
    using varint_value_bound_4 [of bs] encode_length_minimal [of bs]
    by (simp add: encode_remaining_length_def Suc_le_eq)
qed (use assms in simp_all)

theorem decode_remaining_length_bounds_witness:
  "(321::nat) \<le> MAX_REMAINING_LEN \<and> 1 \<le> (2::nat) \<and> 2 \<le> (4::nat) \<and> 2 \<le> length [193, 2, 9 :: u8] \<and>
    (\<exists>rl. encode_remaining_length 321 = Ok rl \<and> length rl \<le> 2)"
proof -
  have "decode_remaining_length [193, 2, 9] = Ok (321, 2)" by (simp add: codec_eval)
  then show ?thesis by (rule decode_remaining_length_bounds)
qed

section \<open>Encoders\<close>

text \<open>The error an illegal packet is refused with.\<close>

fun refusal :: "packet \<Rightarrow> mqtt_error" where
  "refusal (P_Connect _) = InvalidProtocol"
| "refusal (P_ConnAck p) =
     (if connack_code p > 5 then InvalidConnAckCode (connack_code p) else MalformedPacket)"
| "refusal (P_Publish p) = (if pub_qos p = AtMostOnce then MalformedPacket else PacketIdZero)"
| "refusal (P_Subscribe p) = (if sub_pkid p = 0 then PacketIdZero else MalformedPacket)"
| "refusal (P_SubAck p) = (if suback_pkid p = 0 then PacketIdZero else MalformedPacket)"
| "refusal (P_UnSubscribe p) = (if unsub_pkid p = 0 then PacketIdZero else MalformedPacket)"
| "refusal _ = PacketIdZero"

lemma encode_packet_refused:
  "\<not> legal_packet p \<Longrightarrow> encode_packet p out = (Err (refusal p), out)"
  by (cases p) (auto simp: encode_defs encode_subscribe_def encode_connect_def construct_flags_eq
      op_defs Let_def)

text \<open>
  Claim C26 (refinement). Encoding is decided by the wire format: an illegal packet is refused with
  its error and nothing is written; a legal packet appends exactly its frame; a body over the
  maximal remaining length is refused after the control byte has been written.
\<close>
theorem encode_packet_refines:
  "encode_packet p out =
     (if legal_packet p then
        (if length (wire_body p) \<le> MAX_REMAINING_LEN then (Ok (), out @ wire_frame p)
         else (Err MalformedRemainingLength, out @ [wire_byte1 p]))
      else (Err (refusal p), out))"
  using encode_packet_legal [of p out] encode_packet_refused [of p out] by simp

section \<open>Round trips\<close>

text \<open>
  Claim C11 (roundtrip). Whatever the encoder writes for a packet whose length-prefixed fields fit
  16 bits, the decoder reads back as that packet, whatever bytes follow the frame.
\<close>
theorem packet_roundtrip:
  assumes "encode_packet p [] = (Ok (), out)" and "fits_packet p"
  shows "decode_packet (out @ rest) = Ok p"
  using assms decode_wire_frame [of p rest] by (simp add: encode_packet_Ok_iff)

theorem packet_roundtrip_witness:
  "let p = P_Publish \<lparr>pub_dup = False, pub_qos = AtLeastOnce, pub_retain = False,
             pub_topic = ascii ''a/b'', pub_pkid = 7, pub_payload = [104, 105]\<rparr>
   in encode_packet p [] = (Ok (), [50, 9, 0, 3, 97, 47, 98, 0, 7, 104, 105]) \<and>
      decode_packet ([50, 9, 0, 3, 97, 47, 98, 0, 7, 104, 105] @ [192, 0]) = Ok p"
proof -
  let ?p = "P_Publish \<lparr>pub_dup = False, pub_qos = AtLeastOnce, pub_retain = False,
             pub_topic = ascii ''a/b'', pub_pkid = 7, pub_payload = [104, 105]\<rparr>"
  have e: "encode_packet ?p [] = (Ok (), [50, 9, 0, 3, 97, 47, 98, 0, 7, 104, 105])"
    by (simp add: codec_eval)
  moreover have "fits_packet ?p" by (simp add: fits_string_def ascii_def)
  ultimately show ?thesis using packet_roundtrip [of ?p _ "[192, 0]"] by (simp only: Let_def)
qed

text \<open>
  Claim C6 (equivalence). The decoder accepts exactly the frames of legal packets: the control byte
  of the packet, a varint of at most four bytes with the length of the body, the body.
\<close>
theorem decode_packet_accepts_exactly:
  "decode_packet input = Ok p \<longleftrightarrow>
     legal_packet p \<and> fits_packet p \<and>
     (\<exists>rl rest. input = wire_byte1 p # rl @ wire_body p @ rest \<and> varint_form rl \<and>
        length rl \<le> 4 \<and> varint_value rl = length (wire_body p))"
  using decode_packet_OkD [of input p] decode_framed [of p] by blast

text \<open>
  Claim C27 (roundtrip). Decoding loses nothing: re-encoding a decoded packet gives back the frame,
  byte for byte, up to a length varint that was longer than needed.
\<close>
theorem decode_then_encode:
  assumes "decode_packet input = Ok p"
  shows "\<exists>b rl body rest. input = b # rl @ body @ rest \<and> varint_form rl \<and>
     varint_value rl = length body \<and>
     encode_packet p [] = (Ok (), b # encode_remaining_loop (length body) [] @ body)"
proof -
  from decode_packet_OkD [OF assms] obtain rl rest where
    d: "input = wire_byte1 p # rl @ wire_body p @ rest" "varint_form rl" "length rl \<le> 4"
      "varint_value rl = length (wire_body p)" "legal_packet p" by blast
  then have "length (wire_body p) \<le> MAX_REMAINING_LEN"
    using varint_value_bound_4 [of rl] by simp
  with d have "encode_packet p [] =
      (Ok (), wire_byte1 p # encode_remaining_loop (length (wire_body p)) [] @ wire_body p)"
    by (simp add: encode_packet_legal wire_frame_def)
  with d show ?thesis by blast
qed

theorem decode_then_encode_witness:
  "\<exists>b rl body rest. [64, 0x82, 0, 0, 9, 1 :: u8] = b # rl @ body @ rest \<and> varint_form rl \<and>
     varint_value rl = length body \<and>
     encode_packet (P_PubAck \<lparr>puback_pkid = 9\<rparr>) [] =
       (Ok (), b # encode_remaining_loop (length body) [] @ body)"
proof -
  have "decode_packet [64, 0x82, 0, 0, 9, 1] = Ok (P_PubAck \<lparr>puback_pkid = 9\<rparr>)" by (simp add: codec_eval)
  then show ?thesis by (rule decode_then_encode)
qed

section \<open>Arbitrary input\<close>

text \<open>
  Claim C25 (safety). No input makes the decoder panic and no packet makes the encoder panic: every
  index and slice of the codec is in range and every length subtraction is guarded.
\<close>
theorem codec_never_panics:
  "decode_packet input \<noteq> Panic \<and> fst (encode_packet p out) \<noteq> Panic"
  using decode_packet_not_Panic [of input] encode_packet_legal [of p out]
    encode_packet_refused [of p out] by (cases "legal_packet p") simp_all

text \<open>
  The decoder looks at its own frame only: bytes appended after a complete frame
  change neither the packet nor the error.
\<close>
theorem decode_packet_local:
  assumes "parse_fixed_header input = Ok fh" and "frame_len fh \<le> length input"
  shows "decode_packet (input @ ys) = decode_packet (take (frame_len fh) input)"
proof -
  have 1: "parse_fixed_header (input @ ys) = Ok fh"
    using assms(1) by (rule parse_fixed_header_Ok_append)
  from assms obtain b bs rest where input: "input = b # bs @ rest" and bs: "varint_form bs" "length bs \<le> 4"
    and fh: "fh = \<lparr>fh_byte1 = b, fh_remaining_len = varint_value bs, fh_header_len = Suc (length bs)\<rparr>"
    by (cases input rule: parse_fixed_header_cases) auto
  let ?v = "varint_value bs"
  from assms(2) have len: "?v \<le> length rest" by (simp add: input fh frame_len_def)
  have tk: "take (frame_len fh) input = b # bs @ take ?v rest"
    by (simp add: input fh frame_len_def)
  have 2: "parse_fixed_header (b # bs @ take ?v rest) = Ok fh"
    using parse_fixed_header_varint [OF bs] by (simp add: fh)
  show ?thesis
    unfolding tk using 1 2 len
    by (simp add: decode_packet_eq input) (simp add: fh frame_len_def min_def)
qed

theorem decode_packet_local_witness:
  "decode_packet ([64, 2, 0, 9] @ [1, 2, 3]) = decode_packet (take 4 [64, 2, 0, 9])"
proof -
  have "parse_fixed_header [64, 2, 0, 9] =
      Ok \<lparr>fh_byte1 = 64, fh_remaining_len = 2, fh_header_len = 2\<rparr>"
    by (simp add: codec_eval)
  from decode_packet_local [OF this, of "[1, 2, 3]"] show ?thesis by (simp add: frame_len_def)
qed

lemma cont_prefix:
  "varint_form bs \<Longrightarrow> n < length bs \<Longrightarrow> list_all (\<lambda>b. b AND 0x80 \<noteq> 0) (take n bs)"
proof (induction bs arbitrary: n)
  case (Cons b bs)
  then show ?case by (cases n) (auto split: if_splits)
qed simp

lemma parse_fixed_header_prefix:
  assumes "varint_form bs" and "length bs \<le> 4" and "n \<le> length bs"
  shows "parse_fixed_header (take n (b # bs @ rest)) = Err (InsufficientBytes 1)"
proof (cases n)
  case (Suc m)
  with assms have "list_all (\<lambda>b. b AND 0x80 \<noteq> 0) (take m bs)" "m < length bs"
    using cont_prefix by simp_all
  with Suc assms(2) show ?thesis
    using decode_remaining_length_cont [of "take m bs"]
    by (simp add: parse_fixed_header_Cons min_def)
qed simp

text \<open>
  Claim C28 (error). A frame cut short anywhere is reported as such: the decoder asks for at least one
  more byte and never for more than are missing.
\<close>
theorem decode_truncated:
  assumes "encode_packet p [] = (Ok (), out)" and "n < length out"
  shows "\<exists>k. decode_packet (take n out) = Err (InsufficientBytes k) \<and> 1 \<le> k \<and> k \<le> length out - n"
proof -
  let ?rl = "encode_remaining_loop (length (wire_body p)) []"
  from assms(1) have out: "out = wire_byte1 p # ?rl @ wire_body p"
    and len: "length ?rl \<le> 4"
    using encode_varint_length_4 by (simp_all add: encode_packet_Ok_iff wire_frame_def)
  show ?thesis
  proof (cases "n \<le> length ?rl")
    case True
    then have "parse_fixed_header (take n out) = Err (InsufficientBytes 1)"
      unfolding out using len by (intro parse_fixed_header_prefix encode_varint_form)
    then have "decode_packet (take n out) = Err (InsufficientBytes 1)" by (simp add: decode_packet_eq)
    then show ?thesis using assms(2) by auto
  next
    case False
    then obtain m where n: "n = Suc (length ?rl) + m" by (metis less_iff_Suc_add add_Suc not_le)
    then have tk: "take n out = wire_byte1 p # ?rl @ take m (wire_body p)" by (simp add: out)
    have "m < length (wire_body p)" using assms(2) by (simp add: n out)
    then have "decode_packet (take n out) = Err (InsufficientBytes (length (wire_body p) - m))"
      using parse_fixed_header_varint [OF encode_varint_form len]
      by (simp add: tk decode_packet_eq frame_len_def encode_varint_value)
    with \<open>m < length (wire_body p)\<close> show ?thesis by (auto simp: n out)
  qed
qed

theorem decode_truncated_witness:
  "\<exists>k. decode_packet (take 3 [64, 2, 0, 9]) = Err (InsufficientBytes k) \<and> 1 \<le> k \<and>
     k \<le> length [64, 2, 0, 9 :: u8] - 3"
proof -
  have "encode_packet (P_PubAck \<lparr>puback_pkid = 9\<rparr>) [] = (Ok (), [64, 2, 0, 9])"
    by (simp add: codec_eval)
  from decode_truncated [OF this, of 3] show ?thesis by simp
qed

section \<open>Fields over 65,535 bytes\<close>

text \<open>
  Claim C35 (error). The length prefix of a byte field is its length modulo 65,536, because
  \<open>bytes.len() as u16\<close> truncates.  Hence a QoS 0 publish whose topic has 65,536 + n bytes (n below
  65,536, the first n of them valid UTF-8) is encoded without an error, and what a receiver decodes
  from the frame is another publish: the topic cut to n bytes, the rest prepended to the payload.
\<close>
theorem oversized_topic_is_corrupted:
  assumes "length topic = 65536 + n" and "n < 65536" and "utf8_valid (take n topic)"
    and "2 + length topic + length payload \<le> MAX_REMAINING_LEN"
  shows "\<exists>out. encode_packet (P_Publish \<lparr>pub_dup = False, pub_qos = AtMostOnce, pub_retain = False,
             pub_topic = topic, pub_pkid = 0, pub_payload = payload\<rparr>) [] = (Ok (), out) \<and>
     decode_packet out = Ok (P_Publish \<lparr>pub_dup = False, pub_qos = AtMostOnce, pub_retain = False,
             pub_topic = take n topic, pub_pkid = 0, pub_payload = drop n topic @ payload\<rparr>)"
proof -
  let ?p = "\<lambda>t d. P_Publish \<lparr>pub_dup = False, pub_qos = AtMostOnce, pub_retain = False,
             pub_topic = t, pub_pkid = 0, pub_payload = d\<rparr>"
  have wrap: "65536 + x = x" for x :: u16 by simp
  have body: "wire_body (?p topic payload) = wire_body (?p (take n topic) (drop n topic @ payload))"
    using assms(1,2) by (simp add: write_mqtt_string_def write_mqtt_bytes_def min_def wrap)
  then have frame: "wire_frame (?p topic payload) = wire_frame (?p (take n topic) (drop n topic @ payload))"
    by (simp add: wire_frame_def wire_byte1_def publish_flags_def del: wire_body.simps)
  have l: "length (wire_body (?p t d)) = 2 + length t + length d" for t d
    by (simp add: write_mqtt_string_def write_mqtt_bytes_def write_u16_def)
  have "length (wire_body (?p topic payload)) \<le> MAX_REMAINING_LEN" 
    using assms(4) unfolding l by simp
  then have "encode_packet (?p topic payload) [] = (Ok (), wire_frame (?p topic payload))"
    by (simp add: encode_packet_Ok_iff del: wire_body.simps encode_packet.simps)
  moreover have "decode_packet (wire_frame (?p (take n topic) (drop n topic @ payload)) @ []) =
      Ok (?p (take n topic) (drop n topic @ payload))"
    using assms \<open>length (wire_body (?p topic payload)) \<le> MAX_REMAINING_LEN\<close> body
    by (intro decode_wire_frame) (simp_all add: fits_string_def min_def del: wire_body.simps)
  ultimately show ?thesis unfolding frame by simp
qed

theorem oversized_topic_is_corrupted_witness:
  "\<exists>out. encode_packet (P_Publish \<lparr>pub_dup = False, pub_qos = AtMostOnce, pub_retain = False,
             pub_topic = replicate 65536 97, pub_pkid = 0, pub_payload = [1]\<rparr>) [] = (Ok (), out) \<and>
     decode_packet out = Ok (P_Publish \<lparr>pub_dup = False, pub_qos = AtMostOnce, pub_retain = False,
             pub_topic = [], pub_pkid = 0, pub_payload = replicate 65536 97 @ [1]\<rparr>)"
proof -
  have "length (replicate 65536 (97 :: u8)) = 65536 + 0" by (simp only: length_replicate add_0_right)
  moreover have "2 + length (replicate 65536 (97 :: u8)) + length [1 :: u8] \<le> MAX_REMAINING_LEN"
    by (simp only: length_replicate) (simp add: MAX_REMAINING_LEN_def)
  ultimately show ?thesis
    using oversized_topic_is_corrupted [of "replicate 65536 97" 0 "[1]"]
    by (simp only: take_0 drop_0 utf8_valid.simps zero_less_numeral simp_thms)
qed

end
