(* ===== verification/Frame_Stream.thy ===== *)
theory Frame_Stream
  imports Codec_Properties
begin

text \<open>
  The frame parser of src/codec/stream.rs: it buffers the chunks a transport delivers and cuts
  complete frames off the front of the buffer.

  The locale \<open>chunk_parser\<close> is the contract the runtime relies on: a parser step that made
  progress makes the same progress when more bytes have already arrived.  From it follows, once and
  for all, that the chunks in which a stream arrives do not matter.
\<close>

section \<open>The parser\<close>

datatype frame_state = Need nat | Ready bytes

record frame_parser = fp_buf :: bytes

definition new_parser :: frame_parser where
  "new_parser = \<lparr>fp_buf = []\<rparr>"

definition push :: "bytes \<Rightarrow> (frame_parser, 'e, unit) op" where
  "push chunk = modify (\<lambda>self. self\<lparr>fp_buf := fp_buf self @ chunk\<rparr>)"

definition next_frame :: "(frame_parser, mqtt_error, frame_state) op" where
  "next_frame self =
     (case parse_fixed_header (fp_buf self) of
        Err (InsufficientBytes n) \<Rightarrow> (Ok (Need n), self)
      | Err e \<Rightarrow> (Err e, self)
      | Panic \<Rightarrow> (Panic, self)
      | Ok fh \<Rightarrow>
          if length (fp_buf self) < frame_len fh then
            and_then (lift (checked_sub (frame_len fh) (length (fp_buf self)))) (\<lambda>n. ret (Need n)) self
          else
            and_then (lift (slice (fp_buf self) 0 (frame_len fh))) (\<lambda>frame.
            and_then (modify (\<lambda>self. self\<lparr>fp_buf := drop (frame_len fh) (fp_buf self)\<rparr>)) (\<lambda>_.
            ret (Ready frame))) self)"

definition next_packet :: "(frame_parser, mqtt_error, packet option) op" where
  "next_packet =
     and_then next_frame (\<lambda>st. case st of
        Need _ \<Rightarrow> ret None
      | Ready frame \<Rightarrow> and_then (lift (decode_packet frame)) (\<lambda>p. ret (Some p)))"

lemma next_frame_eq:
  "next_frame self =
     (case parse_fixed_header (fp_buf self) of
        Ok fh \<Rightarrow>
          if length (fp_buf self) < frame_len fh
          then (Ok (Need (frame_len fh - length (fp_buf self))), self)
          else (Ok (Ready (take (frame_len fh) (fp_buf self))),
                self\<lparr>fp_buf := drop (frame_len fh) (fp_buf self)\<rparr>)
      | Err e \<Rightarrow> (if e = MalformedRemainingLength then Err e else Ok (Need 1), self)
      | Panic \<Rightarrow> (Panic, self))"
  using parse_fixed_header_Err [of "fp_buf self"]
  by (cases "parse_fixed_header (fp_buf self)")
    (auto simp: next_frame_def op_defs checked_defs)

lemma next_frame_Ready_iff:
  "next_frame self = (Ok (Ready frame), self') \<longleftrightarrow>
     (\<exists>fh. parse_fixed_header (fp_buf self) = Ok fh \<and> frame_len fh \<le> length (fp_buf self) \<and>
        frame = take (frame_len fh) (fp_buf self) \<and>
        self' = self\<lparr>fp_buf := drop (frame_len fh) (fp_buf self)\<rparr>)"
  by (auto simp: next_frame_eq split: outcome.splits if_splits)

lemma next_frame_keeps:
  "next_frame self = (r, self') \<Longrightarrow> \<forall>frame. r \<noteq> Ok (Ready frame) \<Longrightarrow> self' = self"
  by (auto simp: next_frame_eq split: outcome.splits if_splits)

lemma next_packet_eq:
  "next_packet self =
     (case next_frame self of
        (Ok (Need n), self') \<Rightarrow> (Ok None, self')
      | (Ok (Ready frame), self') \<Rightarrow> (bind_outcome (decode_packet frame) (\<lambda>p. Ok (Some p)), self')
      | (Err e, self') \<Rightarrow> (Err e, self')
      | (Panic, self') \<Rightarrow> (Panic, self'))"
  by (auto simp: next_packet_def op_defs bind_outcome_def split: prod.split outcome.split frame_state.split)

section \<open>Draining the parser\<close>

text \<open>
  A caller that keeps asking for packets while the buffer shrinks.  It sees the outcome of every
  complete frame, decode errors included.
\<close>

function drain :: "frame_parser \<Rightarrow> (mqtt_error, packet option) outcome list \<times> frame_parser" where
  "drain self =
     (case next_packet self of (r, self') \<Rightarrow>
        if length (fp_buf self') < length (fp_buf self)
        then (case drain self' of (rs, self'') \<Rightarrow> (r # rs, self''))
        else ([], self))"
  by pat_completeness auto
termination
  by (relation "measure (\<lambda>self. length (fp_buf self))") auto

declare drain.simps [simp del]

text \<open>Chunks pushed one after the other, each followed by a drain.\<close>

fun feed :: "bytes list \<Rightarrow> frame_parser \<Rightarrow> (mqtt_error, packet option) outcome list \<times> frame_parser" where
  "feed [] self = ([], self)"
| "feed (c # cs) self =
     (case drain (self\<lparr>fp_buf := fp_buf self @ c\<rparr>) of (rs, self') \<Rightarrow>
      case feed cs self' of (rs', self'') \<Rightarrow> (rs @ rs', self''))"

subsection \<open>The contract\<close>

locale chunk_parser =
  fixes step :: "bytes \<Rightarrow> ('r \<times> bytes) option"
    and run :: "bytes \<Rightarrow> 'r list \<times> bytes"
  assumes step_append: "step buf = Some (r, buf') \<Longrightarrow> step (buf @ ys) = Some (r, buf' @ ys)"
    and step_shrinks: "step buf = Some (r, buf') \<Longrightarrow> length buf' < length buf"
    and run_step: "step buf = Some (r, buf') \<Longrightarrow> run buf = (r # fst (run buf'), snd (run buf'))"
    and run_stuck: "step buf = None \<Longrightarrow> run buf = ([], buf)"
begin

lemma run_rest_stuck: "step (snd (run buf)) = None"
proof (induction "length buf" arbitrary: buf rule: less_induct)
  case less
  show ?case
  proof (cases "step buf")
    case None
    then show ?thesis by (simp add: run_stuck)
  next
    case (Some x)
    then obtain r buf' where s: "step buf = Some (r, buf')" by (cases x) simp
    from less [OF step_shrinks [OF s]] show ?thesis by (simp add: run_step [OF s])
  qed
qed

lemma run_append:
  "run (buf @ ys) = (fst (run buf) @ fst (run (snd (run buf) @ ys)), snd (run (snd (run buf) @ ys)))"
proof (induction "length buf" arbitrary: buf rule: less_induct)
  case less
  show ?case
  proof (cases "step buf")
    case None
    then show ?thesis by (simp add: run_stuck)
  next
    case (Some x)
    then obtain r buf' where s: "step buf = Some (r, buf')" by (cases x) simp
    from less [OF step_shrinks [OF s]] show ?thesis
      by (simp add: run_step [OF s] run_step [OF step_append [OF s]])
  qed
qed

lemma run_prefixes:
  assumes "list_all (\<lambda>(f, r). step f = Some (r, [])) fs"
  shows "run (concat (map fst fs)) = (map snd fs, [])"
  using assms
proof (induction fs)
  case Nil
  then show ?case using step_shrinks [of "[]"] by (cases "step []") (auto simp: run_stuck)
next
  case (Cons x fs)
  obtain f r where x: "x = (f, r)" by (cases x)
  with Cons have "step (f @ concat (map fst fs)) = Some (r, concat (map fst fs))"
    using step_append [of f r "[]"] by simp
  with Cons x show ?case by (simp add: run_step)
qed

end

definition parser_step :: "bytes \<Rightarrow> ((mqtt_error, packet option) outcome \<times> bytes) option" where
  "parser_step buf =
     (case next_packet \<lparr>fp_buf = buf\<rparr> of (r, self') \<Rightarrow>
        if length (fp_buf self') < length buf then Some (r, fp_buf self') else None)"

definition drain_bytes :: "bytes \<Rightarrow> (mqtt_error, packet option) outcome list \<times> bytes" where
  "drain_bytes buf = (case drain \<lparr>fp_buf = buf\<rparr> of (rs, self') \<Rightarrow> (rs, fp_buf self'))"

lemma parser_step_eq:
  "parser_step buf =
     (case parse_fixed_header buf of
        Ok fh \<Rightarrow>
          if length buf < frame_len fh then None
          else Some (bind_outcome (decode_packet (take (frame_len fh) buf)) (\<lambda>p. Ok (Some p)),
                     drop (frame_len fh) buf)
      | _ \<Rightarrow> None)"
  by (auto simp: parser_step_def next_packet_eq next_frame_eq split: outcome.split
      dest: parse_fixed_header_Ok_bounds(3))

lemma parser_unit: "\<lparr>fp_buf = fp_buf self\<rparr> = (self :: frame_parser)"
  by (cases self) simp

lemma drain_Some:
  assumes "parser_step (fp_buf self) = Some (r, buf')"
  shows "drain self = (r # fst (drain \<lparr>fp_buf = buf'\<rparr>), snd (drain \<lparr>fp_buf = buf'\<rparr>))"
proof -
  obtain self' where "next_packet self = (r, self')" "length (fp_buf self') < length (fp_buf self)"
    "buf' = fp_buf self'"
    using assms by (auto simp: parser_step_def parser_unit split: prod.splits if_splits)
  then show ?thesis
    by (subst drain.simps) (simp add: parser_unit split: prod.split)
qed

lemma drain_None: "parser_step (fp_buf self) = None \<Longrightarrow> drain self = ([], self)"
  by (subst drain.simps) (auto simp: parser_step_def parser_unit split: prod.splits if_splits)

interpretation frames: chunk_parser parser_step drain_bytes
proof (unfold_locales, goal_cases)
  case (1 buf r buf' ys)
  then obtain fh where fh: "parse_fixed_header buf = Ok fh" and len: "frame_len fh \<le> length buf"
    by (auto simp: parser_step_eq split: outcome.splits if_splits)
  from 1 fh len parse_fixed_header_Ok_append [OF fh, of ys] show ?case
    by (simp add: parser_step_eq)
next
  case (2 buf r buf')
  then show ?case by (auto simp: parser_step_def split: prod.splits if_splits)
next
  case (3 buf r buf')
  then show ?case
    using drain_Some [of "\<lparr>fp_buf = buf\<rparr>"] by (simp add: drain_bytes_def split: prod.split)
next
  case (4 buf)
  then show ?case using drain_None [of "\<lparr>fp_buf = buf\<rparr>"] by (simp add: drain_bytes_def)
qed

lemma drain_drain_bytes: "drain self = (fst (drain_bytes (fp_buf self)), \<lparr>fp_buf = snd (drain_bytes (fp_buf self))\<rparr>)"
  by (simp add: drain_bytes_def parser_unit split: prod.split)

lemma drain_push:
  "drain (self\<lparr>fp_buf := fp_buf self @ ys\<rparr>) =
     (fst (drain self) @ fst (drain ((snd (drain self))\<lparr>fp_buf := fp_buf (snd (drain self)) @ ys\<rparr>)),
      snd (drain ((snd (drain self))\<lparr>fp_buf := fp_buf (snd (drain self)) @ ys\<rparr>)))"
  using frames.run_append [of "fp_buf self" ys] by (simp add: drain_drain_bytes)

section \<open>Properties\<close>

lemma drain_concat:
  "drain (self\<lparr>fp_buf := fp_buf self @ concat chunks\<rparr>) =
     (fst (drain self) @ fst (feed chunks (snd (drain self))), snd (feed chunks (snd (drain self))))"
proof (induction chunks arbitrary: self)
  case Nil
  then show ?case by simp
next
  case (Cons c cs)
  let ?s = "self\<lparr>fp_buf := fp_buf self @ c\<rparr>"
  have "drain (self\<lparr>fp_buf := fp_buf self @ concat (c # cs)\<rparr>)
      = drain (?s\<lparr>fp_buf := fp_buf ?s @ concat cs\<rparr>)" by simp
  also have "\<dots> = (fst (drain ?s) @ fst (feed cs (snd (drain ?s))), snd (feed cs (snd (drain ?s))))"
    by (rule Cons.IH)
  finally show ?case using drain_push [of self c] by (simp split: prod.split)
qed

text \<open>
  Claim C23 (equivalence). Fragmentation does not matter: however a byte stream is cut into chunks,
  the packets and decode errors a caller sees and the bytes left in the buffer are those of the
  whole stream pushed at once.
\<close>
theorem fragmentation_independent:
  "drain (self\<lparr>fp_buf := fp_buf self @ concat chunks\<rparr>) =
     (fst (drain self) @ fst (feed chunks (snd (drain self))), snd (feed chunks (snd (drain self))))"
  by (rule drain_concat)

lemma parser_step_encoded:
  assumes "encode_packet p [] = (Ok (), out)" and "fits_packet p"
  shows "parser_step out = Some (Ok (Some p), [])"
proof -
  let ?rl = "encode_remaining_loop (length (wire_body p)) []"
  from assms(1) have out: "out = wire_byte1 p # ?rl @ wire_body p" and len: "length ?rl \<le> 4"
    and legal: "legal_packet p" "length (wire_body p) \<le> MAX_REMAINING_LEN"
    using encode_varint_length_4 by (simp_all add: encode_packet_Ok_iff wire_frame_def)
  have "parse_fixed_header out =
      Ok \<lparr>fh_byte1 = wire_byte1 p, fh_remaining_len = length (wire_body p), fh_header_len = Suc (length ?rl)\<rparr>"
    unfolding out using parse_fixed_header_varint [OF encode_varint_form len]
    by (simp add: encode_varint_value)
  moreover have "decode_packet out = Ok p"
    using decode_wire_frame [OF legal(1) assms(2) legal(2), of "[]"] by (simp add: out wire_frame_def)
  ultimately show ?thesis by (simp add: parser_step_eq frame_len_def out)
qed

text \<open>
  Claim C24 (roundtrip). A stream of encoded packets, cut into chunks anywhere, comes out as exactly
  those packets in their order, and the buffer ends empty.
\<close>
theorem packet_stream_roundtrip:
  assumes "list_all2 (\<lambda>p out. encode_packet p [] = (Ok (), out) \<and> fits_packet p) ps outs"
    and "concat chunks = concat outs"
  shows "feed chunks new_parser = (map (\<lambda>p. Ok (Some p)) ps, new_parser)"
proof -
  have "list_all (\<lambda>(f, r). parser_step f = Some (r, [])) (zip outs (map (\<lambda>p. Ok (Some p)) ps))"
    using assms(1) by (induction) (simp_all add: parser_step_encoded)
  moreover have "length ps = length outs" using assms(1) by (rule list_all2_lengthD)
  ultimately have "drain_bytes (concat outs) = (map (\<lambda>p. Ok (Some p)) ps, [])"
    using frames.run_prefixes [of "zip outs (map (\<lambda>p. Ok (Some p)) ps)"] by simp
  then have "drain (new_parser\<lparr>fp_buf := fp_buf new_parser @ concat chunks\<rparr>)
      = (map (\<lambda>p. Ok (Some p)) ps, new_parser)"
    by (simp add: drain_drain_bytes new_parser_def assms(2))
  moreover have "drain new_parser = ([], new_parser)"
    by (rule drain_None) (simp add: new_parser_def parser_step_eq)
  moreover have "drain (new_parser\<lparr>fp_buf := fp_buf new_parser @ concat chunks\<rparr>) =
      (fst (drain new_parser) @ fst (feed chunks (snd (drain new_parser))),
       snd (feed chunks (snd (drain new_parser))))"
    by (rule drain_concat)
  ultimately show ?thesis by (simp add: prod_eq_iff)
qed

theorem packet_stream_roundtrip_witness:
  "feed [[64], [2, 0, 9, 208], [], [0]] new_parser =
     (map (\<lambda>p. Ok (Some p)) [P_PubAck \<lparr>puback_pkid = 9\<rparr>, P_PingResp], new_parser)"
proof (rule packet_stream_roundtrip)
  show "list_all2 (\<lambda>p out. encode_packet p [] = (Ok (), out) \<and> fits_packet p)
      [P_PubAck \<lparr>puback_pkid = 9\<rparr>, P_PingResp] [[64, 2, 0, 9], [208, 0]]"
    by (simp add: codec_eval encode_ping_def)
qed simp

text \<open>
  When the parser asks for n more bytes it has consumed nothing, n is at
  least one, and no chunk of fewer than n bytes completes a frame.
\<close>
theorem need_is_honest:
  assumes "next_frame self = (Ok (Need n), self')" and "length chunk < n"
  shows "1 \<le> n \<and> self' = self \<and>
    (\<exists>k. next_frame (self\<lparr>fp_buf := fp_buf self @ chunk\<rparr>) =
           (Ok (Need k), self\<lparr>fp_buf := fp_buf self @ chunk\<rparr>) \<and> n \<le> k + length chunk)"
proof (cases "parse_fixed_header (fp_buf self)")
  case (Ok fh)
  with assms(1) have "n = frame_len fh - length (fp_buf self)" "self' = self"
    "length (fp_buf self) < frame_len fh"
    by (auto simp: next_frame_eq split: if_splits)
  with assms(2) parse_fixed_header_Ok_append [OF Ok, of chunk] show ?thesis
    by (auto simp: next_frame_eq)
next
  case (Err e)
  with assms have "n = 1" "self' = self" "chunk = []"
    by (auto simp: next_frame_eq split: if_splits)
  with assms(1) show ?thesis by simp
qed (use assms(1) in \<open>simp add: next_frame_eq\<close>)

theorem need_is_honest_witness:
  "1 \<le> (3::nat) \<and> \<lparr>fp_buf = [50, 4, 0 :: u8]\<rparr> = \<lparr>fp_buf = [50, 4, 0]\<rparr> \<and>
    (\<exists>k. next_frame (\<lparr>fp_buf = [50, 4, 0]\<rparr>\<lparr>fp_buf := fp_buf \<lparr>fp_buf = [50, 4, 0]\<rparr> @ [1, 97]\<rparr>) =
           (Ok (Need k), \<lparr>fp_buf = [50, 4, 0]\<rparr>\<lparr>fp_buf := fp_buf \<lparr>fp_buf = [50, 4, 0]\<rparr> @ [1, 97]\<rparr>) \<and>
         3 \<le> k + length [1, 97 :: u8])"
proof (rule need_is_honest)
  show "next_frame \<lparr>fp_buf = [50, 4, 0]\<rparr> = (Ok (Need 3), \<lparr>fp_buf = [50, 4, 0]\<rparr>)"
    by (simp add: next_frame_eq codec_eval)
qed simp

text \<open>
  A malformed length is permanent: the parser keeps the bad bytes in front, so
  after the error every later call fails in the same way, whatever arrives.  (A frame whose header
  is sound but whose body does not decode is, in contrast, consumed with its error.)
\<close>
theorem header_error_is_permanent:
  assumes "next_frame self = (Err e, self')"
  shows "e = MalformedRemainingLength \<and> self' = self \<and>
    next_packet (self\<lparr>fp_buf := fp_buf self @ chunk\<rparr>) =
      (Err MalformedRemainingLength, self\<lparr>fp_buf := fp_buf self @ chunk\<rparr>)"
proof -
  from assms have "e = MalformedRemainingLength" "self' = self"
    and bad: "parse_fixed_header (fp_buf self) = Err MalformedRemainingLength"
    by (auto simp: next_frame_eq split: outcome.splits if_splits)
  moreover have "parse_fixed_header (fp_buf self @ chunk) = Err MalformedRemainingLength"
    using bad by (rule parse_fixed_header_malformed_append)
  ultimately show ?thesis by (simp add: next_packet_eq next_frame_eq)
qed

theorem header_error_is_permanent_witness:
  "let bad = \<lparr>fp_buf = [48, 255, 255, 255, 255]\<rparr> in
   MalformedRemainingLength = MalformedRemainingLength \<and> bad = bad \<and>
   next_packet (bad\<lparr>fp_buf := fp_buf bad @ [208, 0]\<rparr>) =
      (Err MalformedRemainingLength, bad\<lparr>fp_buf := fp_buf bad @ [208, 0]\<rparr>)"
proof -
  have "next_frame \<lparr>fp_buf = [48, 255, 255, 255, 255]\<rparr> =
      (Err MalformedRemainingLength, \<lparr>fp_buf = [48, 255, 255, 255, 255]\<rparr>)"
    by (simp add: next_frame_eq codec_eval)
  then show ?thesis unfolding Let_def by (rule header_error_is_permanent)
qed

end
