(* ===== verification/Pkid_Pool.thy ===== *)
theory Pkid_Pool
  imports Prelude
begin

text \<open>
  The packet id generator of src/runtime/pkid.rs.  \<open>self.last_pkid + 1\<close> is an addition on u16: it
  is modelled with the overflow check of the dev profile, and \<open>next_candidate_release\<close> is the same
  method where the addition wraps, as in a release build.
\<close>

section \<open>The pool\<close>

record packet_id_pool =
  last_pkid :: u16
  pool_max_inflight :: u16

definition new_pool :: "u16 \<Rightarrow> ('e, packet_id_pool) outcome" where
  "new_pool max_inflight =
     (if max_inflight > 0 then Ok \<lparr>last_pkid = 0, pool_max_inflight = max_inflight\<rparr> else Panic)"

definition next_candidate :: "(packet_id_pool, 'e, u16) op" where
  "next_candidate =
     and_then (get last_pkid) (\<lambda>last.
     and_then (lift (add_u16 last 1)) (\<lambda>next.
     and_then (get pool_max_inflight) (\<lambda>max_inflight.
     let next = (if next = 0 \<or> next > max_inflight then 1 else next) in
     and_then (modify (\<lambda>self. self\<lparr>last_pkid := next\<rparr>)) (\<lambda>_.
     ret next))))"

definition next_candidate_release :: "(packet_id_pool, 'e, u16) op" where
  "next_candidate_release =
     and_then (get last_pkid) (\<lambda>last.
     let next = last + 1 in
     and_then (get pool_max_inflight) (\<lambda>max_inflight.
     let next = (if next = 0 \<or> next > max_inflight then 1 else next) in
     and_then (modify (\<lambda>self. self\<lparr>last_pkid := next\<rparr>)) (\<lambda>_.
     ret next)))"

definition reset_pool :: "(packet_id_pool, 'e, unit) op" where
  "reset_pool = modify (\<lambda>self. self\<lparr>last_pkid := 0\<rparr>)"

text \<open>The invariant: a non-empty range, and the last id given out inside it (0 for none yet).\<close>

definition pool_inv :: "packet_id_pool \<Rightarrow> bool" where
  "pool_inv p \<longleftrightarrow> 0 < pool_max_inflight p \<and> last_pkid p \<le> pool_max_inflight p"

section \<open>One call\<close>

definition next_id :: "packet_id_pool \<Rightarrow> u16" where
  "next_id p = (if last_pkid p < pool_max_inflight p then last_pkid p + 1 else 1)"

lemma next_candidate_eq:
  "next_candidate p =
     (if last_pkid p = 0xFFFF then (Panic, p)
      else (Ok (next_id p), p\<lparr>last_pkid := next_id p\<rparr>))"
proof (cases "last_pkid p = 0xFFFF")
  case True
  then show ?thesis by (simp add: next_candidate_def op_defs add_u16_1)
next
  case False
  note s = u16_Suc [OF False]
  have "pool_max_inflight p < last_pkid p + 1 \<longleftrightarrow> \<not> last_pkid p < pool_max_inflight p"
    using s by (simp add: word_less_nat_alt less_Suc_eq_le linorder_not_less)
  with False s show ?thesis
    by (simp add: next_candidate_def op_defs add_u16_1 next_id_def Let_def)
qed

lemma next_candidate_release_eq:
  assumes "pool_inv p"
  shows "next_candidate_release p = (Ok (next_id p), p\<lparr>last_pkid := next_id p\<rparr>)"
proof (cases "last_pkid p = 0xFFFF")
  case True
  then have "\<not> last_pkid p < pool_max_inflight p"
    using u16_less_not_FFFF [of "last_pkid p" "pool_max_inflight p"] by auto
  with True show ?thesis by (simp add: next_candidate_release_def op_defs next_id_def Let_def)
next
  case False
  note s = u16_Suc [OF False]
  have "pool_max_inflight p < last_pkid p + 1 \<longleftrightarrow> \<not> last_pkid p < pool_max_inflight p"
    using s by (simp add: word_less_nat_alt less_Suc_eq_le linorder_not_less)
  with False s show ?thesis
    by (simp add: next_candidate_release_def op_defs next_id_def Let_def)
qed

lemma unat_next_id:
  "unat (next_id p) = (if unat (last_pkid p) < unat (pool_max_inflight p) then Suc (unat (last_pkid p)) else 1)"
  using u16_Suc [OF u16_less_not_FFFF [of "last_pkid p" "pool_max_inflight p"]]
  by (auto simp: next_id_def word_less_nat_alt)

lemma next_id_range:
  assumes "pool_inv p"
  shows "1 \<le> next_id p" "next_id p \<le> pool_max_inflight p" "next_id p \<noteq> 0"
proof -
  have "1 \<le> unat (next_id p) \<and> unat (next_id p) \<le> unat (pool_max_inflight p)"
    using assms unat_next_id [of p] by (auto simp: pool_inv_def word_less_nat_alt word_le_nat_alt)
  then show "1 \<le> next_id p" "next_id p \<le> pool_max_inflight p" "next_id p \<noteq> 0"
    by (auto simp: word_le_nat_alt)
qed

lemma next_id_inv: "pool_inv p \<Longrightarrow> pool_inv (p\<lparr>last_pkid := next_id p\<rparr>)"
  using next_id_range [of p] by (simp add: pool_inv_def)

section \<open>Runs of calls\<close>

fun candidates :: "nat \<Rightarrow> (packet_id_pool, 'e, u16 list) op" where
  "candidates 0 = ret []"
| "candidates (Suc k) =
     and_then next_candidate (\<lambda>x. and_then (candidates k) (\<lambda>xs. ret (x # xs)))"

lemma candidates_cycle:
  assumes "pool_inv p" and "pool_max_inflight p \<noteq> 0xFFFF"
  shows "\<exists>p'. (candidates k p :: ('e, u16 list) outcome \<times> packet_id_pool) =
     (Ok (map (\<lambda>i. word_of_nat ((unat (last_pkid p) + i) mod unat (pool_max_inflight p) + 1)) [0..<k]), p')"
  using assms
proof (induction k arbitrary: p)
  case (Suc k)
  let ?m = "unat (pool_max_inflight p)" and ?l = "unat (last_pkid p)"
  let ?q = "p\<lparr>last_pkid := next_id p\<rparr>"
  have m: "0 < ?m" "?l \<le> ?m"
    using Suc.prems(1) by (simp_all add: pool_inv_def word_less_nat_alt word_le_nat_alt)
  have "last_pkid p \<noteq> 0xFFFF"
    using Suc.prems u16_ge_FFFF [of "pool_max_inflight p"] by (auto simp: pool_inv_def)
  then have n: "(next_candidate p :: ('e, u16) outcome \<times> packet_id_pool) = (Ok (next_id p), ?q)"
    by (simp add: next_candidate_eq)
  have id: "unat (next_id p) = ?l mod ?m + 1"
    using m unat_next_id [of p] by (cases "?l = ?m") auto
  from Suc.IH [OF next_id_inv [OF Suc.prems(1)]] Suc.prems(2) obtain p' where
    IH: "(candidates k ?q :: ('e, u16 list) outcome \<times> packet_id_pool) =
      (Ok (map (\<lambda>i. word_of_nat ((?l mod ?m + 1 + i) mod ?m + 1)) [0..<k]), p')"
    by (auto simp: id)
  have "(?l mod ?m + 1 + i) mod ?m = (?l + Suc i) mod ?m" for i
    by (metis add.assoc mod_add_left_eq plus_1_eq_Suc)
  moreover have "next_id p = word_of_nat (?l mod ?m + 1)"
    unfolding id [symmetric] by simp
  ultimately have "(candidates (Suc k) p :: ('e, u16 list) outcome \<times> packet_id_pool) =
      (Ok (word_of_nat ((?l + 0) mod ?m + 1) # map (\<lambda>i. word_of_nat ((?l + Suc i) mod ?m + 1)) [0..<k]), p')"
    using n IH by (simp add: op_defs)
  then show ?case
    by (simp only: upt_conv_Cons [OF zero_less_Suc] list.map map_Suc_upt [symmetric] map_map comp_def)
      blast
qed (simp add: ret_def)

lemma inj_on_cycle:
  assumes "k \<le> m"
  shows "inj_on (\<lambda>i. (l + i) mod m) {0..<k :: nat}"
proof -
  have "\<not> i < j" if "j < k" "(l + i) mod m = (l + j) mod m" for i j
  proof
    assume "i < j"
    with that(2) have "m dvd (l + j) - (l + i)" by (subst mod_eq_dvd_iff_nat [symmetric]) simp_all
    with \<open>i < j\<close> have "m \<le> j - i" by (auto dest: dvd_imp_le)
    with that(1) assms \<open>i < j\<close> show False by simp
  qed
  then show ?thesis by (intro inj_onI) (metis atLeastLessThan_iff linorder_neqE_nat)
qed

lemma candidates_up:
  assumes "unat (last_pkid p) + k \<le> unat (pool_max_inflight p)"
  shows "\<exists>ids. (candidates k p :: ('e, u16 list) outcome \<times> packet_id_pool) =
    (Ok ids, p\<lparr>last_pkid := word_of_nat (unat (last_pkid p) + k)\<rparr>)"
  using assms
proof (induction k arbitrary: p)
  case (Suc k)
  let ?q = "p\<lparr>last_pkid := next_id p\<rparr>"
  from Suc.prems have l: "last_pkid p < pool_max_inflight p" by (simp add: word_less_nat_alt)
  then have n: "(next_candidate p :: ('e, u16) outcome \<times> packet_id_pool) = (Ok (next_id p), ?q)"
    by (simp add: next_candidate_eq u16_less_not_FFFF)
  have "unat (next_id p) = Suc (unat (last_pkid p))"
    using l unat_next_id [of p] by (simp add: word_less_nat_alt)
  with Suc.IH [of ?q] Suc.prems obtain ids where
    "(candidates k ?q :: ('e, u16 list) outcome \<times> packet_id_pool) =
      (Ok ids, p\<lparr>last_pkid := word_of_nat (unat (last_pkid p) + Suc k)\<rparr>)"
    by auto
  then have "(candidates (Suc k) p :: ('e, u16 list) outcome \<times> packet_id_pool) =
      (Ok (next_id p # ids), p\<lparr>last_pkid := word_of_nat (unat (last_pkid p) + Suc k)\<rparr>)"
    using n by (simp add: op_defs)
  then show ?case by blast
qed (simp add: ret_def)

section \<open>Properties\<close>

text \<open>
  In a pool that has not reached 65,535, the next candidate is in 1..max_inflight,
  the pool stays well formed, and the checked and the wrapping addition agree.
\<close>
theorem next_candidate_in_range:
  assumes "pool_inv p" and "last_pkid p \<noteq> 0xFFFF"
  shows "\<exists>i p'. next_candidate p = (Ok i, p') \<and> 1 \<le> i \<and> i \<le> pool_max_inflight p \<and>
    pool_inv p' \<and> last_pkid p' = i \<and> next_candidate_release p = (Ok i, p')"
  using assms next_id_range [of p] next_id_inv [of p]
  by (simp add: next_candidate_eq next_candidate_release_eq)

theorem next_candidate_in_range_witness:
  "\<exists>i p'. next_candidate \<lparr>last_pkid = 3, pool_max_inflight = 3\<rparr> = (Ok i, p') \<and> 1 \<le> i \<and>
    i \<le> pool_max_inflight \<lparr>last_pkid = 3, pool_max_inflight = 3\<rparr> \<and> pool_inv p' \<and>
    last_pkid p' = i \<and> next_candidate_release \<lparr>last_pkid = 3, pool_max_inflight = 3\<rparr> = (Ok i, p')"
  by (rule next_candidate_in_range) (simp_all add: pool_inv_def)

text \<open>
  The pool cycles: any run of at most max_inflight successive candidates yields
  pairwise different packet ids, all in 1..max_inflight.
\<close>
theorem candidates_distinct:
  assumes "pool_inv p" and "pool_max_inflight p \<noteq> 0xFFFF" and "k \<le> unat (pool_max_inflight p)"
  shows "\<exists>ids p'. (candidates k p :: ('e, u16 list) outcome \<times> packet_id_pool) = (Ok ids, p') \<and>
    length ids = k \<and> distinct ids \<and>
    list_all (\<lambda>i. 1 \<le> i \<and> i \<le> pool_max_inflight p) ids"
proof -
  let ?m = "unat (pool_max_inflight p)" and ?l = "unat (last_pkid p)"
  let ?f = "\<lambda>i. (?l + i) mod ?m + 1"
  have m: "0 < ?m" "?m < 65536"
    using assms(1) u16_bound by (simp_all add: pool_inv_def word_less_nat_alt)
  have r: "1 \<le> ?f i \<and> ?f i \<le> ?m" for i using m(1) by (simp add: Suc_le_eq)
  have u: "unat (word_of_nat (?f i) :: u16) = ?f i" for i
    by (rule unat_word_of_nat_u16) (rule le_less_trans [OF conjunct2 [OF r] m(2)])
  have "inj_on (\<lambda>i. word_of_nat (?f i) :: u16) {0..<k}"
  proof (rule inj_onI)
    fix i j assume ij: "i \<in> {0..<k}" "j \<in> {0..<k}" "(word_of_nat (?f i) :: u16) = word_of_nat (?f j)"
    from arg_cong [OF ij(3), of unat] have "?f i = ?f j" unfolding u .
    then have "(?l + i) mod ?m = (?l + j) mod ?m" by simp
    with inj_on_cycle [OF assms(3), of ?l] ij(1,2) show "i = j" by (simp only: inj_on_def)
  qed
  moreover from candidates_cycle [OF assms(1,2), of k] obtain p' where
    "(candidates k p :: ('e, u16 list) outcome \<times> packet_id_pool) =
      (Ok (map (\<lambda>i. word_of_nat (?f i)) [0..<k]), p')" by blast
  moreover have "1 \<le> (word_of_nat (?f i) :: u16) \<and> word_of_nat (?f i) \<le> pool_max_inflight p" for i
    unfolding word_le_nat_alt u unat_1 by (rule r)
  then have "list_all (\<lambda>i. 1 \<le> i \<and> i \<le> pool_max_inflight p) (map (\<lambda>i. word_of_nat (?f i)) [0..<k])"
    unfolding list_all_iff set_map by blast
  ultimately show ?thesis by (intro exI conjI) (assumption, simp_all add: distinct_map)
qed

theorem candidates_distinct_witness:
  "\<exists>ids p'. (candidates 4 \<lparr>last_pkid = 2, pool_max_inflight = 4\<rparr>
      :: (unit, u16 list) outcome \<times> packet_id_pool) = (Ok ids, p') \<and> length ids = 4 \<and>
    distinct ids \<and> list_all (\<lambda>i. 1 \<le> i \<and> i \<le> pool_max_inflight \<lparr>last_pkid = 2, pool_max_inflight = 4\<rparr>) ids"
  by (rule candidates_distinct) (simp_all add: pool_inv_def)

text \<open>
  Claim C36 (bounds). With max_inflight = 65,535 the pool gives out 65,535 candidates and then, under
  the overflow checks of a dev build, the next call panics in \<open>self.last_pkid + 1\<close> before the test
  \<open>next == 0\<close> that was meant to catch the wrap; a release build goes on with 1.
\<close>
theorem full_range_pool_panics:
  "\<exists>ids p'. (candidates 65535 \<lparr>last_pkid = 0, pool_max_inflight = 0xFFFF\<rparr>
       :: ('e, u16 list) outcome \<times> packet_id_pool) = (Ok ids, p') \<and>
     (fst (next_candidate p') :: ('e, u16) outcome) = Panic \<and>
     (fst (next_candidate_release p') :: ('e, u16) outcome) = Ok 1"
proof -
  let ?full = "\<lparr>last_pkid = 0xFFFF, pool_max_inflight = 0xFFFF\<rparr>"
  from candidates_up [of "\<lparr>last_pkid = 0, pool_max_inflight = 0xFFFF\<rparr>" 65535] obtain ids where
    "(candidates 65535 \<lparr>last_pkid = 0, pool_max_inflight = 0xFFFF\<rparr>
       :: ('e, u16 list) outcome \<times> packet_id_pool) = (Ok ids, ?full)" by auto
  moreover have "(fst (next_candidate ?full) :: ('e, u16) outcome) = Panic"
    by (simp add: next_candidate_eq)
  moreover have "(fst (next_candidate_release ?full) :: ('e, u16) outcome) = Ok 1"
    by (subst next_candidate_release_eq) (simp_all add: pool_inv_def next_id_def)
  ultimately show ?thesis by (intro exI conjI)
qed

end
