(* ===== verification/Runtime_Types.thy ===== *)
theory Runtime_Types
  imports Mqtt_Types
begin

text \<open>
  The result and error types of src/runtime/state.rs.  Variants of RuntimeError and Completion keep
  their names, with the prefix \<open>Done_\<close> for Completion (PubAck and its siblings are packets as well).
\<close>

datatype completion =
    Done_PubAck nat u16
  | Done_PubComp nat u16
  | Done_SubAck nat u16
  | Done_UnsubAck nat u16

record subscribe_ack_result =
  sar_client_id :: nat
  sar_token_id :: nat
  sar_filters :: "topic_filter list"
  sar_completion :: completion

record unsubscribe_ack_result =
  uar_client_id :: nat
  uar_token_id :: nat
  uar_filters :: "rstring list"
  uar_completion :: completion

record ack_result =
  ar_client_id :: nat
  ar_completion :: completion
  ar_next_packet :: "packet option"

datatype runtime_error =
    InvalidCommand
  | UnsolicitedAck u16
  | UnsolicitedPubRec u16
  | UnsolicitedPubComp u16
  | UnsolicitedPubRel u16
  | PacketIdOutOfRange u16
  | AwaitPingRespTimeout
  | ConnectionInactive

datatype incoming_qos2_result =
    FirstSeen packet
  | Duplicate packet

fun completion_token :: "completion \<Rightarrow> nat" where
  "completion_token (Done_PubAck t _) = t"
| "completion_token (Done_PubComp t _) = t"
| "completion_token (Done_SubAck t _) = t"
| "completion_token (Done_UnsubAck t _) = t"

end
