(* ===== verification/Inflight_Store.thy ===== *)
theory Inflight_Store
  imports Runtime_Types "HOL-Library.Multiset"
begin

text \<open>
  The table of operations in flight, src/runtime/inflight.rs.  \<open>outgoing\<close> has one slot per packet id
  0..max_inflight; \<open>inflight\<close> counts the occupied ones.  The locale \<open>op_table\<close> is the contract the
  runtime state relies on; its laws are discharged for \<open>try_insert\<close> and \<open>release_ack\<close>.
\<close>

section \<open>State and operations\<close>

record outgoing_op =
  op_token_id :: nat
  op_command :: command
  op_packet :: packet
  op_client_id :: nat

definition new_op :: "nat \<Rightarrow> nat \<Rightarrow> command \<Rightarrow> packet \<Rightarrow> outgoing_op" where
  "new_op token_id client_id command packet =
     \<lparr>op_token_id = token_id, op_command = command, op_packet = packet, op_client_id = client_id\<rparr>"

record inflight_store =
  outgoing :: "outgoing_op option list"
  inflight_count :: u16
  store_max_inflight :: u16
  last_ack :: u16
  collision :: "(u16 \<times> outgoing_op) option"
  pending :: "outgoing_op list"
  outgoing_rel :: "bool list"
  incoming_pub :: "bool list"

definition new_store :: "u16 \<Rightarrow> inflight_store" where
  "new_store max_inflight =
     (let n = unat max_inflight + 1 in
      \<lparr>outgoing = replicate n None, inflight_count = 0, store_max_inflight = max_inflight,
       last_ack = 0, collision = None, pending = [],
       outgoing_rel = replicate n False, incoming_pub = replicate n False\<rparr>)"

text \<open>Vec::get and Vec::get_mut.\<close>

definition get_mut :: "'a list \<Rightarrow> nat \<Rightarrow> 'a option" where
  "get_mut xs i = (if i < length xs then Some (xs ! i) else None)"

definition try_insert :: "u16 \<Rightarrow> outgoing_op \<Rightarrow> (inflight_store, runtime_error, bool) op" where
  "try_insert pkid op =
     and_then (get inflight_count) (\<lambda>inflight.
     and_then (get store_max_inflight) (\<lambda>max_inflight.
     if inflight \<ge> max_inflight then ret False
     else
       let i = unat pkid in
       and_then (get outgoing) (\<lambda>slots.
       case get_mut slots i of
         Some slot \<Rightarrow>
           if slot \<noteq> None then
             and_then (modify (\<lambda>self. self\<lparr>collision := Some (pkid, op)\<rparr>)) (\<lambda>_. ret False)
           else
             and_then (lift (store slots i (Some op))) (\<lambda>slots'.
             and_then (modify (\<lambda>self. self\<lparr>outgoing := slots'\<rparr>)) (\<lambda>_.
             and_then (lift (add_u16 inflight 1)) (\<lambda>inflight'.
             and_then (modify (\<lambda>self. self\<lparr>inflight_count := inflight'\<rparr>)) (\<lambda>_.
             ret True))))
       | None \<Rightarrow> ret False)))"

definition release_ack :: "u16 \<Rightarrow> (inflight_store, runtime_error, outgoing_op option) op" where
  "release_ack pkid =
     (let i = unat pkid in
     and_then (modify (\<lambda>self. self\<lparr>last_ack := pkid\<rparr>)) (\<lambda>_.
     and_then (get outgoing) (\<lambda>slots.
     case get_mut slots i of
       None \<Rightarrow> ret None
     | Some out \<Rightarrow>
         and_then (modify (\<lambda>self. self\<lparr>outgoing := slots[i := None]\<rparr>)) (\<lambda>_.
         if out \<noteq> None then
           and_then (get inflight_count) (\<lambda>inflight.
           and_then (lift (sub_u16 inflight 1)) (\<lambda>inflight'.
           and_then (modify (\<lambda>self. self\<lparr>inflight_count := inflight'\<rparr>)) (\<lambda>_.
           ret out)))
         else ret out))))"

section \<open>Invariant and lookup\<close>

text \<open>The operations a list of slots holds, in slot order.\<close>

definition held_ops :: "'a option list \<Rightarrow> 'a list" where
  "held_ops slots = map the (filter (\<lambda>x. x \<noteq> None) slots)"

definition store_inv :: "inflight_store \<Rightarrow> bool" where
  "store_inv s \<longleftrightarrow>
     length (outgoing s) = unat (store_max_inflight s) + 1 \<and>
     length (outgoing_rel s) = length (outgoing s) \<and>
     length (incoming_pub s) = length (outgoing s) \<and>
     unat (inflight_count s) = length (held_ops (outgoing s)) \<and>
     inflight_count s \<le> store_max_inflight s"

definition slot_of :: "inflight_store \<Rightarrow> u16 \<Rightarrow> outgoing_op option" where
  "slot_of s pkid = (case get_mut (outgoing s) (unat pkid) of Some slot \<Rightarrow> slot | None \<Rightarrow> None)"

lemma held_ops_simps [simp]:
  "held_ops [] = []"
  "held_ops (None # xs) = held_ops xs"
  "held_ops (Some x # xs) = x # held_ops xs"
  "held_ops (xs @ ys) = held_ops xs @ held_ops ys"
  "held_ops (replicate n None) = []"
  by (simp_all add: held_ops_def)

lemma in_held_ops_iff: "x \<in> set (held_ops xs) \<longleftrightarrow> Some x \<in> set xs"
  by (induction xs rule: list.induct) (auto simp: held_ops_def image_iff)

lemma held_ops_Nil_iff: "held_ops xs = [] \<longleftrightarrow> (\<forall>x \<in> set xs. x = None)"
  by (simp add: held_ops_def filter_empty_conv)

lemma held_ops_insert:
  assumes "i < length xs" and "xs ! i = None"
  shows "mset (held_ops (xs[i := Some x])) = add_mset x (mset (held_ops xs))"
proof -
  have "xs = take i xs @ None # drop (Suc i) xs"
    using assms id_take_nth_drop [of i xs] by simp
  moreover have "xs[i := Some x] = take i xs @ Some x # drop (Suc i) xs"
    using assms upd_conv_take_nth_drop [of i xs] by simp
  ultimately show ?thesis by (metis held_ops_simps(2,3,4) mset_append mset.simps(2) union_mset_add_mset_right)
qed

lemma held_ops_release:
  assumes "i < length xs" and "xs ! i = Some x"
  shows "mset (held_ops xs) = add_mset x (mset (held_ops (xs[i := None])))"
proof -
  have "xs[i := None, i := Some x] = xs" using assms by (metis list_update_id list_update_overwrite)
  then show ?thesis using held_ops_insert [of i "xs[i := None]" x] assms(1) by simp
qed

lemma length_held_ops_update:
  "i < length xs \<Longrightarrow> xs ! i = None \<Longrightarrow> length (held_ops (xs[i := Some x])) = Suc (length (held_ops xs))"
  by (metis held_ops_insert size_add_mset size_mset)

lemma length_held_ops_release:
  "i < length xs \<Longrightarrow> xs ! i = Some x \<Longrightarrow> length (held_ops xs) = Suc (length (held_ops (xs[i := None])))"
  by (metis held_ops_release size_add_mset size_mset)

lemma store_inv_new [simp]: "store_inv (new_store m)"
  by (simp add: store_inv_def new_store_def Let_def)

section \<open>Each operation on each branch\<close>

lemma add_u16_1_less: "\<not> b \<le> a \<Longrightarrow> add_u16 a 1 = Ok (a + 1)"
  using u16_less_not_FFFF [of a b] by (simp add: add_u16_1)

lemma sub_u16_1: "0 < unat a \<Longrightarrow> sub_u16 a 1 = Ok (a - 1)"
  by (simp add: sub_u16_def word_le_nat_alt)

lemma slot_of_Some_iff:
  "slot_of s k = Some op \<longleftrightarrow> unat k < length (outgoing s) \<and> outgoing s ! unat k = Some op"
  by (simp add: slot_of_def get_mut_def)

definition with_slot :: "u16 \<Rightarrow> outgoing_op option \<Rightarrow> u16 \<Rightarrow> inflight_store \<Rightarrow> inflight_store" where
  "with_slot pkid x n s = s\<lparr>outgoing := (outgoing s)[unat pkid := x], inflight_count := n\<rparr>"

lemma try_insert_eq:
  "try_insert k op s =
    (if inflight_count s \<ge> store_max_inflight s \<or> length (outgoing s) \<le> unat k then (Ok False, s)
     else if slot_of s k \<noteq> None then (Ok False, s\<lparr>collision := Some (k, op)\<rparr>)
     else (Ok True, with_slot k (Some op) (inflight_count s + 1) s))"
  by (simp add: try_insert_def op_defs Let_def get_mut_def slot_of_def store_def with_slot_def
      add_u16_1_less)

lemma release_ack_eq:
  assumes "store_inv s"
  shows "release_ack k s =
    (case slot_of s k of
       None \<Rightarrow> (Ok None, s\<lparr>last_ack := k\<rparr>)
     | Some op \<Rightarrow> (Ok (Some op), with_slot k None (inflight_count s - 1) (s\<lparr>last_ack := k\<rparr>)))"
proof (cases "slot_of s k")
  case None
  then have "(outgoing s)[unat k := None] = outgoing s" if "unat k < length (outgoing s)"
    using that by (metis get_mut_def list_update_id option.simps(5) slot_of_def)
  with None show ?thesis
    by (cases "unat k < length (outgoing s)")
      (simp_all add: release_ack_def op_defs Let_def get_mut_def slot_of_def)
next
  case (Some op)
  then have s: "unat k < length (outgoing s)" "outgoing s ! unat k = Some op"
    by (simp_all add: slot_of_Some_iff)
  have "0 < unat (inflight_count s)"
    using assms length_held_ops_release [OF s] by (simp add: store_inv_def)
  with s Some show ?thesis
    by (simp add: release_ack_def op_defs Let_def get_mut_def with_slot_def sub_u16_1)
qed

section \<open>The contract\<close>

text \<open>
  What the runtime state needs of the table: an accepted insertion fills a free key and nothing
  else, a refused one changes no entry, a release empties the key and hands its entry over.
\<close>

definition mset_option :: "'a option \<Rightarrow> 'a multiset" where
  "mset_option x = (case x of None \<Rightarrow> {#} | Some y \<Rightarrow> {#y#})"

lemma mset_option_simps [simp]: "mset_option None = {#}" "mset_option (Some x) = {#x#}"
  by (simp_all add: mset_option_def)

datatype ('k, 'v) request = Insert 'k 'v | Release 'k

text \<open>A run of requests, with the values accepted and the values handed back.\<close>

fun run_requests ::
  "('k \<Rightarrow> 'v \<Rightarrow> ('s, 'e, bool) op) \<Rightarrow> ('k \<Rightarrow> ('s, 'e, 'v option) op) \<Rightarrow>
    ('k, 'v) request list \<Rightarrow> ('s, 'e, 'v list \<times> 'v list) op" where
  "run_requests ins rel [] = ret ([], [])"
| "run_requests ins rel (Insert k v # rs) =
     and_then (ins k v) (\<lambda>accepted.
     and_then (run_requests ins rel rs) (\<lambda>(xs, ys). ret (if accepted then v # xs else xs, ys)))"
| "run_requests ins rel (Release k # rs) =
     and_then (rel k) (\<lambda>x.
     and_then (run_requests ins rel rs) (\<lambda>(xs, ys). ret (xs, case x of None \<Rightarrow> ys | Some v \<Rightarrow> v # ys)))"

locale op_table =
  fixes ins :: "'k \<Rightarrow> 'v \<Rightarrow> ('s, 'e, bool) op"
    and rel :: "'k \<Rightarrow> ('s, 'e, 'v option) op"
    and lookup :: "'s \<Rightarrow> 'k \<Rightarrow> 'v option"
    and held :: "'s \<Rightarrow> 'v multiset"
    and inv :: "'s \<Rightarrow> bool"
  assumes ins_law: "inv s \<Longrightarrow> \<exists>s'. inv s' \<and>
      (ins k v s = (Ok True, s') \<and> lookup s k = None \<and> lookup s' = (lookup s)(k \<mapsto> v) \<and>
         held s' = add_mset v (held s) \<or>
       ins k v s = (Ok False, s') \<and> lookup s' = lookup s \<and> held s' = held s)"
    and rel_law: "inv s \<Longrightarrow> \<exists>s'. rel k s = (Ok (lookup s k), s') \<and> inv s' \<and>
      lookup s' = (lookup s)(k := None) \<and> held s = held s' + mset_option (lookup s k)"
begin

lemma run_conserves:
  "inv s \<Longrightarrow> \<exists>xs ys s'. run_requests ins rel rs s = (Ok (xs, ys), s') \<and> inv s' \<and>
     held s + mset xs = mset ys + held s'"
proof (induction rs arbitrary: s)
  case (Cons r rs)
  show ?case
  proof (cases r)
    case (Insert k v)
    from ins_law [OF Cons.prems, of k v] obtain b s' where
      i: "ins k v s = (Ok b, s')" "inv s'" "held s' = (if b then add_mset v (held s) else held s)"
      by (metis (full_types))
    from Cons.IH [OF i(2)] obtain xs ys s'' where
      j: "run_requests ins rel rs s' = (Ok (xs, ys), s'')" "inv s''" "held s' + mset xs = mset ys + held s''"
      by blast
    have "run_requests ins rel (r # rs) s = (Ok (if b then v # xs else xs, ys), s'')"
      using Insert i(1) j(1) by (simp add: ret_def)
    moreover have "held s + mset (if b then v # xs else xs) = mset ys + held s''"
      using i(3) j(3) by (cases b) auto
    ultimately show ?thesis using j(2) by blast
  next
    case (Release k)
    from rel_law [OF Cons.prems, of k] obtain s' where
      i: "rel k s = (Ok (lookup s k), s')" "inv s'" "held s = held s' + mset_option (lookup s k)"
      by blast
    from Cons.IH [OF i(2)] obtain xs ys s'' where
      j: "run_requests ins rel rs s' = (Ok (xs, ys), s'')" "inv s''" "held s' + mset xs = mset ys + held s''"
      by blast
    let ?ys = "case lookup s k of None \<Rightarrow> ys | Some v \<Rightarrow> v # ys"
    have "run_requests ins rel (r # rs) s = (Ok (xs, ?ys), s'')"
      using Release i(1) j(1) by (simp add: ret_def)
    moreover have "mset ?ys = mset_option (lookup s k) + mset ys" by (cases "lookup s k") simp_all
    then have "held s + mset xs = mset ?ys + held s''"
      using i(3) j(3) by (metis add.assoc add.commute)
    ultimately show ?thesis using j(2) by blast
  qed
qed (simp add: ret_def)

lemma rel_after_ins:
  assumes "inv s" and "ins k v s = (Ok True, s1)"
  shows "\<exists>s2 s3. rel k s1 = (Ok (Some v), s2) \<and> rel k s2 = (Ok None, s3) \<and>
    lookup s2 = lookup s \<and> held s2 = held s"
proof -
  from ins_law [OF assms(1), of k v] assms(2) have
    1: "inv s1" "lookup s k = None" "lookup s1 = (lookup s)(k \<mapsto> v)" "held s1 = add_mset v (held s)"
    by auto
  from rel_law [OF 1(1), of k] 1(3) obtain s2 where
    2: "rel k s1 = (Ok (Some v), s2)" "inv s2" "lookup s2 = (lookup s1)(k := None)"
      "held s1 = held s2 + {#v#}" by auto
  from rel_law [OF 2(2), of k] 2(3) obtain s3 where "rel k s2 = (Ok None, s3)" by auto
  with 1 2 show ?thesis by (auto simp: fun_upd_idem)
qed

end

lemma slot_of_with_slot:
  assumes "unat k < length (outgoing s)"
  shows "slot_of (with_slot k x n s) = (slot_of s)(k := x)"
  using assms by (auto simp: slot_of_def get_mut_def with_slot_def fun_eq_iff nth_list_update word_unat_eq_iff)

lemma slot_of_simps [simp]:
  "slot_of (s\<lparr>last_ack := a\<rparr>) = slot_of s"
  "slot_of (s\<lparr>collision := c\<rparr>) = slot_of s"
  "slot_of (s\<lparr>pending := p\<rparr>) = slot_of s"
  "slot_of (s\<lparr>outgoing_rel := rs\<rparr>) = slot_of s"
  "slot_of (s\<lparr>incoming_pub := ps\<rparr>) = slot_of s"
  by (simp_all add: slot_of_def fun_eq_iff)

lemma store_inv_simps [simp]:
  "store_inv (s\<lparr>last_ack := a\<rparr>) = store_inv s"
  "store_inv (s\<lparr>collision := c\<rparr>) = store_inv s"
  "store_inv (s\<lparr>pending := p\<rparr>) = store_inv s"
  "length rs = length (outgoing s) \<Longrightarrow> store_inv s \<Longrightarrow> store_inv (s\<lparr>outgoing_rel := rs\<rparr>)"
  "length ps = length (outgoing s) \<Longrightarrow> store_inv s \<Longrightarrow> store_inv (s\<lparr>incoming_pub := ps\<rparr>)"
  by (simp_all add: store_inv_def)

lemma store_inv_fill:
  assumes "store_inv s" "\<not> inflight_count s \<ge> store_max_inflight s" "unat k < length (outgoing s)"
    "slot_of s k = None"
  shows "store_inv (with_slot k (Some op) (inflight_count s + 1) s)"
    "mset (held_ops (outgoing (with_slot k (Some op) (inflight_count s + 1) s))) =
       add_mset op (mset (held_ops (outgoing s)))"
proof -
  have n: "outgoing s ! unat k = None" using assms(3,4) by (simp add: slot_of_def get_mut_def)
  have "unat (inflight_count s + 1) = Suc (unat (inflight_count s))"
    using u16_Suc [OF u16_less_not_FFFF [of "inflight_count s" "store_max_inflight s"]] assms(2) by simp
  then show "store_inv (with_slot k (Some op) (inflight_count s + 1) s)"
    using assms length_held_ops_update [OF assms(3) n]
    by (simp add: store_inv_def with_slot_def word_le_nat_alt)
  show "mset (held_ops (outgoing (with_slot k (Some op) (inflight_count s + 1) s))) =
       add_mset op (mset (held_ops (outgoing s)))"
    using held_ops_insert [OF assms(3) n] by (simp add: with_slot_def)
qed

lemma store_inv_empty:
  assumes "store_inv s" "slot_of s k = Some op"
  shows "store_inv (with_slot k None (inflight_count s - 1) s)"
    "mset (held_ops (outgoing s)) =
       add_mset op (mset (held_ops (outgoing (with_slot k None (inflight_count s - 1) s))))"
    "inflight_count s - 1 < store_max_inflight s"
proof -
  have n: "unat k < length (outgoing s)" "outgoing s ! unat k = Some op"
    using assms(2) by (simp_all add: slot_of_Some_iff)
  have 1: "1 \<le> unat (inflight_count s)"
    using assms(1) length_held_ops_release [OF n] by (simp add: store_inv_def)
  then have "unat (inflight_count s - 1) = unat (inflight_count s) - 1"
    by (simp add: unat_sub word_le_nat_alt)
  then show "store_inv (with_slot k None (inflight_count s - 1) s)"
    "inflight_count s - 1 < store_max_inflight s"
    using assms(1) length_held_ops_release [OF n] 1
    by (auto simp add: store_inv_def with_slot_def word_le_nat_alt word_less_nat_alt)
  show "mset (held_ops (outgoing s)) =
       add_mset op (mset (held_ops (outgoing (with_slot k None (inflight_count s - 1) s))))"
    using held_ops_release [OF n] by (simp add: with_slot_def)
qed

interpretation slots: op_table
  try_insert release_ack slot_of "\<lambda>s. mset (held_ops (outgoing s))" store_inv
proof
  fix s k v assume s: "store_inv s"
  show "\<exists>s'. store_inv s' \<and>
     (try_insert k v s = (Ok True, s') \<and> slot_of s k = None \<and> slot_of s' = (slot_of s)(k \<mapsto> v) \<and>
        mset (held_ops (outgoing s')) = add_mset v (mset (held_ops (outgoing s))) \<or>
      try_insert k v s = (Ok False, s') \<and> slot_of s' = slot_of s \<and>
        mset (held_ops (outgoing s')) = mset (held_ops (outgoing s)))"
    using s store_inv_fill [OF s, of k v]
    by (auto simp: try_insert_eq slot_of_with_slot)
next
  fix s k assume s: "store_inv s"
  show "\<exists>s'. release_ack k s = (Ok (slot_of s k), s') \<and> store_inv s' \<and>
     slot_of s' = (slot_of s)(k := None) \<and>
     mset (held_ops (outgoing s)) = mset (held_ops (outgoing s')) + mset_option (slot_of s k)"
  proof (cases "slot_of s k")
    case None
    with s show ?thesis by (auto simp: release_ack_eq fun_upd_idem)
  next
    case (Some op)
    then have k: "unat k < length (outgoing s)" by (simp add: slot_of_Some_iff)
    have "store_inv (s\<lparr>last_ack := k\<rparr>)" "slot_of (s\<lparr>last_ack := k\<rparr>) k = Some op"
      using s Some by simp_all
    from store_inv_empty [OF this] Some k show ?thesis
      by (simp add: release_ack_eq [OF s] slot_of_with_slot)
  qed
qed

section \<open>Properties\<close>

text \<open>
  Claim C30 (invariant). The slot table loses and duplicates nothing: whatever sequence of
  \<open>try_insert\<close> and \<open>release_ack\<close> calls runs on a new store, no call panics, the operations accepted
  are exactly those handed back plus those still in the slots, and the counter \<open>inflight\<close> is the
  number of occupied slots and never exceeds max_inflight.
\<close>
theorem slot_table_conserves_ops:
  "\<exists>accepted released s'.
     run_requests try_insert release_ack rs (new_store m) = (Ok (accepted, released), s') \<and>
     mset accepted = mset released + mset (held_ops (outgoing s')) \<and>
     unat (inflight_count s') = length (held_ops (outgoing s')) \<and>
     inflight_count s' \<le> store_max_inflight s'"
proof -
  have "held_ops (outgoing (new_store m)) = []" by (simp add: new_store_def Let_def)
  then show ?thesis
    using slots.run_conserves [OF store_inv_new, of rs m] by (auto simp: store_inv_def)
qed

text \<open>
  An operation accepted under a packet id is handed back by the first
  acknowledgement of that id, exactly once: the second acknowledgement finds nothing, and the
  other slots are as before.
\<close>
theorem acknowledged_exactly_once:
  assumes "store_inv s" and "try_insert k op s = (Ok True, s1)"
  shows "\<exists>s2 s3. release_ack k s1 = (Ok (Some op), s2) \<and> release_ack k s2 = (Ok None, s3) \<and>
    slot_of s2 = slot_of s \<and> mset (held_ops (outgoing s2)) = mset (held_ops (outgoing s))"
  using assms by (rule slots.rel_after_ins)

theorem acknowledged_exactly_once_witness:
  "\<exists>s1 s2 s3 op.
    try_insert 1 op (new_store 2) = (Ok True, s1) \<and>
    release_ack 1 s1 = (Ok (Some op), s2) \<and> release_ack 1 s2 = (Ok None, s3) \<and>
    slot_of s2 = slot_of (new_store 2) \<and>
    mset (held_ops (outgoing s2)) = mset (held_ops (outgoing (new_store 2)))"
proof -
  let ?op = "new_op 7 3 (C_Subscribe 7 \<lparr>sub_pkid = 1, sub_filters = []\<rparr> 3)
    (P_Subscribe \<lparr>sub_pkid = 1, sub_filters = []\<rparr>)"
  let ?s1 = "with_slot 1 (Some ?op) 1 (new_store 2)"
  have i: "try_insert 1 ?op (new_store 2) = (Ok True, ?s1)"
    by (simp add: try_insert_eq new_store_def slot_of_def get_mut_def Let_def)
  from acknowledged_exactly_once [OF store_inv_new i] i show ?thesis by blast
qed

end
