(* ===== verification/Runtime_State.thy ===== *)
theory Runtime_State
  imports Pkid_Pool Inflight_Store
begin

text \<open>
  The protocol state machine of the client, src/runtime/state.rs: one definition per method of
  RuntimeState, in the order of the file.

  Instant and Duration are natural numbers (ticks of the monotonic clock); \<open>now.duration_since(t)\<close>
  saturates at zero, as subtraction on natural numbers does.  \<open>Instant::now()\<close> is a reading passed
  as an argument.  The code rebuilds an operation from its parts where it parks it after a refused
  insertion; the rebuilt value equals the one tried, so the model reuses it.
\<close>

type_synonym instant = nat
type_synonym duration = nat

record runtime_state =
  pkid_pool :: packet_id_pool
  inflight :: inflight_store
  active :: bool
  keep_alive :: duration
  await_pingresp :: bool
  last_incoming :: instant
  last_outgoing :: instant
  ping_retry_count :: u8

type_synonym 'a state_op = "(runtime_state, runtime_error, 'a) op"

definition in_pool :: "(packet_id_pool, runtime_error, 'a) op \<Rightarrow> 'a state_op" where
  "in_pool = on_field pkid_pool (\<lambda>t self. self\<lparr>pkid_pool := t\<rparr>)"

definition in_store :: "(inflight_store, runtime_error, 'a) op \<Rightarrow> 'a state_op" where
  "in_store = on_field inflight (\<lambda>t self. self\<lparr>inflight := t\<rparr>)"

definition new_with_keep_alive ::
  "u16 \<Rightarrow> duration \<Rightarrow> instant \<Rightarrow> instant \<Rightarrow> (runtime_error, runtime_state) outcome" where
  "new_with_keep_alive max_inflight limit now1 now2 =
     bind_outcome (new_pool max_inflight) (\<lambda>pool.
     Ok \<lparr>pkid_pool = pool, inflight = new_store max_inflight, active = False,
         keep_alive = limit, await_pingresp = False, last_incoming = now1,
         last_outgoing = now2, ping_retry_count = 0\<rparr>)"

text \<open>\<open>RuntimeState::new\<close>: thirty seconds, in ticks of a nanosecond.\<close>

definition new_state :: "u16 \<Rightarrow> instant \<Rightarrow> instant \<Rightarrow> (runtime_error, runtime_state) outcome" where
  "new_state max_inflight now1 now2 = new_with_keep_alive max_inflight (30 * 1000000000) now1 now2"

section \<open>Acknowledgements of subscriptions\<close>

definition on_suback_checked :: "u16 \<Rightarrow> subscribe_ack_result state_op" where
  "on_suback_checked pkid =
     and_then (in_store (release_ack pkid)) (\<lambda>r.
     and_then (lift (ok_or r (UnsolicitedAck pkid))) (\<lambda>released.
     case op_command released of
       C_Subscribe token_id subscribe client_id \<Rightarrow>
         ret \<lparr>sar_client_id = client_id, sar_token_id = token_id,
              sar_filters = sub_filters subscribe, sar_completion = Done_SubAck token_id pkid\<rparr>
     | _ \<Rightarrow> throw InvalidCommand))"

definition on_unsuback_checked :: "u16 \<Rightarrow> unsubscribe_ack_result state_op" where
  "on_unsuback_checked pkid =
     and_then (in_store (release_ack pkid)) (\<lambda>r.
     and_then (lift (ok_or r (UnsolicitedAck pkid))) (\<lambda>released.
     case op_command released of
       C_Unsubscribe token_id unsubscribe client_id \<Rightarrow>
         ret \<lparr>uar_client_id = client_id, uar_token_id = token_id,
              uar_filters = unsub_filters unsubscribe, uar_completion = Done_UnsubAck token_id pkid\<rparr>
     | _ \<Rightarrow> throw InvalidCommand))"

section \<open>Keep-alive\<close>

definition on_tick :: "instant \<Rightarrow> packet option state_op" where
  "on_tick now =
     and_then (get active) (\<lambda>is_active.
     if \<not> is_active then ret None
     else
       and_then (get (\<lambda>self. await_pingresp self \<and> now - last_outgoing self \<ge> keep_alive self)) (\<lambda>late.
       if late then throw AwaitPingRespTimeout
       else
         and_then (get (\<lambda>self. max (last_incoming self) (last_outgoing self))) (\<lambda>idle_since.
         and_then (get keep_alive) (\<lambda>limit.
         if now - idle_since \<ge> limit then
           and_then (modify (\<lambda>self. self\<lparr>await_pingresp := True\<rparr>)) (\<lambda>_.
           and_then (modify (\<lambda>self. self\<lparr>last_outgoing := now\<rparr>)) (\<lambda>_.
           ret (Some P_PingReq)))
         else ret None))))"

definition on_pingresp :: "instant \<Rightarrow> unit state_op" where
  "on_pingresp now =
     and_then (modify (\<lambda>self. self\<lparr>await_pingresp := False\<rparr>)) (\<lambda>_.
     modify (\<lambda>self. self\<lparr>last_incoming := now\<rparr>))"

section \<open>Losing the connection\<close>

text \<open>The loop over the slots: each is emptied, its operation pushed on the pending list.\<close>

fun take_slots :: "'a option list \<Rightarrow> 'a list \<Rightarrow> 'a option list \<times> 'a list" where
  "take_slots [] parked = ([], parked)"
| "take_slots (slot # slots) parked =
     (let parked = (case slot of Some op \<Rightarrow> parked @ [op] | None \<Rightarrow> parked);
          (slots, parked) = take_slots slots parked
      in (None # slots, parked))"

definition on_connection_lost :: "bool \<Rightarrow> unit state_op" where
  "on_connection_lost clean_session =
     and_then (modify (\<lambda>self. self\<lparr>active := False, await_pingresp := False, ping_retry_count := 0\<rparr>)) (\<lambda>_.
     and_then (in_store (modify (\<lambda>self.
       let (slots, parked) = take_slots (outgoing self) (pending self)
       in self\<lparr>outgoing := slots, pending := parked\<rparr>))) (\<lambda>_.
     and_then (in_store (modify (\<lambda>self.
       case collision self of
         Some (_, op) \<Rightarrow> self\<lparr>collision := None, pending := pending self @ [op]\<rparr>
       | None \<Rightarrow> self))) (\<lambda>_.
     and_then (in_store (modify (\<lambda>self. self\<lparr>inflight_count := 0\<rparr>))) (\<lambda>_.
     if clean_session then
       and_then (in_pool reset_pool) (\<lambda>_.
       in_store (modify (\<lambda>self.
         self\<lparr>last_ack := 0,
              outgoing_rel := replicate (length (outgoing_rel self)) False,
              incoming_pub := replicate (length (incoming_pub self)) False\<rparr>)))
     else ret ()))))"

definition clean_for_reconnect :: "bool \<Rightarrow> unit state_op" where
  "clean_for_reconnect clean_session = on_connection_lost clean_session"

section \<open>Small setters\<close>

definition note_incoming_activity :: "instant \<Rightarrow> unit state_op" where
  "note_incoming_activity now = modify (\<lambda>self. self\<lparr>last_incoming := now\<rparr>)"

definition note_outgoing_activity :: "instant \<Rightarrow> unit state_op" where
  "note_outgoing_activity now = modify (\<lambda>self. self\<lparr>last_outgoing := now\<rparr>)"

definition set_active :: "bool \<Rightarrow> unit state_op" where
  "set_active a = modify (\<lambda>self. self\<lparr>active := a\<rparr>)"

definition idx :: "u16 \<Rightarrow> nat state_op" where
  "idx pkid =
     (let i = unat pkid in
     and_then (get (\<lambda>self. length (outgoing (inflight self)))) (\<lambda>n.
     if pkid = 0 \<or> i \<ge> n then throw (PacketIdOutOfRange pkid) else ret i))"

section \<open>Acknowledgements of publishes\<close>

definition mark_publish_dup :: "packet \<Rightarrow> packet" where
  "mark_publish_dup packet =
     (case packet of
        P_Publish p \<Rightarrow> P_Publish (if pub_qos p \<noteq> AtMostOnce then p\<lparr>pub_dup := True\<rparr> else p)
      | p \<Rightarrow> p)"

definition promote_collision :: "u16 \<Rightarrow> packet option state_op" where
  "promote_collision acked_pkid =
     and_then (in_store (get collision)) (\<lambda>taken.
     case taken of
       None \<Rightarrow> ret None
     | Some (pkid, op) \<Rightarrow>
         and_then (in_store (modify (\<lambda>self. self\<lparr>collision := None\<rparr>))) (\<lambda>_.
         if pkid \<noteq> acked_pkid then
           and_then (in_store (modify (\<lambda>self. self\<lparr>collision := Some (pkid, op)\<rparr>))) (\<lambda>_. ret None)
         else
           let wire = mark_publish_dup (op_packet op) in
           and_then (in_store (try_insert pkid op)) (\<lambda>inserted.
           if inserted then ret (Some wire) else ret None)))"

definition on_puback_checked :: "u16 \<Rightarrow> ack_result state_op" where
  "on_puback_checked pkid =
     and_then (in_store (release_ack pkid)) (\<lambda>r.
     and_then (lift (ok_or r (UnsolicitedAck pkid))) (\<lambda>released.
     and_then (promote_collision pkid) (\<lambda>next_packet.
     ret \<lparr>ar_client_id = op_client_id released,
          ar_completion = Done_PubAck (op_token_id released) pkid,
          ar_next_packet = next_packet\<rparr>)))"

definition on_pubrec_checked :: "u16 \<Rightarrow> packet state_op" where
  "on_pubrec_checked pkid =
     and_then (idx pkid) (\<lambda>i.
     and_then (in_store (get outgoing)) (\<lambda>slots.
     and_then (lift (index slots i)) (\<lambda>slot.
     if slot = None then throw (UnsolicitedPubRec pkid)
     else
       and_then (in_store (get outgoing_rel)) (\<lambda>rels.
       and_then (lift (store rels i True)) (\<lambda>rels'.
       and_then (in_store (modify (\<lambda>self. self\<lparr>outgoing_rel := rels'\<rparr>))) (\<lambda>_.
       ret (P_PubRel \<lparr>pubrel_pkid = pkid\<rparr>)))))))"

definition on_pubcomp_checked :: "u16 \<Rightarrow> ack_result state_op" where
  "on_pubcomp_checked pkid =
     and_then (idx pkid) (\<lambda>i.
     and_then (in_store (get outgoing_rel)) (\<lambda>rels.
     and_then (lift (index rels i)) (\<lambda>rel.
     and_then (if \<not> rel then ret True
               else and_then (in_store (get outgoing)) (\<lambda>slots.
                    and_then (lift (index slots i)) (\<lambda>slot. ret (slot = None)))) (\<lambda>unsolicited.
     if unsolicited then throw (UnsolicitedPubComp pkid)
     else
       and_then (lift (store rels i False)) (\<lambda>rels'.
       and_then (in_store (modify (\<lambda>self. self\<lparr>outgoing_rel := rels'\<rparr>))) (\<lambda>_.
       and_then (in_store (release_ack pkid)) (\<lambda>r.
       and_then (lift (ok_or r (UnsolicitedPubComp pkid))) (\<lambda>released.
       and_then (promote_collision pkid) (\<lambda>next_packet.
       ret \<lparr>ar_client_id = op_client_id released,
            ar_completion = Done_PubComp (op_token_id released) pkid,
            ar_next_packet = next_packet\<rparr>)))))))))"

section \<open>Incoming QoS 2 publishes\<close>

definition on_incoming_qos2_publish_checked :: "u16 \<Rightarrow> incoming_qos2_result state_op" where
  "on_incoming_qos2_publish_checked pkid =
     and_then (idx pkid) (\<lambda>i.
     let pubrec = P_PubRec \<lparr>pubrec_pkid = pkid\<rparr> in
     and_then (in_store (get incoming_pub)) (\<lambda>seen.
     and_then (lift (index seen i)) (\<lambda>known.
     if known then ret (Duplicate pubrec)
     else
       and_then (lift (store seen i True)) (\<lambda>seen'.
       and_then (in_store (modify (\<lambda>self. self\<lparr>incoming_pub := seen'\<rparr>))) (\<lambda>_.
       ret (FirstSeen pubrec))))))"

definition on_incoming_pubrel_checked :: "u16 \<Rightarrow> packet state_op" where
  "on_incoming_pubrel_checked pkid =
     and_then (idx pkid) (\<lambda>i.
     and_then (in_store (get incoming_pub)) (\<lambda>seen.
     and_then (lift (index seen i)) (\<lambda>known.
     if \<not> known then throw (UnsolicitedPubRel pkid)
     else
       and_then (lift (store seen i False)) (\<lambda>seen'.
       and_then (in_store (modify (\<lambda>self. self\<lparr>incoming_pub := seen'\<rparr>))) (\<lambda>_.
       ret (P_PubComp \<lparr>pubcomp_pkid = pkid\<rparr>))))))"

section \<open>Commands\<close>

text \<open>
  The tail of the three command handlers and of the three arms of the replay loop: try the slot,
  and park a refused operation on the pending list unless a collision is stored.
\<close>

definition push_pending :: "outgoing_op \<Rightarrow> unit state_op" where
  "push_pending op = in_store (modify (\<lambda>self. self\<lparr>pending := pending self @ [op]\<rparr>))"

definition insert_or_park :: "u16 \<Rightarrow> outgoing_op \<Rightarrow> bool state_op" where
  "insert_or_park pkid op =
     and_then (in_store (try_insert pkid op)) (\<lambda>inserted.
     if inserted then ret True
     else
       and_then (in_store (get collision)) (\<lambda>c.
       and_then (if c = None then push_pending op else ret ()) (\<lambda>_.
       ret False)))"

text \<open>\<open>if x.pkid == 0 { x.pkid = self.pkid_pool.next_candidate(); }\<close>\<close>

definition assign_pkid :: "bool \<Rightarrow> u16 \<Rightarrow> u16 state_op" where
  "assign_pkid needed pkid = (if needed \<and> pkid = 0 then in_pool next_candidate else ret pkid)"

definition on_command_subscribe :: "command \<Rightarrow> packet option state_op" where
  "on_command_subscribe cmd =
     (case cmd of
        C_Subscribe token_id subscribe client_id \<Rightarrow>
          and_then (assign_pkid True (sub_pkid subscribe)) (\<lambda>pkid.
          let subscribe = subscribe\<lparr>sub_pkid := pkid\<rparr>;
              wire = P_Subscribe subscribe;
              op = new_op token_id client_id (C_Subscribe token_id subscribe client_id) wire in
          and_then (get active) (\<lambda>is_active.
          if \<not> is_active then and_then (push_pending op) (\<lambda>_. ret None)
          else
            and_then (insert_or_park pkid op) (\<lambda>inserted.
            if inserted then ret (Some wire) else ret None)))
      | _ \<Rightarrow> throw InvalidCommand)"

definition on_command_unsubscribe :: "command \<Rightarrow> packet option state_op" where
  "on_command_unsubscribe cmd =
     (case cmd of
        C_Unsubscribe token_id unsubscribe client_id \<Rightarrow>
          and_then (assign_pkid True (unsub_pkid unsubscribe)) (\<lambda>pkid.
          let unsubscribe = unsubscribe\<lparr>unsub_pkid := pkid\<rparr>;
              wire = P_UnSubscribe unsubscribe;
              op = new_op token_id client_id (C_Unsubscribe token_id unsubscribe client_id) wire in
          and_then (get active) (\<lambda>is_active.
          if \<not> is_active then and_then (push_pending op) (\<lambda>_. ret None)
          else
            and_then (insert_or_park pkid op) (\<lambda>inserted.
            if inserted then ret (Some wire) else ret None)))
      | _ \<Rightarrow> throw InvalidCommand)"

definition on_command_publish :: "command \<Rightarrow> packet option state_op" where
  "on_command_publish command =
     (case command of
        C_Publish token_id publish client_id \<Rightarrow>
          let needs_ack = (pub_qos publish \<noteq> AtMostOnce) in
          and_then (assign_pkid needs_ack (pub_pkid publish)) (\<lambda>pkid.
          let publish = publish\<lparr>pub_pkid := pkid\<rparr>;
              wire = P_Publish publish;
              op = new_op token_id client_id (C_Publish token_id publish client_id) wire in
          and_then (get active) (\<lambda>is_active.
          if \<not> is_active then and_then (push_pending op) (\<lambda>_. ret None)
          else if needs_ack then
            and_then (insert_or_park pkid op) (\<lambda>inserted.
            if inserted then ret (Some wire) else ret None)
          else ret (Some wire)))
      | _ \<Rightarrow> throw InvalidCommand)"

section \<open>Replay after a reconnect\<close>

definition resend_one :: "outgoing_op \<Rightarrow> packet list \<Rightarrow> packet list state_op" where
  "resend_one op out =
     (case op_command op of
        C_Publish token_id publish client_id \<Rightarrow>
          let tracked = (pub_qos publish \<noteq> AtMostOnce) in
          and_then (assign_pkid tracked (pub_pkid publish)) (\<lambda>pkid.
          let publish = (if tracked then publish\<lparr>pub_pkid := pkid, pub_dup := True\<rparr> else publish);
              wire = P_Publish publish;
              reinjected = new_op token_id client_id (C_Publish token_id publish client_id) wire in
          if tracked then
            and_then (insert_or_park pkid reinjected) (\<lambda>inserted.
            if inserted then ret (out @ [wire]) else ret out)
          else ret (out @ [wire]))
      | C_Subscribe token_id subscribe client_id \<Rightarrow>
          and_then (assign_pkid True (sub_pkid subscribe)) (\<lambda>pkid.
          let subscribe = subscribe\<lparr>sub_pkid := pkid\<rparr>;
              wire = P_Subscribe subscribe;
              reinjected = new_op token_id client_id (C_Subscribe token_id subscribe client_id) wire in
          and_then (insert_or_park pkid reinjected) (\<lambda>inserted.
          if inserted then ret (out @ [wire]) else ret out))
      | C_Unsubscribe token_id unsubscribe client_id \<Rightarrow>
          and_then (assign_pkid True (unsub_pkid unsubscribe)) (\<lambda>pkid.
          let unsubscribe = unsubscribe\<lparr>unsub_pkid := pkid\<rparr>;
              wire = P_UnSubscribe unsubscribe;
              reinjected = new_op token_id client_id (C_Unsubscribe token_id unsubscribe client_id) wire in
          and_then (insert_or_park pkid reinjected) (\<lambda>inserted.
          if inserted then ret (out @ [wire]) else ret out))
      | C_Ping \<Rightarrow> ret out
      | C_Disconnect \<Rightarrow> ret out)"

fun resend_loop :: "outgoing_op list \<Rightarrow> packet list \<Rightarrow> packet list state_op" where
  "resend_loop [] out = ret out"
| "resend_loop (op # ops) out = and_then (resend_one op out) (\<lambda>out. resend_loop ops out)"

definition resend_pending_on_reconnect :: "packet list state_op" where
  "resend_pending_on_reconnect =
     and_then (set_active True) (\<lambda>_.
     and_then (in_store (get pending)) (\<lambda>drained.
     and_then (in_store (modify (\<lambda>self. self\<lparr>pending := []\<rparr>))) (\<lambda>_.
     resend_loop drained [])))"

definition on_connection_restored :: "packet list state_op" where
  "on_connection_restored =
     and_then (set_active True) (\<lambda>_. resend_pending_on_reconnect)"

end
