(* ===== verification/State_Invariant.thy ===== *)
theory State_Invariant
  imports Runtime_State
begin

text \<open>
  The invariant of RuntimeState and the ledger of the operations it holds: what each internal
  step of the methods does to both.
\<close>

section \<open>Well-formed operations\<close>

text \<open>The packet id an operation is tracked under; a QoS 0 publish has none.\<close>

fun command_pkid :: "command \<Rightarrow> u16 option" where
  "command_pkid (C_Publish _ p _) = (if pub_qos p = AtMostOnce then None else Some (pub_pkid p))"
| "command_pkid (C_Subscribe _ s _) = Some (sub_pkid s)"
| "command_pkid (C_Unsubscribe _ u _) = Some (unsub_pkid u)"
| "command_pkid _ = None"

text \<open>The packet, token and client of an operation are those of its command.\<close>

fun op_matches :: "command \<Rightarrow> nat \<Rightarrow> nat \<Rightarrow> packet \<Rightarrow> bool" where
  "op_matches (C_Publish t p c) token client packet \<longleftrightarrow> token = t \<and> client = c \<and> packet = P_Publish p"
| "op_matches (C_Subscribe t s c) token client packet \<longleftrightarrow> token = t \<and> client = c \<and> packet = P_Subscribe s"
| "op_matches (C_Unsubscribe t u c) token client packet \<longleftrightarrow>
     token = t \<and> client = c \<and> packet = P_UnSubscribe u"
| "op_matches _ token client packet \<longleftrightarrow> False"

definition op_ok :: "outgoing_op \<Rightarrow> bool" where
  "op_ok op \<longleftrightarrow> op_matches (op_command op) (op_token_id op) (op_client_id op) (op_packet op) \<and>
     command_pkid (op_command op) \<noteq> Some 0"

definition op_carries :: "u16 \<Rightarrow> outgoing_op \<Rightarrow> bool" where
  "op_carries k op \<longleftrightarrow> op_ok op \<and> command_pkid (op_command op) = Some k"

lemma op_carries_ok: "op_carries k op \<Longrightarrow> op_ok op"
  by (simp add: op_carries_def)

lemma op_carries_nonzero: "op_carries k op \<Longrightarrow> k \<noteq> 0"
  by (auto simp: op_carries_def op_ok_def)

section \<open>The invariant\<close>

text \<open>
  The pool and the table agree on max_inflight, which is below 65,535; every slot and the collision
  hold an operation carrying their packet id; the pending list holds well-formed operations; an
  inactive state has nothing in flight.
\<close>

definition state_inv :: "runtime_state \<Rightarrow> bool" where
  "state_inv st \<longleftrightarrow>
     pool_inv (pkid_pool st) \<and>
     pool_max_inflight (pkid_pool st) = store_max_inflight (inflight st) \<and>
     store_max_inflight (inflight st) \<noteq> 0xFFFF \<and>
     store_inv (inflight st) \<and>
     (\<forall>k op. slot_of (inflight st) k = Some op \<longrightarrow> op_carries k op) \<and>
     (\<forall>k op. collision (inflight st) = Some (k, op) \<longrightarrow>
        op_carries k op \<and> unat k < length (outgoing (inflight st))) \<and>
     list_all op_ok (pending (inflight st)) \<and>
     (\<not> active st \<longrightarrow> held_ops (outgoing (inflight st)) = [] \<and> collision (inflight st) = None)"

lemma state_invD:
  assumes "state_inv st"
  shows "pool_inv (pkid_pool st)"
    "pool_max_inflight (pkid_pool st) = store_max_inflight (inflight st)"
    "store_max_inflight (inflight st) \<noteq> 0xFFFF"
    "store_inv (inflight st)"
    "slot_of (inflight st) k = Some op \<Longrightarrow> op_carries k op"
    "collision (inflight st) = Some (k, op) \<Longrightarrow> op_carries k op"
    "collision (inflight st) = Some (k, op) \<Longrightarrow> unat k < length (outgoing (inflight st))"
    "list_all op_ok (pending (inflight st))"
    "\<not> active st \<Longrightarrow> held_ops (outgoing (inflight st)) = []"
    "\<not> active st \<Longrightarrow> collision (inflight st) = None"
  using assms by (simp_all add: state_inv_def)

text \<open>The fields the invariant does not read.\<close>

lemma state_inv_simps [simp]:
  "state_inv (st\<lparr>await_pingresp := b\<rparr>) = state_inv st"
  "state_inv (st\<lparr>last_incoming := t\<rparr>) = state_inv st"
  "state_inv (st\<lparr>last_outgoing := t\<rparr>) = state_inv st"
  "state_inv (st\<lparr>ping_retry_count := n\<rparr>) = state_inv st"
  "state_inv (st\<lparr>inflight := (inflight st)\<lparr>last_ack := k\<rparr>\<rparr>) = state_inv st"
  by (simp_all add: state_inv_def)

lemma state_inv_active: "state_inv st \<Longrightarrow> state_inv (st\<lparr>active := True\<rparr>)"
  by (simp add: state_inv_def)

lemma inflight_update_same [simp]: "st\<lparr>inflight := inflight st\<rparr> = (st :: runtime_state)"
  by simp

lemma slot_of_inactive:
  assumes "held_ops (outgoing s) = []"
  shows "slot_of s k = None"
proof (rule ccontr)
  assume "slot_of s k \<noteq> None"
  then obtain op where "unat k < length (outgoing s)" "outgoing s ! unat k = Some op"
    by (auto simp: slot_of_Some_iff)
  then have "Some op \<in> set (outgoing s)" by (metis nth_mem)
  with assms show False by (auto simp: held_ops_Nil_iff)
qed

section \<open>The ledger\<close>

text \<open>The operations held anywhere, and their owners: client and token.\<close>

definition held_all :: "inflight_store \<Rightarrow> outgoing_op multiset" where
  "held_all s = mset (held_ops (outgoing s)) + mset (pending s) +
     mset_option (map_option snd (collision s))"

definition owner :: "outgoing_op \<Rightarrow> nat \<times> nat" where
  "owner op = (op_client_id op, op_token_id op)"

definition owners :: "runtime_state \<Rightarrow> (nat \<times> nat) multiset" where
  "owners st = image_mset owner (held_all (inflight st))"

lemma held_all_simps [simp]:
  "held_all (s\<lparr>last_ack := k\<rparr>) = held_all s"
  "held_all (s\<lparr>outgoing_rel := rs\<rparr>) = held_all s"
  "held_all (s\<lparr>incoming_pub := ps\<rparr>) = held_all s"
  "held_all (s\<lparr>pending := pending s @ [op]\<rparr>) = add_mset op (held_all s)"
  by (simp_all add: held_all_def)

lemma owner_new_op [simp]: "owner (new_op t c cmd p) = (c, t)"
  by (simp add: owner_def new_op_def)

section \<open>Internal steps\<close>

lemma in_store_simps:
  "in_store (get f) st = (Ok (f (inflight st)), st)"
  "in_store (modify g) st = (Ok (), st\<lparr>inflight := g (inflight st)\<rparr>)"
  by (simp_all add: in_store_def op_defs)

lemma in_store_run:
  "m (inflight st) = (r, s) \<Longrightarrow> in_store m st = (r, st\<lparr>inflight := s\<rparr>)"
  by (simp add: in_store_def on_field_def)

lemma push_pending_eq:
  "push_pending op st = (Ok (), st\<lparr>inflight := (inflight st)\<lparr>pending := pending (inflight st) @ [op]\<rparr>\<rparr>)"
  by (simp add: push_pending_def in_store_simps)

lemma assign_pkid_spec:
  assumes "state_inv st"
  shows "\<exists>k p. assign_pkid needed k0 st = (Ok k, st\<lparr>pkid_pool := p\<rparr>) \<and>
    state_inv (st\<lparr>pkid_pool := p\<rparr>) \<and> (needed \<longrightarrow> k \<noteq> 0) \<and> (\<not> needed \<or> k0 \<noteq> 0 \<longrightarrow> k = k0)"
proof (cases "needed \<and> k0 = 0")
  case True
  let ?p = "pkid_pool st"
  note i = state_invD [OF assms]
  have "last_pkid ?p \<noteq> 0xFFFF"
    using i(1,2,3) u16_ge_FFFF [of "pool_max_inflight ?p"] by (auto simp: pool_inv_def)
  then have "assign_pkid needed k0 st = (Ok (next_id ?p), st\<lparr>pkid_pool := ?p\<lparr>last_pkid := next_id ?p\<rparr>\<rparr>)"
    using True by (simp add: assign_pkid_def in_pool_def on_field_def next_candidate_eq)
  moreover have "state_inv (st\<lparr>pkid_pool := ?p\<lparr>last_pkid := next_id ?p\<rparr>\<rparr>)"
    using assms next_id_inv [OF i(1)] by (simp add: state_inv_def)
  ultimately show ?thesis using True next_id_range(3) [OF i(1)] by blast
next
  case False
  then have "assign_pkid needed k0 st = (Ok k0, st\<lparr>pkid_pool := pkid_pool st\<rparr>)"
    by (auto simp: assign_pkid_def ret_def)
  moreover have "state_inv (st\<lparr>pkid_pool := pkid_pool st\<rparr>)" using assms by simp
  ultimately show ?thesis using False by blast
qed

lemma insert_or_park_eq:
  "insert_or_park k op st =
     (let s = inflight st in
      if inflight_count s \<ge> store_max_inflight s \<or> length (outgoing s) \<le> unat k then
        (Ok False, if collision s = None then st\<lparr>inflight := s\<lparr>pending := pending s @ [op]\<rparr>\<rparr> else st)
      else if slot_of s k \<noteq> None then (Ok False, st\<lparr>inflight := s\<lparr>collision := Some (k, op)\<rparr>\<rparr>)
      else (Ok True, st\<lparr>inflight := with_slot k (Some op) (inflight_count s + 1) s\<rparr>))"
  by (simp add: insert_or_park_def in_store_def op_defs try_insert_eq Let_def push_pending_def)

lemma with_slot_simps [simp]:
  "pending (with_slot k x n s) = pending s"
  "collision (with_slot k x n s) = collision s"
  "store_max_inflight (with_slot k x n s) = store_max_inflight s"
  "inflight_count (with_slot k x n s) = n"
  "length (outgoing (with_slot k x n s)) = length (outgoing s)"
  "outgoing_rel (with_slot k x n s) = outgoing_rel s"
  "incoming_pub (with_slot k x n s) = incoming_pub s"
  "last_ack (with_slot k x n s) = last_ack s"
  by (simp_all add: with_slot_def)

text \<open>
  Inserting or parking keeps the invariant and never invents an operation; it loses none unless a
  collision was stored before.
\<close>

lemma insert_or_park_spec:
  assumes "state_inv st" "active st" "op_carries k op"
  shows "\<exists>b s. insert_or_park k op st = (Ok b, st\<lparr>inflight := s\<rparr>) \<and>
    state_inv (st\<lparr>inflight := s\<rparr>) \<and>
    held_all s \<subseteq># add_mset op (held_all (inflight st)) \<and>
    (collision (inflight st) = None \<longrightarrow> held_all s = add_mset op (held_all (inflight st)))"
proof -
  let ?s = "inflight st"
  note i = state_invD [OF assms(1)]
  consider (full) "inflight_count ?s \<ge> store_max_inflight ?s \<or> length (outgoing ?s) \<le> unat k"
    | (taken) "\<not> inflight_count ?s \<ge> store_max_inflight ?s" "unat k < length (outgoing ?s)" "slot_of ?s k \<noteq> None"
    | (free) "\<not> inflight_count ?s \<ge> store_max_inflight ?s" "unat k < length (outgoing ?s)" "slot_of ?s k = None"
    by fastforce
  then show ?thesis
  proof cases
    case full
    let ?t = "if collision ?s = None then ?s\<lparr>pending := pending ?s @ [op]\<rparr> else ?s"
    have "insert_or_park k op st = (Ok False, st\<lparr>inflight := ?t\<rparr>)"
      using full by (simp add: insert_or_park_eq Let_def)
    moreover have "state_inv (st\<lparr>inflight := ?t\<rparr>)"
      using assms by (simp add: state_inv_def op_carries_ok)
    moreover have "held_all ?t \<subseteq># add_mset op (held_all ?s)"
      "collision ?s = None \<longrightarrow> held_all ?t = add_mset op (held_all ?s)"
      by (simp_all add: subset_mset.add_increasing)
    ultimately show ?thesis by (intro exI conjI)
  next
    case taken
    let ?t = "?s\<lparr>collision := Some (k, op)\<rparr>"
    have "insert_or_park k op st = (Ok False, st\<lparr>inflight := ?t\<rparr>)"
      using taken by (simp add: insert_or_park_eq Let_def)
    moreover have "state_inv (st\<lparr>inflight := ?t\<rparr>)"
      using assms taken by (simp add: state_inv_def)
    moreover have "held_all ?t \<subseteq># add_mset op (held_all ?s)"
      "collision ?s = None \<longrightarrow> held_all ?t = add_mset op (held_all ?s)"
      by (simp_all add: held_all_def)
    ultimately show ?thesis by (intro exI conjI)
  next
    case free
    let ?t = "with_slot k (Some op) (inflight_count ?s + 1) ?s"
    note f = store_inv_fill [OF i(4) free, of op]
    have "insert_or_park k op st = (Ok True, st\<lparr>inflight := ?t\<rparr>)"
      using free by (simp add: insert_or_park_eq Let_def)
    moreover have "state_inv (st\<lparr>inflight := ?t\<rparr>)"
      using assms f(1) free(2) by (simp add: state_inv_def slot_of_with_slot)
    moreover have "held_all ?t = add_mset op (held_all ?s)"
      using f(2) by (simp add: held_all_def)
    ultimately show ?thesis by (metis subset_mset.order_refl)
  qed
qed

end
