(* ===== verification/State_Steps.thy ===== *)
theory State_Steps
  imports State_Invariant
begin

text \<open>
  Every method of RuntimeState in closed form on states of the invariant, and what it does to the
  invariant and to the ledger of owners.
\<close>

section \<open>Releasing and promoting\<close>

definition released :: "u16 \<Rightarrow> inflight_store \<Rightarrow> inflight_store" where
  "released k s = with_slot k None (inflight_count s - 1) (s\<lparr>last_ack := k\<rparr>)"

definition promote_store :: "u16 \<Rightarrow> inflight_store \<Rightarrow> inflight_store" where
  "promote_store k s =
     (case collision s of
        None \<Rightarrow> s
      | Some (k', op) \<Rightarrow>
          if k' = k then with_slot k (Some op) (inflight_count s + 1) (s\<lparr>collision := None\<rparr>) else s)"

definition promoted :: "u16 \<Rightarrow> inflight_store \<Rightarrow> packet option" where
  "promoted k s =
     (case collision s of
        None \<Rightarrow> None
      | Some (k', op) \<Rightarrow> if k' = k then Some (mark_publish_dup (op_packet op)) else None)"

lemma release_none:
  assumes "state_inv st" and "slot_of (inflight st) k = None"
  shows "in_store (release_ack k) st = (Ok None, st\<lparr>inflight := (inflight st)\<lparr>last_ack := k\<rparr>\<rparr>)"
  by (rule in_store_run) (simp add: release_ack_eq [OF state_invD(4) [OF assms(1)]] assms(2))

lemma release_some:
  assumes "state_inv st" and "slot_of (inflight st) k = Some op"
  shows "in_store (release_ack k) st = (Ok (Some op), st\<lparr>inflight := released k (inflight st)\<rparr>)"
  by (rule in_store_run)
    (simp add: release_ack_eq [OF state_invD(4) [OF assms(1)]] assms(2) released_def)

lemma released_spec:
  assumes "state_inv st" and "slot_of (inflight st) k = Some op"
  defines "s \<equiv> released k (inflight st)"
  shows "state_inv (st\<lparr>inflight := s\<rparr>)"
    and "held_all (inflight st) = add_mset op (held_all s)"
    and "slot_of s = (slot_of (inflight st))(k := None)"
    and "inflight_count s < store_max_inflight s"
    and "unat k < length (outgoing s)"
    and "active st"
    and "collision s = collision (inflight st)"
    and "pending s = pending (inflight st)"
proof -
  let ?cleared = "(inflight st)\<lparr>last_ack := k\<rparr>"
  note i = state_invD [OF assms(1)]
  have k: "unat k < length (outgoing ?cleared)" using assms(2) by (simp add: slot_of_Some_iff)
  note e = store_inv_empty [of ?cleared k op]
  have inv: "store_inv ?cleared" "slot_of ?cleared k = Some op" using i(4) assms(2) by simp_all
  show sl: "slot_of s = (slot_of (inflight st))(k := None)"
    using slot_of_with_slot [OF k] by (simp add: s_def released_def)
  show act: "active st"
    using i(9) slot_of_inactive [of "inflight st" k] assms(2) by auto
  show "collision s = collision (inflight st)" "pending s = pending (inflight st)"
    "unat k < length (outgoing s)"
    using k by (simp_all add: s_def released_def)
  show "inflight_count s < store_max_inflight s"
    using e(3) [OF inv] by (simp add: s_def released_def)
  have "store_inv s" using e(1) [OF inv] by (simp add: s_def released_def)
  then show "state_inv (st\<lparr>inflight := s\<rparr>)"
    using assms(1) act sl unfolding state_inv_def by (simp add: s_def released_def)
  show "held_all (inflight st) = add_mset op (held_all s)"
    using e(2) [OF inv] by (simp add: held_all_def s_def released_def)
qed

lemma promote_spec:
  assumes "state_inv st" and "slot_of (inflight st) k = None"
    and "inflight_count (inflight st) < store_max_inflight (inflight st)"
  shows "promote_collision k st = (Ok (promoted k (inflight st)), st\<lparr>inflight := promote_store k (inflight st)\<rparr>)"
    and "state_inv (st\<lparr>inflight := promote_store k (inflight st)\<rparr>)"
    and "held_all (promote_store k (inflight st)) = held_all (inflight st)"
proof -
  let ?s = "inflight st"
  note i = state_invD [OF assms(1)]
  have "promote_collision k st = (Ok (promoted k ?s), st\<lparr>inflight := promote_store k ?s\<rparr>) \<and>
    state_inv (st\<lparr>inflight := promote_store k ?s\<rparr>) \<and> held_all (promote_store k ?s) = held_all ?s"
  proof (cases "collision ?s")
    case None
    then show ?thesis
      using assms(1) by (simp add: promote_collision_def in_store_def op_defs promote_store_def promoted_def)
  next
    case (Some c)
    obtain k' op where c: "collision ?s = Some (k', op)" using Some by (cases c) auto
    show ?thesis
    proof (cases "k' = k")
      case False
      have "?s\<lparr>collision := Some (k', op)\<rparr> = ?s" using c by simp
      with c False assms(1) show ?thesis
        by (simp add: promote_collision_def in_store_def op_defs promote_store_def promoted_def)
    next
      case True
      let ?cleared = "?s\<lparr>collision := None\<rparr>"
      have h: "store_inv ?cleared" "\<not> inflight_count ?cleared \<ge> store_max_inflight ?cleared"
        "unat k < length (outgoing ?cleared)" "slot_of ?cleared k = None"
        using i(4) assms(2,3) i(7) [OF c] True by simp_all
      note f = store_inv_fill [OF h, of op]
      have act: "active st" using i(10) c by auto
      have t: "in_store (try_insert k op) (st\<lparr>inflight := ?cleared\<rparr>) =
          (Ok True, st\<lparr>inflight := with_slot k (Some op) (inflight_count ?s + 1) ?cleared\<rparr>)"
        using in_store_run [of "try_insert k op" "st\<lparr>inflight := ?cleared\<rparr>"] h by (simp add: try_insert_eq)
      have "promote_collision k st =
          (Ok (promoted k ?s), st\<lparr>inflight := promote_store k ?s\<rparr>)"
        using c True t
        by (simp add: promote_collision_def in_store_simps ret_def promote_store_def promoted_def Let_def)
      moreover have "state_inv (st\<lparr>inflight := promote_store k ?s\<rparr>)"
        using assms(1) act f(1) h(3) c True i(6) [OF c]
        unfolding state_inv_def by (simp add: promote_store_def slot_of_with_slot)
      moreover have "held_all (promote_store k ?s) = held_all ?s"
        using f(2) c True by (simp add: held_all_def promote_store_def)
      ultimately show ?thesis by (intro conjI)
    qed
  qed
  then show "promote_collision k st = (Ok (promoted k ?s), st\<lparr>inflight := promote_store k ?s\<rparr>)"
    "state_inv (st\<lparr>inflight := promote_store k ?s\<rparr>)"
    "held_all (promote_store k ?s) = held_all ?s" by simp_all
qed

section \<open>The ledger logic\<close>

text \<open>
  \<open>ledger g m d\<close>: from a state of the invariant, the method does not panic, keeps the invariant, and
  the owners held afterwards together with the ones its result reports (\<open>d\<close>) are among the owners
  held before together with the new ones (\<open>g\<close>).
\<close>

type_synonym owner_bag = "(nat \<times> nat) multiset"

definition reported :: "('a \<Rightarrow> owner_bag) \<Rightarrow> ('e, 'a) outcome \<Rightarrow> owner_bag" where
  "reported d r = (case r of Ok x \<Rightarrow> d x | _ \<Rightarrow> {#})"

lemma reported_simps [simp]:
  "reported d (Ok x) = d x" "reported d (Err e) = {#}" "reported d Panic = {#}"
  by (simp_all add: reported_def)

definition ledger :: "owner_bag \<Rightarrow> 'a state_op \<Rightarrow> ('a \<Rightarrow> owner_bag) \<Rightarrow> bool" where
  "ledger g m d \<longleftrightarrow>
     (\<forall>st r st'. state_inv st \<longrightarrow> m st = (r, st') \<longrightarrow>
        r \<noteq> Panic \<and> state_inv st' \<and> owners st' + reported d r \<subseteq># owners st + g)"

lemma ledgerI:
  assumes "\<And>st. state_inv st \<Longrightarrow> \<exists>r st'. m st = (r, st') \<and> r \<noteq> Panic \<and> state_inv st' \<and>
    owners st' + reported d r \<subseteq># owners st + g"
  shows "ledger g m d"
  using assms unfolding ledger_def by (metis prod.inject)

lemma ledgerD:
  assumes "ledger g m d" "state_inv st" "m st = (r, st')"
  shows "r \<noteq> Panic" "state_inv st'" "owners st' + reported d r \<subseteq># owners st + g"
  using assms by (auto simp: ledger_def)

lemma ledger_and_then:
  assumes m: "ledger g m d" and f: "\<And>x. ledger (d x) (f x) d'"
  shows "ledger g (and_then m f) d'"
proof (rule ledgerI)
  fix st assume st: "state_inv st"
  obtain r st1 where m1: "m st = (r, st1)" by (cases "m st")
  note 1 = ledgerD [OF m st m1]
  show "\<exists>r st'. and_then m f st = (r, st') \<and> r \<noteq> Panic \<and> state_inv st' \<and>
      owners st' + reported d' r \<subseteq># owners st + g"
  proof (cases r)
    case (Ok x)
    obtain r2 st2 where m2: "f x st1 = (r2, st2)" by (cases "f x st1")
    note 2 = ledgerD [OF f 1(2) m2]
    have "owners st2 + reported d' r2 \<subseteq># owners st + g"
      using 1(3) 2(3) Ok by (metis reported_simps(1) subset_mset.order_trans)
    with 2 m1 m2 Ok show ?thesis by (intro exI conjI) simp_all
  next
    case (Err e)
    have "and_then m f st = (Err e, st1)" using m1 Err by simp
    with 1 Err show ?thesis by auto
  next
    case Panic
    with 1 show ?thesis by simp
  qed
qed

lemma ledger_ret: "ledger (d x) (ret x) d"
  by (rule ledgerI) (simp add: ret_def)

lemma ledger_throw: "ledger g (throw e) d"
  by (rule ledgerI) (simp add: throw_def)

lemma ledger_modify:
  assumes "\<And>st. state_inv st \<Longrightarrow> state_inv (f st) \<and> owners (f st) \<subseteq># owners st"
  shows "ledger (d ()) (modify f) d"
  by (rule ledgerI) (use assms in \<open>simp add: modify_def\<close>)

lemma ledger_reported:
  "ledger g m d \<Longrightarrow> (\<And>x. d' x \<subseteq># d x) \<Longrightarrow> ledger g m d'"
  unfolding ledger_def reported_def
  by (fastforce split: outcome.splits intro: subset_mset.order_trans [OF subset_mset.add_left_mono])

lemma owners_time_simps [simp]:
  "owners (st\<lparr>await_pingresp := b\<rparr>) = owners st"
  "owners (st\<lparr>last_incoming := t\<rparr>) = owners st"
  "owners (st\<lparr>last_outgoing := t\<rparr>) = owners st"
  "owners (st\<lparr>active := b\<rparr>) = owners st"
  "owners (st\<lparr>pkid_pool := p\<rparr>) = owners st"
  by (simp_all add: owners_def)

section \<open>Acknowledgements\<close>

abbreviation set_inflight :: "runtime_state \<Rightarrow> inflight_store \<Rightarrow> runtime_state" where
  "set_inflight st s \<equiv> st\<lparr>inflight := s\<rparr>"

lemma after_release:
  assumes "state_inv st" and "slot_of (inflight st) k = Some op"
  defines "s \<equiv> released k (inflight st)"
  shows "promote_collision k (set_inflight st s) = (Ok (promoted k s), set_inflight st (promote_store k s))"
    and "state_inv (set_inflight st (promote_store k s))"
    and "held_all (inflight st) = add_mset op (held_all (promote_store k s))"
proof -
  note r = released_spec [OF assms(1,2), folded s_def]
  have "slot_of (inflight (set_inflight st s)) k = None"
    "inflight_count (inflight (set_inflight st s)) < store_max_inflight (inflight (set_inflight st s))"
    using r(3,4) by simp_all
  note p = promote_spec [OF r(1) this]
  show "promote_collision k (set_inflight st s) = (Ok (promoted k s), set_inflight st (promote_store k s))"
    "state_inv (set_inflight st (promote_store k s))"
    "held_all (inflight st) = add_mset op (held_all (promote_store k s))"
    using p r(2) by simp_all
qed

lemma on_puback_eq:
  assumes "state_inv st"
  shows "on_puback_checked k st =
    (case slot_of (inflight st) k of
       None \<Rightarrow> (Err (UnsolicitedAck k), set_inflight st ((inflight st)\<lparr>last_ack := k\<rparr>))
     | Some op \<Rightarrow>
         let s = released k (inflight st) in
         (Ok \<lparr>ar_client_id = op_client_id op, ar_completion = Done_PubAck (op_token_id op) k,
              ar_next_packet = promoted k s\<rparr>, set_inflight st (promote_store k s)))"
proof (cases "slot_of (inflight st) k")
  case None
  then show ?thesis using assms
    by (simp add: on_puback_checked_def release_none and_then_def lift_def)
next
  case (Some op)
  then show ?thesis using assms
    by (simp add: on_puback_checked_def release_some and_then_def lift_def ret_def Let_def
        after_release(1) [OF assms Some])
qed

lemma on_suback_eq:
  assumes "state_inv st"
  shows "on_suback_checked k st =
    (case slot_of (inflight st) k of
       None \<Rightarrow> (Err (UnsolicitedAck k), set_inflight st ((inflight st)\<lparr>last_ack := k\<rparr>))
     | Some op \<Rightarrow>
         ((case op_command op of
             C_Subscribe t s c \<Rightarrow> Ok \<lparr>sar_client_id = c, sar_token_id = t,
               sar_filters = sub_filters s, sar_completion = Done_SubAck t k\<rparr>
           | _ \<Rightarrow> Err InvalidCommand), set_inflight st (released k (inflight st))))"
proof (cases "slot_of (inflight st) k")
  case None
  then show ?thesis using assms
    by (simp add: on_suback_checked_def release_none and_then_def lift_def)
next
  case (Some op)
  then show ?thesis using assms
    by (simp add: on_suback_checked_def release_some and_then_def lift_def ret_def throw_def
        split: command.split)
qed

lemma on_unsuback_eq:
  assumes "state_inv st"
  shows "on_unsuback_checked k st =
    (case slot_of (inflight st) k of
       None \<Rightarrow> (Err (UnsolicitedAck k), set_inflight st ((inflight st)\<lparr>last_ack := k\<rparr>))
     | Some op \<Rightarrow>
         ((case op_command op of
             C_Unsubscribe t u c \<Rightarrow> Ok \<lparr>uar_client_id = c, uar_token_id = t,
               uar_filters = unsub_filters u, uar_completion = Done_UnsubAck t k\<rparr>
           | _ \<Rightarrow> Err InvalidCommand), set_inflight st (released k (inflight st))))"
proof (cases "slot_of (inflight st) k")
  case None
  then show ?thesis using assms
    by (simp add: on_unsuback_checked_def release_none and_then_def lift_def)
next
  case (Some op)
  then show ?thesis using assms
    by (simp add: on_unsuback_checked_def release_some and_then_def lift_def ret_def throw_def
        split: command.split)
qed

lemma idx_eq:
  "idx k st = (if k = 0 \<or> length (outgoing (inflight st)) \<le> unat k
     then (Err (PacketIdOutOfRange k), st) else (Ok (unat k), st))"
  by (simp add: idx_def op_defs Let_def)

definition known_id :: "u16 \<Rightarrow> inflight_store \<Rightarrow> bool" where
  "known_id k s \<longleftrightarrow> k \<noteq> 0 \<and> unat k < length (outgoing s)"

lemma idx_known: "idx k st = (if known_id k (inflight st) then (Ok (unat k), st) else (Err (PacketIdOutOfRange k), st))"
  by (auto simp: idx_eq known_id_def)

lemma store_lengths:
  assumes "state_inv st"
  shows "length (outgoing_rel (inflight st)) = length (outgoing (inflight st))"
    "length (incoming_pub (inflight st)) = length (outgoing (inflight st))"
  using state_invD(4) [OF assms] by (simp_all add: store_inv_def)

definition set_rel :: "u16 \<Rightarrow> bool \<Rightarrow> inflight_store \<Rightarrow> inflight_store" where
  "set_rel k b s = s\<lparr>outgoing_rel := (outgoing_rel s)[unat k := b]\<rparr>"

definition set_seen :: "u16 \<Rightarrow> bool \<Rightarrow> inflight_store \<Rightarrow> inflight_store" where
  "set_seen k b s = s\<lparr>incoming_pub := (incoming_pub s)[unat k := b]\<rparr>"

lemma flag_simps [simp]:
  "held_all (set_rel k b s) = held_all s" "held_all (set_seen k b s) = held_all s"
  "slot_of (set_rel k b s) = slot_of s" "slot_of (set_seen k b s) = slot_of s"
  "collision (set_rel k b s) = collision s" "collision (set_seen k b s) = collision s"
  "outgoing (set_rel k b s) = outgoing s" "outgoing (set_seen k b s) = outgoing s"
  "pending (set_rel k b s) = pending s" "pending (set_seen k b s) = pending s"
  "store_max_inflight (set_rel k b s) = store_max_inflight s"
  "store_max_inflight (set_seen k b s) = store_max_inflight s"
  by (simp_all add: set_rel_def set_seen_def)

lemma state_inv_flags [simp]:
  assumes "state_inv st"
  shows "state_inv (set_inflight st (set_rel k b (inflight st)))"
    "state_inv (set_inflight st (set_seen k b (inflight st)))"
  using assms by (auto simp: state_inv_def store_inv_def set_rel_def set_seen_def)

lemma known_slot_of: "known_id k s \<Longrightarrow> outgoing s ! unat k = slot_of s k"
  by (simp add: known_id_def slot_of_def get_mut_def)

lemma on_pubrec_eq:
  assumes "state_inv st"
  shows "on_pubrec_checked k st =
    (if \<not> known_id k (inflight st) then (Err (PacketIdOutOfRange k), st)
     else if slot_of (inflight st) k = None then (Err (UnsolicitedPubRec k), st)
     else (Ok (P_PubRel \<lparr>pubrel_pkid = k\<rparr>), set_inflight st (set_rel k True (inflight st))))"
proof (cases "known_id k (inflight st)")
  case True
  then have "unat k < length (outgoing (inflight st))" by (simp add: known_id_def)
  with True store_lengths [OF assms] known_slot_of [OF True] show ?thesis
    by (simp add: on_pubrec_checked_def idx_known and_then_def in_store_simps lift_def throw_def ret_def
        index_def store_def set_rel_def)
qed (simp add: on_pubrec_checked_def idx_known and_then_def)

lemma on_incoming_qos2_eq:
  assumes "state_inv st"
  shows "on_incoming_qos2_publish_checked k st =
    (if \<not> known_id k (inflight st) then (Err (PacketIdOutOfRange k), st)
     else if incoming_pub (inflight st) ! unat k then (Ok (Duplicate (P_PubRec \<lparr>pubrec_pkid = k\<rparr>)), st)
     else (Ok (FirstSeen (P_PubRec \<lparr>pubrec_pkid = k\<rparr>)), set_inflight st (set_seen k True (inflight st))))"
proof (cases "known_id k (inflight st)")
  case True
  then have "unat k < length (outgoing (inflight st))" by (simp add: known_id_def)
  with True store_lengths [OF assms] show ?thesis
    by (simp add: on_incoming_qos2_publish_checked_def idx_known and_then_def in_store_simps lift_def
        ret_def index_def store_def set_seen_def Let_def)
qed (simp add: on_incoming_qos2_publish_checked_def idx_known and_then_def)

lemma on_incoming_pubrel_eq:
  assumes "state_inv st"
  shows "on_incoming_pubrel_checked k st =
    (if \<not> known_id k (inflight st) then (Err (PacketIdOutOfRange k), st)
     else if incoming_pub (inflight st) ! unat k
       then (Ok (P_PubComp \<lparr>pubcomp_pkid = k\<rparr>), set_inflight st (set_seen k False (inflight st)))
     else (Err (UnsolicitedPubRel k), st))"
proof (cases "known_id k (inflight st)")
  case True
  then have "unat k < length (outgoing (inflight st))" by (simp add: known_id_def)
  with True store_lengths [OF assms] show ?thesis
    by (simp add: on_incoming_pubrel_checked_def idx_known and_then_def in_store_simps lift_def
        ret_def throw_def index_def store_def set_seen_def)
qed (simp add: on_incoming_pubrel_checked_def idx_known and_then_def)

lemma on_pubcomp_eq:
  assumes "state_inv st"
  shows "on_pubcomp_checked k st =
    (if \<not> known_id k (inflight st) then (Err (PacketIdOutOfRange k), st)
     else if \<not> outgoing_rel (inflight st) ! unat k then (Err (UnsolicitedPubComp k), st)
     else case slot_of (inflight st) k of
       None \<Rightarrow> (Err (UnsolicitedPubComp k), st)
     | Some op \<Rightarrow>
         let s = released k (set_rel k False (inflight st)) in
         (Ok \<lparr>ar_client_id = op_client_id op, ar_completion = Done_PubComp (op_token_id op) k,
              ar_next_packet = promoted k s\<rparr>, set_inflight st (promote_store k s)))"
proof (cases "known_id k (inflight st)")
  case True
  then have k: "unat k < length (outgoing (inflight st))" by (simp add: known_id_def)
  note l = store_lengths [OF assms] known_slot_of [OF True]
  show ?thesis
  proof (cases "outgoing_rel (inflight st) ! unat k \<and> slot_of (inflight st) k \<noteq> None")
    case False
    with True k l show ?thesis
      by (auto simp: on_pubcomp_checked_def idx_known and_then_def in_store_simps lift_def
          ret_def throw_def index_def split: option.split)
  next
    case rel: True
    then obtain op where op: "slot_of (inflight st) k = Some op" by auto
    let ?st = "set_inflight st (set_rel k False (inflight st))"
    have inv: "state_inv ?st" and op': "slot_of (inflight ?st) k = Some op"
      using assms op by simp_all
    have "in_store (modify (\<lambda>self. self\<lparr>outgoing_rel := (outgoing_rel (inflight st))[unat k := False]\<rparr>)) st =
      (Ok (), ?st)" by (simp add: in_store_simps set_rel_def)
    with rel True k l op show ?thesis
      using release_some [OF inv op'] after_release(1) [OF inv op']
      by (simp add: on_pubcomp_checked_def idx_known and_then_def in_store_simps(1) lift_def
          ret_def index_def store_def Let_def)
  qed
qed (simp add: on_pubcomp_checked_def idx_known and_then_def)

end
