(* ===== verification/State_Ledger.thy ===== *)
theory State_Ledger
  imports State_Steps
begin

text \<open>
  The remaining methods of RuntimeState in closed form (tick, connection loss), the command handlers
  and the replay loop, and the ledger fact of every method.
\<close>

section \<open>Ledger facts of the acknowledgements\<close>

definition ack_owner :: "ack_result \<Rightarrow> owner_bag" where
  "ack_owner r = {#(ar_client_id r, completion_token (ar_completion r))#}"

definition suback_owner :: "subscribe_ack_result \<Rightarrow> owner_bag" where
  "suback_owner r = {#(sar_client_id r, completion_token (sar_completion r))#}"

definition unsuback_owner :: "unsubscribe_ack_result \<Rightarrow> owner_bag" where
  "unsuback_owner r = {#(uar_client_id r, completion_token (uar_completion r))#}"

lemma state_inv_last_ack:
  "state_inv st \<Longrightarrow> state_inv (set_inflight st ((inflight st)\<lparr>last_ack := k\<rparr>))"
  by simp

lemma ledger_on_puback: "ledger {#} (on_puback_checked k) ack_owner"
proof (rule ledgerI)
  fix st assume st: "state_inv st"
  show "\<exists>r st'. on_puback_checked k st = (r, st') \<and> r \<noteq> Panic \<and> state_inv st' \<and>
      owners st' + reported ack_owner r \<subseteq># owners st + {#}"
  proof (cases "slot_of (inflight st) k")
    case None
    then show ?thesis using st by (simp add: on_puback_eq owners_def)
  next
    case (Some op)
    then show ?thesis using after_release [OF st Some] st
      by (simp add: on_puback_eq Let_def owners_def ack_owner_def owner_def)
  qed
qed

lemma ledger_on_pubcomp: "ledger {#} (on_pubcomp_checked k) ack_owner"
proof (rule ledgerI)
  fix st assume st: "state_inv st"
  let ?st = "set_inflight st (set_rel k False (inflight st))"
  have inv: "state_inv ?st" using st by simp
  have "slot_of (inflight ?st) k = slot_of (inflight st) k" by simp
  then show "\<exists>r st'. on_pubcomp_checked k st = (r, st') \<and> r \<noteq> Panic \<and> state_inv st' \<and>
      owners st' + reported ack_owner r \<subseteq># owners st + {#}"
    using after_release [OF inv] st
    by (auto simp: on_pubcomp_eq Let_def owners_def ack_owner_def owner_def split: option.split)
qed

lemma op_ok_owner:
  assumes "op_ok op"
  shows "op_command op = C_Subscribe t s c \<Longrightarrow> owner op = (c, t)"
    and "op_command op = C_Unsubscribe t u c \<Longrightarrow> owner op = (c, t)"
    and "op_command op = C_Publish t p c \<Longrightarrow> owner op = (c, t)"
  using assms by (auto simp: op_ok_def owner_def)

lemma released_owners:
  assumes "state_inv st" and "slot_of (inflight st) k = Some op"
  shows "owners st = add_mset (owner op) (owners (set_inflight st (released k (inflight st))))"
  using released_spec(2) [OF assms] by (simp add: owners_def)

lemma ledger_on_suback: "ledger {#} (on_suback_checked k) suback_owner"
proof (rule ledgerI)
  fix st assume st: "state_inv st"
  show "\<exists>r st'. on_suback_checked k st = (r, st') \<and> r \<noteq> Panic \<and> state_inv st' \<and>
      owners st' + reported suback_owner r \<subseteq># owners st + {#}"
  proof (cases "slot_of (inflight st) k")
    case None
    then show ?thesis using st by (simp add: on_suback_eq owners_def)
  next
    case (Some op)
    have ok: "op_ok op" using state_invD(5) [OF st Some] by (rule op_carries_ok)
    show ?thesis
      using released_spec(1) [OF st Some] released_owners [OF st Some] op_ok_owner [OF ok] Some st
      by (simp add: on_suback_eq suback_owner_def split: command.split)
  qed
qed

lemma ledger_on_unsuback: "ledger {#} (on_unsuback_checked k) unsuback_owner"
proof (rule ledgerI)
  fix st assume st: "state_inv st"
  show "\<exists>r st'. on_unsuback_checked k st = (r, st') \<and> r \<noteq> Panic \<and> state_inv st' \<and>
      owners st' + reported unsuback_owner r \<subseteq># owners st + {#}"
  proof (cases "slot_of (inflight st) k")
    case None
    then show ?thesis using st by (simp add: on_unsuback_eq owners_def)
  next
    case (Some op)
    have ok: "op_ok op" using state_invD(5) [OF st Some] by (rule op_carries_ok)
    show ?thesis
      using released_spec(1) [OF st Some] released_owners [OF st Some] op_ok_owner [OF ok] Some st
      by (simp add: on_unsuback_eq unsuback_owner_def split: command.split)
  qed
qed

definition no_owner :: "'a \<Rightarrow> owner_bag" where
  "no_owner x = {#}"

lemma no_owner_simp [simp]: "no_owner x = {#}"
  by (simp add: no_owner_def)

lemma ledger_on_pubrec: "ledger {#} (on_pubrec_checked k) no_owner"
  by (rule ledgerI) (simp add: on_pubrec_eq owners_def)

lemma ledger_on_incoming_qos2: "ledger {#} (on_incoming_qos2_publish_checked k) no_owner"
  by (rule ledgerI) (simp add: on_incoming_qos2_eq owners_def)

lemma ledger_on_incoming_pubrel: "ledger {#} (on_incoming_pubrel_checked k) no_owner"
  by (rule ledgerI) (simp add: on_incoming_pubrel_eq owners_def)

section \<open>Tick\<close>

lemma on_tick_eq:
  "on_tick now st =
    (if \<not> active st then (Ok None, st)
     else if await_pingresp st \<and> keep_alive st \<le> now - last_outgoing st then (Err AwaitPingRespTimeout, st)
     else if keep_alive st \<le> now - max (last_incoming st) (last_outgoing st)
       then (Ok (Some P_PingReq), st\<lparr>await_pingresp := True, last_outgoing := now\<rparr>)
     else (Ok None, st))"
  by (simp add: on_tick_def op_defs)

lemma ledger_on_tick: "ledger {#} (on_tick now) no_owner"
  by (rule ledgerI) (simp add: on_tick_eq)

lemma ledger_on_pingresp: "ledger {#} (on_pingresp now) no_owner"
  by (rule ledgerI) (simp add: on_pingresp_def op_defs)

lemma ledger_notes:
  "ledger {#} (note_incoming_activity now) no_owner"
  "ledger {#} (note_outgoing_activity now) no_owner"
  by (rule ledgerI, simp add: note_incoming_activity_def note_outgoing_activity_def modify_def)+

section \<open>Losing the connection\<close>

lemma take_slots_eq: "take_slots slots parked = (replicate (length slots) None, parked @ held_ops slots)"
proof (induction slots arbitrary: parked)
  case (Cons slot slots)
  then show ?case by (cases slot) simp_all
qed simp

definition lost_store :: "bool \<Rightarrow> inflight_store \<Rightarrow> inflight_store" where
  "lost_store clean s =
     (let s = s\<lparr>outgoing := replicate (length (outgoing s)) None,
                pending := pending s @ held_ops (outgoing s) @
                  (case collision s of Some (_, op) \<Rightarrow> [op] | None \<Rightarrow> []),
                collision := None, inflight_count := 0\<rparr>
      in if clean then
           s\<lparr>last_ack := 0, outgoing_rel := replicate (length (outgoing_rel s)) False,
             incoming_pub := replicate (length (incoming_pub s)) False\<rparr>
         else s)"

definition lost :: "bool \<Rightarrow> runtime_state \<Rightarrow> runtime_state" where
  "lost clean st =
     st\<lparr>active := False, await_pingresp := False, ping_retry_count := 0,
        inflight := lost_store clean (inflight st),
        pkid_pool := (if clean then (pkid_pool st)\<lparr>last_pkid := 0\<rparr> else pkid_pool st)\<rparr>"

lemma on_connection_lost_eq: "on_connection_lost clean st = (Ok (), lost clean st)"
proof -
  have "(case collision s of None \<Rightarrow> s\<lparr>outgoing := o', pending := ps\<rparr>
      | Some (_, op) \<Rightarrow> s\<lparr>outgoing := o', pending := ps @ [op], collision := None\<rparr>) =
    s\<lparr>outgoing := o', pending := ps @ (case collision s of Some (_, op) \<Rightarrow> [op] | None \<Rightarrow> []),
      collision := None\<rparr>" for s :: inflight_store and o' ps
    by (cases s) (auto split: option.split)
  then show ?thesis
    by (cases "collision (inflight st)")
      (auto simp: on_connection_lost_def in_store_simps in_pool_def reset_pool_def op_defs
        take_slots_eq lost_def lost_store_def Let_def)
qed

lemma held_all_lost [simp]: "held_all (lost_store clean s) = held_all s"
  by (simp add: held_all_def lost_store_def Let_def split: option.split)

lemma held_ops_ok:
  assumes "state_inv st" "op \<in> set (held_ops (outgoing (inflight st)))"
  shows "op_ok op"
proof -
  have "Some op \<in> set (outgoing (inflight st))" using assms(2) by (simp add: in_held_ops_iff)
  then obtain i where i: "i < length (outgoing (inflight st))" "outgoing (inflight st) ! i = Some op"
    by (auto simp: in_set_conv_nth)
  have "length (outgoing (inflight st)) \<le> 65536"
    using state_invD(4) [OF assms(1)] u16_bound [of "store_max_inflight (inflight st)"]
    by (simp add: store_inv_def)
  with i(1) have "unat (word_of_nat i :: u16) = i" by (intro unat_word_of_nat_u16) simp
  with i have "slot_of (inflight st) (word_of_nat i) = Some op" by (simp add: slot_of_Some_iff)
  then show ?thesis using state_invD(5) [OF assms(1)] op_carries_ok by blast
qed

lemma state_inv_lost:
  assumes "state_inv st"
  shows "state_inv (lost clean st)"
proof -
  note i = state_invD [OF assms]
  have p: "list_all op_ok (pending (lost_store clean (inflight st)))"
    using i(8) held_ops_ok [OF assms] i(6) op_carries_ok
    by (cases "collision (inflight st)") (auto simp: lost_store_def Let_def list_all_iff)
  have s: "slot_of (lost_store clean (inflight st)) k = None" for k
    by (simp add: slot_of_def get_mut_def lost_store_def Let_def)
  have "store_inv (lost_store clean (inflight st))"
    using i(4) by (simp add: store_inv_def lost_store_def Let_def)
  moreover have "collision (lost_store clean (inflight st)) = None"
    "held_ops (outgoing (lost_store clean (inflight st))) = []"
    "store_max_inflight (lost_store clean (inflight st)) = store_max_inflight (inflight st)"
    by (simp_all add: lost_store_def Let_def)
  ultimately show ?thesis
    using i(1,2,3) p s unfolding state_inv_def lost_def by (simp add: pool_inv_def)
qed

lemma owners_lost: "owners (lost clean st) = owners st"
  by (simp add: owners_def lost_def)

lemma ledger_on_connection_lost: "ledger {#} (on_connection_lost clean) no_owner"
  by (rule ledgerI) (simp add: on_connection_lost_eq state_inv_lost owners_lost)

section \<open>Commands\<close>

text \<open>
  The common shape of the three command handlers and of the three arms of the replay loop:
  \<open>mk k\<close> is the operation and \<open>wire k\<close> the packet under packet id \<open>k\<close>.
\<close>

definition submit :: "bool \<Rightarrow> u16 \<Rightarrow> (u16 \<Rightarrow> outgoing_op) \<Rightarrow> (u16 \<Rightarrow> packet) \<Rightarrow> packet option state_op" where
  "submit tracked k0 mk wire =
     and_then (assign_pkid tracked k0) (\<lambda>k.
     and_then (get active) (\<lambda>is_active.
     if \<not> is_active then and_then (push_pending (mk k)) (\<lambda>_. ret None)
     else if tracked then
       and_then (insert_or_park k (mk k)) (\<lambda>b. if b then ret (Some (wire k)) else ret None)
     else ret (Some (wire k))))"

definition resubmit ::
  "bool \<Rightarrow> u16 \<Rightarrow> (u16 \<Rightarrow> outgoing_op) \<Rightarrow> (u16 \<Rightarrow> packet) \<Rightarrow> packet list \<Rightarrow> packet list state_op" where
  "resubmit tracked k0 mk wire out =
     and_then (assign_pkid tracked k0) (\<lambda>k.
     if tracked then
       and_then (insert_or_park k (mk k)) (\<lambda>b. if b then ret (out @ [wire k]) else ret out)
     else ret (out @ [wire k]))"

definition publish_op :: "nat \<Rightarrow> publish \<Rightarrow> nat \<Rightarrow> outgoing_op" where
  "publish_op t p c = new_op t c (C_Publish t p c) (P_Publish p)"

definition subscribe_op :: "nat \<Rightarrow> subscribe \<Rightarrow> nat \<Rightarrow> outgoing_op" where
  "subscribe_op t s c = new_op t c (C_Subscribe t s c) (P_Subscribe s)"

definition unsubscribe_op :: "nat \<Rightarrow> unsubscribe \<Rightarrow> nat \<Rightarrow> outgoing_op" where
  "unsubscribe_op t u c = new_op t c (C_Unsubscribe t u c) (P_UnSubscribe u)"

lemma on_command_submit:
  "on_command_publish (C_Publish t p c) =
     submit (pub_qos p \<noteq> AtMostOnce) (pub_pkid p)
       (\<lambda>k. publish_op t (p\<lparr>pub_pkid := k\<rparr>) c) (\<lambda>k. P_Publish (p\<lparr>pub_pkid := k\<rparr>))"
  "on_command_subscribe (C_Subscribe t s c) =
     submit True (sub_pkid s)
       (\<lambda>k. subscribe_op t (s\<lparr>sub_pkid := k\<rparr>) c) (\<lambda>k. P_Subscribe (s\<lparr>sub_pkid := k\<rparr>))"
  "on_command_unsubscribe (C_Unsubscribe t u c) =
     submit True (unsub_pkid u)
       (\<lambda>k. unsubscribe_op t (u\<lparr>unsub_pkid := k\<rparr>) c) (\<lambda>k. P_UnSubscribe (u\<lparr>unsub_pkid := k\<rparr>))"
  by (simp_all add: on_command_publish_def on_command_subscribe_def on_command_unsubscribe_def
      submit_def publish_op_def subscribe_op_def unsubscribe_op_def Let_def cong del: if_weak_cong)

lemma ops_carry:
  "k \<noteq> 0 \<Longrightarrow> pub_qos p \<noteq> AtMostOnce \<Longrightarrow> pub_pkid p = k \<Longrightarrow> op_carries k (publish_op t p c)"
  "k \<noteq> 0 \<Longrightarrow> op_carries k (subscribe_op t (s\<lparr>sub_pkid := k\<rparr>) c)"
  "k \<noteq> 0 \<Longrightarrow> op_carries k (unsubscribe_op t (u\<lparr>unsub_pkid := k\<rparr>) c)"
  "pub_qos p = AtMostOnce \<Longrightarrow> op_ok (publish_op t p c)"
  by (simp_all add: op_carries_def op_ok_def publish_op_def subscribe_op_def unsubscribe_op_def new_op_def)

lemma owner_ops [simp]:
  "owner (publish_op t p c) = (c, t)"
  "owner (subscribe_op t s c) = (c, t)"
  "owner (unsubscribe_op t u c) = (c, t)"
  by (simp_all add: publish_op_def subscribe_op_def unsubscribe_op_def)

lemma ops_packet [simp]:
  "op_packet (publish_op t p c) = P_Publish p" "op_packet (subscribe_op t sub c) = P_Subscribe sub"
  "op_packet (unsubscribe_op t u c) = P_UnSubscribe u"
  by (simp_all add: publish_op_def subscribe_op_def unsubscribe_op_def new_op_def)

lemma park_spec:
  assumes "state_inv st" "\<not> active st" "op_ok op"
  shows "state_inv (set_inflight st ((inflight st)\<lparr>pending := pending (inflight st) @ [op]\<rparr>))"
    "owners (set_inflight st ((inflight st)\<lparr>pending := pending (inflight st) @ [op]\<rparr>)) =
       add_mset (owner op) (owners st)"
  using assms by (simp_all add: state_inv_def owners_def)

text \<open>A tracked operation on an active state.\<close>

lemma track_spec:
  assumes st: "state_inv st" "active st" and c: "\<And>k. k \<noteq> 0 \<Longrightarrow> op_carries k (mk k)"
    and o: "\<And>k. owner (mk k) = ow"
  shows "\<exists>k p b s. assign_pkid True k0 st = (Ok k, st\<lparr>pkid_pool := p\<rparr>) \<and>
    insert_or_park k (mk k) (st\<lparr>pkid_pool := p\<rparr>) = (Ok b, st\<lparr>pkid_pool := p, inflight := s\<rparr>) \<and>
    state_inv (st\<lparr>pkid_pool := p, inflight := s\<rparr>) \<and>
    owners (st\<lparr>pkid_pool := p, inflight := s\<rparr>) \<subseteq># add_mset ow (owners st)"
proof -
  from assign_pkid_spec [OF st(1), of True k0] obtain k p where
    a: "assign_pkid True k0 st = (Ok k, st\<lparr>pkid_pool := p\<rparr>)" "state_inv (st\<lparr>pkid_pool := p\<rparr>)" "k \<noteq> 0"
    by blast
  have "active (st\<lparr>pkid_pool := p\<rparr>)" using st(2) by simp
  from insert_or_park_spec [OF a(2) this c [OF a(3)]] obtain b s where
    i: "insert_or_park k (mk k) (st\<lparr>pkid_pool := p\<rparr>) = (Ok b, st\<lparr>pkid_pool := p, inflight := s\<rparr>)"
      "state_inv (st\<lparr>pkid_pool := p, inflight := s\<rparr>)"
      "held_all s \<subseteq># add_mset (mk k) (held_all (inflight st))"
    by auto
  have "owners (st\<lparr>pkid_pool := p, inflight := s\<rparr>) \<subseteq># add_mset ow (owners st)"
    using image_mset_subseteq_mono [OF i(3), of owner] o by (simp add: owners_def)
  with a i show ?thesis by blast
qed

lemma ledger_submit:
  assumes c: "\<And>k. tracked \<Longrightarrow> k \<noteq> 0 \<Longrightarrow> op_carries k (mk k)" and u: "\<not> tracked \<Longrightarrow> op_ok (mk k0)"
    and o: "\<And>k. owner (mk k) = ow"
  shows "ledger {#ow#} (submit tracked k0 mk wire) no_owner"
proof (rule ledgerI)
  fix st assume st: "state_inv st"
  show "\<exists>r st'. submit tracked k0 mk wire st = (r, st') \<and> r \<noteq> Panic \<and> state_inv st' \<and>
      owners st' + reported no_owner r \<subseteq># owners st + {#ow#}"
  proof (cases "active st \<and> tracked")
    case True
    with track_spec [OF st _ c o, of k0] obtain k p b s where
      t: "assign_pkid True k0 st = (Ok k, st\<lparr>pkid_pool := p\<rparr>)"
        "insert_or_park k (mk k) (st\<lparr>pkid_pool := p\<rparr>) = (Ok b, st\<lparr>pkid_pool := p, inflight := s\<rparr>)"
        "state_inv (st\<lparr>pkid_pool := p, inflight := s\<rparr>)"
        "owners (st\<lparr>pkid_pool := p, inflight := s\<rparr>) \<subseteq># add_mset ow (owners st)" by blast
    then show ?thesis using True by (simp add: submit_def get_def ret_def)
  next
    case False
    from assign_pkid_spec [OF st, of tracked k0] obtain k p where
      a: "assign_pkid tracked k0 st = (Ok k, st\<lparr>pkid_pool := p\<rparr>)" "state_inv (st\<lparr>pkid_pool := p\<rparr>)"
        "tracked \<longrightarrow> k \<noteq> 0" "\<not> tracked \<longrightarrow> k = k0" by blast
    show ?thesis
    proof (cases "active st")
      case True
      then show ?thesis using a False by (simp add: submit_def get_def ret_def)
    next
      case inactive: False
      have ok: "op_ok (mk k)" using a(3,4) c u op_carries_ok by blast
      have "\<not> active (st\<lparr>pkid_pool := p\<rparr>)" using inactive by simp
      from park_spec [OF a(2) this ok] a(1) inactive o show ?thesis
        by (simp add: submit_def get_def ret_def push_pending_eq)
    qed
  qed
qed

lemma ledger_on_command:
  "ledger {#(c, t)#} (on_command_publish (C_Publish t p c)) no_owner"
  "ledger {#(c, t)#} (on_command_subscribe (C_Subscribe t s c)) no_owner"
  "ledger {#(c, t)#} (on_command_unsubscribe (C_Unsubscribe t u c)) no_owner"
  unfolding on_command_submit
  by (rule ledger_submit; simp add: ops_carry)+

section \<open>Replay\<close>

lemma resend_one_resubmit:
  "op_command op = C_Publish t p c \<Longrightarrow> resend_one op out =
     resubmit (pub_qos p \<noteq> AtMostOnce) (pub_pkid p)
       (\<lambda>k. publish_op t (if pub_qos p \<noteq> AtMostOnce then p\<lparr>pub_pkid := k, pub_dup := True\<rparr> else p) c)
       (\<lambda>k. P_Publish (if pub_qos p \<noteq> AtMostOnce then p\<lparr>pub_pkid := k, pub_dup := True\<rparr> else p)) out"
  "op_command op = C_Subscribe t s c \<Longrightarrow> resend_one op out =
     resubmit True (sub_pkid s)
       (\<lambda>k. subscribe_op t (s\<lparr>sub_pkid := k\<rparr>) c) (\<lambda>k. P_Subscribe (s\<lparr>sub_pkid := k\<rparr>)) out"
  "op_command op = C_Unsubscribe t u c \<Longrightarrow> resend_one op out =
     resubmit True (unsub_pkid u)
       (\<lambda>k. unsubscribe_op t (u\<lparr>unsub_pkid := k\<rparr>) c) (\<lambda>k. P_UnSubscribe (u\<lparr>unsub_pkid := k\<rparr>)) out"
  by (simp_all add: resend_one_def resubmit_def publish_op_def subscribe_op_def unsubscribe_op_def Let_def
      cong del: if_weak_cong)

lemma resubmit_spec:
  assumes st: "state_inv st" "active st" and c: "\<And>k. tracked \<Longrightarrow> k \<noteq> 0 \<Longrightarrow> op_carries k (mk k)"
    and o: "\<And>k. owner (mk k) = ow"
  shows "\<exists>out' st'. resubmit tracked k0 mk wire out st = (Ok out', st') \<and> state_inv st' \<and> active st' \<and>
    owners st' \<subseteq># add_mset ow (owners st)"
proof (cases tracked)
  case True
  with track_spec [OF st c o, of k0] obtain k p b s where
    t: "assign_pkid True k0 st = (Ok k, st\<lparr>pkid_pool := p\<rparr>)"
      "insert_or_park k (mk k) (st\<lparr>pkid_pool := p\<rparr>) = (Ok b, st\<lparr>pkid_pool := p, inflight := s\<rparr>)"
      "state_inv (st\<lparr>pkid_pool := p, inflight := s\<rparr>)"
      "owners (st\<lparr>pkid_pool := p, inflight := s\<rparr>) \<subseteq># add_mset ow (owners st)" by blast
  then show ?thesis using True st(2) by (simp add: resubmit_def ret_def)
next
  case False
  from assign_pkid_spec [OF st(1), of tracked k0] obtain k p where
    "assign_pkid tracked k0 st = (Ok k, st\<lparr>pkid_pool := p\<rparr>)" "state_inv (st\<lparr>pkid_pool := p\<rparr>)" by blast
  then show ?thesis using False st(2) by (simp add: resubmit_def ret_def)
qed

lemma resend_one_spec:
  assumes st: "state_inv st" "active st" and ok: "op_ok op"
  shows "\<exists>out' st'. resend_one op out st = (Ok out', st') \<and> state_inv st' \<and> active st' \<and>
    owners st' \<subseteq># add_mset (owner op) (owners st)"
proof (cases "op_command op")
  case (C_Publish t p c)
  then show ?thesis
    unfolding resend_one_resubmit(1) [OF C_Publish] op_ok_owner(3) [OF ok C_Publish]
    by (intro resubmit_spec [OF st]) (simp_all add: ops_carry)
next
  case (C_Subscribe t s c)
  then show ?thesis
    unfolding resend_one_resubmit(2) [OF C_Subscribe] op_ok_owner(1) [OF ok C_Subscribe]
    by (intro resubmit_spec [OF st]) (simp_all add: ops_carry)
next
  case (C_Unsubscribe t u c)
  then show ?thesis
    unfolding resend_one_resubmit(3) [OF C_Unsubscribe] op_ok_owner(2) [OF ok C_Unsubscribe]
    by (intro resubmit_spec [OF st]) (simp_all add: ops_carry)
qed (use ok in \<open>simp_all add: op_ok_def\<close>)

lemma resend_loop_spec:
  assumes "state_inv st" "active st" "list_all op_ok ops"
  shows "\<exists>out' st'. resend_loop ops out st = (Ok out', st') \<and> state_inv st' \<and> active st' \<and>
    owners st' \<subseteq># owners st + image_mset owner (mset ops)"
  using assms
proof (induction ops arbitrary: st out)
  case (Cons op ops)
  then obtain out1 st1 where
    1: "resend_one op out st = (Ok out1, st1)" "state_inv st1" "active st1"
      "owners st1 \<subseteq># add_mset (owner op) (owners st)"
    using resend_one_spec [of st op out] by auto
  from Cons.IH [OF 1(2,3), of out1] Cons.prems(3) obtain out2 st2 where
    2: "resend_loop ops out1 st1 = (Ok out2, st2)" "state_inv st2" "active st2"
      "owners st2 \<subseteq># owners st1 + image_mset owner (mset ops)" by auto
  have "owners st2 \<subseteq># owners st + image_mset owner (mset (op # ops))"
    using subset_mset.order_trans [OF 2(4) subset_mset.add_right_mono [OF 1(4)]] by simp
  with 1 2 show ?case by simp
qed (simp add: ret_def)

lemma on_connection_restored_eq:
  "on_connection_restored st =
     resend_loop (pending (inflight st)) []
       (st\<lparr>active := True, inflight := (inflight st)\<lparr>pending := []\<rparr>\<rparr>)"
  by (simp add: on_connection_restored_def resend_pending_on_reconnect_def set_active_def in_store_simps
      modify_def and_then_def)

lemma ledger_on_connection_restored: "ledger {#} on_connection_restored no_owner"
proof (rule ledgerI)
  fix st assume st: "state_inv st"
  let ?st = "st\<lparr>active := True, inflight := (inflight st)\<lparr>pending := []\<rparr>\<rparr>"
  have "state_inv ?st" "active ?st" "list_all op_ok (pending (inflight st))"
    using st state_invD(8) [OF st] by (simp_all add: state_inv_def)
  from resend_loop_spec [OF this, of "[]"] obtain out' st' where
    "on_connection_restored st = (Ok out', st')" "state_inv st'"
      "owners st' \<subseteq># owners ?st + image_mset owner (mset (pending (inflight st)))"
    unfolding on_connection_restored_eq by blast
  moreover have "owners ?st + image_mset owner (mset (pending (inflight st))) = owners st"
    by (simp add: owners_def held_all_def ac_simps)
  ultimately show "\<exists>r st'. on_connection_restored st = (r, st') \<and> r \<noteq> Panic \<and> state_inv st' \<and>
      owners st' + reported no_owner r \<subseteq># owners st + {#}"
    by simp
qed

end
