(* ===== verification/Runtime_Driver.thy ===== *)
theory Runtime_Driver
  imports State_Ledger
begin

text \<open>
  The driver, src/runtime/driver.rs: one event in, a list of actions out.  The arms of the match in
  \<open>RuntimeDriver::handle_event\<close> are one definition each, methods of the state component; \<open>clock\<close> is
  the reading of \<open>Instant::now()\<close> in the command arms.  Event constructors have the prefix \<open>D_\<close>,
  actions the prefix \<open>A_\<close>.
\<close>

section \<open>Events, actions, driver\<close>

datatype driver_event =
    D_Tick instant
  | D_Command command
  | D_Incoming packet instant
  | D_ConnectionLost bool
  | D_ConnectionRestored instant

datatype driver_action =
    A_Send packet
  | A_TriggerReconnect
  | A_CompleteFor nat completion
  | A_SubscribeAckFor nat "topic_filter list" completion
  | A_UnsubscribeAckFor nat "rstring list" completion

record runtime_driver =
  drv_state :: runtime_state
  drv_clean_session :: bool

definition new_driver :: "runtime_state \<Rightarrow> bool \<Rightarrow> runtime_driver" where
  "new_driver st clean_session = \<lparr>drv_state = st, drv_clean_session = clean_session\<rparr>"

text \<open>\<open>match m { Ok(x) => .., Err(e) => .. }\<close> on a method call.\<close>

definition attempt :: "('s, 'e, 'a) op \<Rightarrow> ('s, 'e, 'e + 'a) op" where
  "attempt m s = (case m s of
     (Ok x, s') \<Rightarrow> (Ok (Inr x), s') | (Err e, s') \<Rightarrow> (Ok (Inl e), s') | (Panic, s') \<Rightarrow> (Panic, s'))"

section \<open>The arms of handle\_event\<close>

definition handle_tick :: "bool \<Rightarrow> instant \<Rightarrow> driver_action list state_op" where
  "handle_tick clean_session now =
     and_then (attempt (on_tick now)) (\<lambda>result.
     case result of
       Inr (Some pkt) \<Rightarrow>
         and_then (note_outgoing_activity now) (\<lambda>_. ret [A_Send pkt])
     | Inr None \<Rightarrow> ret []
     | Inl AwaitPingRespTimeout \<Rightarrow>
         and_then (on_connection_lost clean_session) (\<lambda>_. ret [A_TriggerReconnect])
     | Inl e \<Rightarrow> throw e)"

definition send_if_some :: "instant \<Rightarrow> packet option \<Rightarrow> driver_action list state_op" where
  "send_if_some now pkt =
     (case pkt of
        Some p \<Rightarrow> and_then (note_outgoing_activity now) (\<lambda>_. ret [A_Send p])
      | None \<Rightarrow> ret [])"

definition handle_command :: "instant \<Rightarrow> command \<Rightarrow> driver_action list state_op" where
  "handle_command clock c =
     (case c of
        C_Publish token_id publish client_id \<Rightarrow>
          and_then (on_command_publish (C_Publish token_id publish client_id)) (send_if_some clock)
      | C_Subscribe token_id subscribe client_id \<Rightarrow>
          and_then (on_command_subscribe (C_Subscribe token_id subscribe client_id)) (send_if_some clock)
      | C_Unsubscribe token_id unsubscribe client_id \<Rightarrow>
          and_then (on_command_unsubscribe (C_Unsubscribe token_id unsubscribe client_id)) (send_if_some clock)
      | _ \<Rightarrow> ret [])"

definition complete_ack :: "instant \<Rightarrow> ack_result \<Rightarrow> driver_action list state_op" where
  "complete_ack now ack =
     and_then (send_if_some now (ar_next_packet ack)) (\<lambda>sends.
     ret (A_CompleteFor (ar_client_id ack) (ar_completion ack) # sends))"

definition handle_incoming :: "packet \<Rightarrow> instant \<Rightarrow> driver_action list state_op" where
  "handle_incoming packet now =
     and_then (note_incoming_activity now) (\<lambda>_.
     case packet of
       P_PingResp \<Rightarrow> and_then (on_pingresp now) (\<lambda>_. ret [])
     | P_PubAck p \<Rightarrow> and_then (on_puback_checked (puback_pkid p)) (complete_ack now)
     | P_PubRec p \<Rightarrow>
         and_then (on_pubrec_checked (pubrec_pkid p)) (\<lambda>rel.
         and_then (note_outgoing_activity now) (\<lambda>_. ret [A_Send rel]))
     | P_PubComp p \<Rightarrow> and_then (on_pubcomp_checked (pubcomp_pkid p)) (complete_ack now)
     | P_Publish p \<Rightarrow>
         if pub_qos p = ExactlyOnce then
           and_then (on_incoming_qos2_publish_checked (pub_pkid p)) (\<lambda>d.
           case d of
             FirstSeen pubrec \<Rightarrow>
               and_then (note_outgoing_activity now) (\<lambda>_. ret [A_Send pubrec])
           | Duplicate pubrec \<Rightarrow>
               and_then (note_outgoing_activity now) (\<lambda>_. ret [A_Send pubrec]))
         else ret []
     | P_PubRel p \<Rightarrow>
         and_then (on_incoming_pubrel_checked (pubrel_pkid p)) (\<lambda>comp.
         and_then (note_outgoing_activity now) (\<lambda>_. ret [A_Send comp]))
     | P_SubAck p \<Rightarrow>
         and_then (on_suback_checked (suback_pkid p)) (\<lambda>ack.
         ret [A_SubscribeAckFor (sar_client_id ack) (sar_filters ack) (sar_completion ack)])
     | P_UnsubAck p \<Rightarrow>
         and_then (on_unsuback_checked (unsuback_pkid p)) (\<lambda>ack.
         ret [A_UnsubscribeAckFor (uar_client_id ack) (uar_filters ack) (uar_completion ack)])
     | _ \<Rightarrow> ret [])"

definition handle_connection_lost :: "bool \<Rightarrow> driver_action list state_op" where
  "handle_connection_lost clean_session =
     and_then (on_connection_lost clean_session) (\<lambda>_. ret [A_TriggerReconnect])"

fun send_all :: "instant \<Rightarrow> packet list \<Rightarrow> driver_action list state_op" where
  "send_all now [] = ret []"
| "send_all now (pkt # pkts) =
     and_then (note_outgoing_activity now) (\<lambda>_.
     and_then (send_all now pkts) (\<lambda>out. ret (A_Send pkt # out)))"

definition handle_connection_restored :: "instant \<Rightarrow> driver_action list state_op" where
  "handle_connection_restored now =
     and_then (set_active True) (\<lambda>_.
     and_then (modify (\<lambda>self. self\<lparr>await_pingresp := False, last_incoming := now, last_outgoing := now\<rparr>)) (\<lambda>_.
     and_then on_connection_restored (\<lambda>pkts. send_all now pkts)))"

definition on_state :: "'a state_op \<Rightarrow> (runtime_driver, runtime_error, 'a) op" where
  "on_state = on_field drv_state (\<lambda>t self. self\<lparr>drv_state := t\<rparr>)"

definition handle_event :: "instant \<Rightarrow> driver_event \<Rightarrow> (runtime_driver, runtime_error, driver_action list) op" where
  "handle_event clock event =
     (case event of
        D_Tick now \<Rightarrow>
          and_then (get drv_clean_session) (\<lambda>clean_session. on_state (handle_tick clean_session now))
      | D_Command c \<Rightarrow> on_state (handle_command clock c)
      | D_Incoming packet now \<Rightarrow> on_state (handle_incoming packet now)
      | D_ConnectionLost clean_session \<Rightarrow> on_state (handle_connection_lost clean_session)
      | D_ConnectionRestored now \<Rightarrow> on_state (handle_connection_restored now))"

section \<open>Runs of a machine\<close>

text \<open>
  The outcomes of a sequence of inputs, each handled in the state the one before it left (also when
  that one returned an error), and the final state.
\<close>

fun run_machine :: "('i \<Rightarrow> ('s, 'e, 'o list) op) \<Rightarrow> 'i list \<Rightarrow> 's \<Rightarrow> ('e, 'o list) outcome list \<times> 's" where
  "run_machine step [] s = ([], s)"
| "run_machine step (i # is) s =
     (let (r, s1) = step i s; (rs, s2) = run_machine step is s1 in (r # rs, s2))"

fun outputs :: "('e, 'o list) outcome list \<Rightarrow> 'o list" where
  "outputs [] = []"
| "outputs (Ok os # rs) = os @ outputs rs"
| "outputs (_ # rs) = outputs rs"

text \<open>
  A machine that keeps an invariant, never panics, and whose reported tokens are paid for by the
  tokens it held before and those its input brings.
\<close>

locale token_machine =
  fixes step :: "'i \<Rightarrow> ('s, 'e, 'o list) op"
    and inv :: "'s \<Rightarrow> bool"
    and held :: "'s \<Rightarrow> 't multiset"
    and brings :: "'i \<Rightarrow> 't multiset"
    and reports :: "'o \<Rightarrow> 't multiset"
  assumes step_law: "inv s \<Longrightarrow> step i s = (r, s') \<Longrightarrow> r \<noteq> Panic \<and> inv s' \<and>
    held s' + sum_list (map reports (outputs [r])) \<subseteq># held s + brings i"
begin

lemma outputs_Cons: "outputs (r # rs) = outputs [r] @ outputs rs"
  by (cases r) simp_all

lemma run_safe:
  "inv s \<Longrightarrow> run_machine step is s = (rs, s') \<Longrightarrow> Panic \<notin> set rs \<and> inv s' \<and>
     held s' + sum_list (map reports (outputs rs)) \<subseteq># held s + sum_list (map brings is)"
proof (induction "is" arbitrary: s rs s')
  case (Cons i "is")
  obtain r s1 where s1: "step i s = (r, s1)" by (cases "step i s")
  obtain rs1 s2 where s2: "run_machine step is s1 = (rs1, s2)" by (cases "run_machine step is s1")
  have e: "rs = r # rs1" "s' = s2" using Cons.prems(2) by (simp_all add: s1 s2)
  note 1 = step_law [OF Cons.prems(1) s1]
  note 2 = Cons.IH [OF conjunct1 [OF conjunct2 [OF 1]] s2]
  have "held s2 + sum_list (map reports (outputs rs)) =
      sum_list (map reports (outputs [r])) + (held s2 + sum_list (map reports (outputs rs1)))"
    unfolding e outputs_Cons [of r rs1] by (simp only: map_append sum_list_append ac_simps)
  also have "\<dots> \<subseteq># sum_list (map reports (outputs [r])) + (held s1 + sum_list (map brings is))"
    using 2 e(2) by (intro subset_mset.add_left_mono) simp
  also have "\<dots> = (held s1 + sum_list (map reports (outputs [r]))) + sum_list (map brings is)"
    by (simp add: ac_simps)
  also have "\<dots> \<subseteq># (held s + brings i) + sum_list (map brings is)"
    using 1 by (intro subset_mset.add_right_mono) simp
  finally have "held s2 + sum_list (map reports (outputs rs)) \<subseteq># held s + sum_list (map brings (i # is))"
    by (simp add: ac_simps)
  moreover have "Panic \<notin> set rs" using 1 2 e(1) by auto
  ultimately show ?case using 2 e(2) by simp
qed simp

end

section \<open>The ledger of the driver\<close>

fun action_owner :: "driver_action \<Rightarrow> owner_bag" where
  "action_owner (A_CompleteFor c d) = {#(c, completion_token d)#}"
| "action_owner (A_SubscribeAckFor c _ d) = {#(c, completion_token d)#}"
| "action_owner (A_UnsubscribeAckFor c _ d) = {#(c, completion_token d)#}"
| "action_owner _ = {#}"

fun command_owner :: "command \<Rightarrow> owner_bag" where
  "command_owner (C_Publish t _ c) = {#(c, t)#}"
| "command_owner (C_Subscribe t _ c) = {#(c, t)#}"
| "command_owner (C_Unsubscribe t _ c) = {#(c, t)#}"
| "command_owner _ = {#}"

fun event_owner :: "driver_event \<Rightarrow> owner_bag" where
  "event_owner (D_Command c) = command_owner c"
| "event_owner _ = {#}"

definition actions_owner :: "driver_action list \<Rightarrow> owner_bag" where
  "actions_owner as = sum_list (map action_owner as)"

lemma actions_owner_simps [simp]:
  "actions_owner [] = {#}"
  "actions_owner (a # as) = action_owner a + actions_owner as"
  by (simp_all add: actions_owner_def)

lemma ledger_ret_Nil: "ledger g (ret []) actions_owner"
  by (rule ledgerI) (simp add: ret_def)

lemma ledger_note_ret:
  "actions_owner as \<subseteq># g \<Longrightarrow> ledger g (and_then (note_outgoing_activity now) (\<lambda>_. ret as)) actions_owner"
  by (rule ledgerI) (simp add: note_outgoing_activity_def modify_def ret_def and_then_def
      subset_mset.add_left_mono)

lemma ledger_send_if_some: "ledger g (send_if_some now p) actions_owner"
  by (cases p) (simp_all add: send_if_some_def ledger_ret_Nil ledger_note_ret)

lemma ledger_complete_ack: "ledger (ack_owner a) (complete_ack now a) actions_owner"
  by (rule ledgerI)
    (cases "ar_next_packet a"; simp add: complete_ack_def send_if_some_def note_outgoing_activity_def
      modify_def ret_def and_then_def ack_owner_def)

lemma ledger_handle_command: "ledger (command_owner c) (handle_command clock c) actions_owner"
  by (cases c)
    (auto simp: handle_command_def ledger_ret_Nil intro: ledger_and_then ledger_on_command ledger_send_if_some)

lemma ledger_attempt_tick: "ledger {#} (attempt (on_tick now)) no_owner"
  by (rule ledgerI) (simp add: attempt_def on_tick_eq)

lemma ledger_lost_ret:
  "ledger {#} (and_then (on_connection_lost clean) (\<lambda>_. ret [A_TriggerReconnect])) actions_owner"
  by (rule ledger_and_then [OF ledger_on_connection_lost], rule ledgerI) (simp add: ret_def)

lemma ledger_handle_tick: "ledger {#} (handle_tick clean now) actions_owner"
  unfolding handle_tick_def
proof (rule ledger_and_then [OF ledger_attempt_tick])
  fix x :: "runtime_error + packet option"
  show "ledger (no_owner x)
      (case x of Inl AwaitPingRespTimeout \<Rightarrow>
          and_then (on_connection_lost clean) (\<lambda>_. ret [A_TriggerReconnect])
        | Inl e \<Rightarrow> throw e | Inr None \<Rightarrow> ret []
        | Inr (Some pkt) \<Rightarrow> and_then (note_outgoing_activity now) (\<lambda>_. ret [A_Send pkt])) actions_owner"
    by (simp split: sum.split option.split runtime_error.split
        add: ledger_ret_Nil ledger_note_ret ledger_throw ledger_lost_ret)
qed

lemma ledger_send_all: "ledger {#} (send_all now pkts) actions_owner"
proof (induction pkts)
  case (Cons p pkts)
  have "ledger (actions_owner out) (ret (A_Send p # out)) actions_owner" for out
    by (rule ledgerI) (simp add: ret_def)
  then show ?case
    unfolding send_all.simps
    by (intro ledger_and_then [OF ledger_notes(2)]) (auto intro!: ledger_and_then [OF Cons.IH])
qed (simp add: ledger_ret_Nil)

lemma ledger_handle_connection_lost: "ledger {#} (handle_connection_lost clean) actions_owner"
  unfolding handle_connection_lost_def by (rule ledger_lost_ret)

lemma ledger_handle_connection_restored: "ledger {#} (handle_connection_restored now) actions_owner"
proof -
  have a: "ledger {#} (set_active True) no_owner"
    by (rule ledgerI) (simp add: set_active_def modify_def state_inv_active)
  have b: "ledger {#} (modify (\<lambda>self. self\<lparr>await_pingresp := False, last_incoming := now, last_outgoing := now\<rparr>))
      no_owner"
    by (rule ledgerI) (simp add: modify_def)
  show ?thesis
    unfolding handle_connection_restored_def
    by (rule ledger_and_then [OF a], simp only: no_owner_simp,
        rule ledger_and_then [OF b], simp only: no_owner_simp,
        rule ledger_and_then [OF ledger_on_connection_restored], simp only: no_owner_simp,
        rule ledger_send_all)
qed

lemma ledger_handle_incoming: "ledger {#} (handle_incoming packet now) actions_owner"
  unfolding handle_incoming_def
proof (rule ledger_and_then [OF ledger_notes(1)], simp only: no_owner_simp)
  have n: "ledger {#} (and_then (note_outgoing_activity now) (\<lambda>_. ret [A_Send q])) actions_owner" for q
    by (rule ledger_note_ret) simp
  have s: "ledger (suback_owner a)
      (ret [A_SubscribeAckFor (sar_client_id a) (sar_filters a) (sar_completion a)]) actions_owner" for a
    by (rule ledgerI) (simp add: ret_def suback_owner_def)
  have u: "ledger (unsuback_owner a)
      (ret [A_UnsubscribeAckFor (uar_client_id a) (uar_filters a) (uar_completion a)]) actions_owner" for a
    by (rule ledgerI) (simp add: ret_def unsuback_owner_def)
  show "ledger {#}
      (case packet of
         P_PingResp \<Rightarrow> and_then (on_pingresp now) (\<lambda>_. ret [])
       | P_PubAck p \<Rightarrow> and_then (on_puback_checked (puback_pkid p)) (complete_ack now)
       | P_PubRec p \<Rightarrow>
           and_then (on_pubrec_checked (pubrec_pkid p)) (\<lambda>rel.
           and_then (note_outgoing_activity now) (\<lambda>_. ret [A_Send rel]))
       | P_PubComp p \<Rightarrow> and_then (on_pubcomp_checked (pubcomp_pkid p)) (complete_ack now)
       | P_Publish p \<Rightarrow>
           if pub_qos p = ExactlyOnce then
             and_then (on_incoming_qos2_publish_checked (pub_pkid p)) (\<lambda>d.
             case d of
               FirstSeen pubrec \<Rightarrow> and_then (note_outgoing_activity now) (\<lambda>_. ret [A_Send pubrec])
             | Duplicate pubrec \<Rightarrow> and_then (note_outgoing_activity now) (\<lambda>_. ret [A_Send pubrec]))
           else ret []
       | P_PubRel p \<Rightarrow>
           and_then (on_incoming_pubrel_checked (pubrel_pkid p)) (\<lambda>comp.
           and_then (note_outgoing_activity now) (\<lambda>_. ret [A_Send comp]))
       | P_SubAck p \<Rightarrow>
           and_then (on_suback_checked (suback_pkid p)) (\<lambda>ack.
           ret [A_SubscribeAckFor (sar_client_id ack) (sar_filters ack) (sar_completion ack)])
       | P_UnsubAck p \<Rightarrow>
           and_then (on_unsuback_checked (unsuback_pkid p)) (\<lambda>ack.
           ret [A_UnsubscribeAckFor (uar_client_id ack) (uar_filters ack) (uar_completion ack)])
       | _ \<Rightarrow> ret []) actions_owner"
    by (simp split: packet.split incoming_qos2_result.split
          add: ledger_ret_Nil ledger_and_then [OF ledger_on_puback ledger_complete_ack]
            ledger_and_then [OF ledger_on_pubcomp ledger_complete_ack]
            ledger_and_then [OF ledger_on_suback s] ledger_and_then [OF ledger_on_unsuback u]
            ledger_and_then [OF ledger_on_pingresp ledger_ret_Nil])
      (auto intro!: ledger_and_then [OF ledger_on_pubrec] ledger_and_then [OF ledger_on_incoming_qos2]
          ledger_and_then [OF ledger_on_incoming_pubrel] simp: n split: incoming_qos2_result.split)
qed

lemma on_state_eq: "on_state m d = (case m (drv_state d) of (r, st) \<Rightarrow> (r, d\<lparr>drv_state := st\<rparr>))"
  by (simp add: on_state_def on_field_def)

lemma handle_event_eq:
  "handle_event clock e d =
    (case (case e of
        D_Tick now \<Rightarrow> handle_tick (drv_clean_session d) now
      | D_Command c \<Rightarrow> handle_command clock c
      | D_Incoming packet now \<Rightarrow> handle_incoming packet now
      | D_ConnectionLost clean \<Rightarrow> handle_connection_lost clean
      | D_ConnectionRestored now \<Rightarrow> handle_connection_restored now) (drv_state d)
     of (r, st) \<Rightarrow> (r, d\<lparr>drv_state := st\<rparr>))"
  by (cases e) (simp_all add: handle_event_def on_state_eq and_then_def get_def)

lemma handle_event_ledger:
  assumes "state_inv (drv_state d)" and "handle_event clock e d = (r, d')"
  shows "r \<noteq> Panic \<and> state_inv (drv_state d') \<and> drv_clean_session d' = drv_clean_session d \<and>
    owners (drv_state d') + reported actions_owner r \<subseteq># owners (drv_state d) + event_owner e"
proof -
  let ?m = "case e of
        D_Tick now \<Rightarrow> handle_tick (drv_clean_session d) now
      | D_Command c \<Rightarrow> handle_command clock c
      | D_Incoming packet now \<Rightarrow> handle_incoming packet now
      | D_ConnectionLost clean \<Rightarrow> handle_connection_lost clean
      | D_ConnectionRestored now \<Rightarrow> handle_connection_restored now"
  have l: "ledger (event_owner e) ?m actions_owner"
    by (cases e) (simp_all add: ledger_handle_tick ledger_handle_command ledger_handle_incoming
        ledger_handle_connection_lost ledger_handle_connection_restored)
  obtain st where m: "?m (drv_state d) = (r, st)" and d: "d' = d\<lparr>drv_state := st\<rparr>"
    using assms(2) by (auto simp: handle_event_eq split: prod.splits)
  from ledgerD [OF l assms(1) m] d show ?thesis by simp
qed

text \<open>The driver is a token machine.\<close>

interpretation driver: token_machine
  "\<lambda>(clock, e). handle_event clock e" "\<lambda>d. state_inv (drv_state d)" "\<lambda>d. owners (drv_state d)"
  "\<lambda>(clock, e). event_owner e" action_owner
proof
  fix d i r d'
  assume d: "state_inv (drv_state d)" and s: "(case i of (clock, e) \<Rightarrow> handle_event clock e) d = (r, d')"
  obtain clock e where i: "i = (clock, e)" by (cases i)
  have "sum_list (map action_owner (outputs [r])) = reported actions_owner r"
    by (cases r) (simp_all add: actions_owner_def)
  then show "r \<noteq> Panic \<and> state_inv (drv_state d') \<and>
      owners (drv_state d') + sum_list (map action_owner (outputs [r])) \<subseteq>#
      owners (drv_state d) + (case i of (clock, e) \<Rightarrow> event_owner e)"
    using handle_event_ledger [OF d] s i by simp
qed

end
