(* ===== verification/Driver_Properties.thy ===== *)
theory Driver_Properties
  imports Runtime_Driver
begin

text \<open>
  What the driver guarantees over whole event sequences: reachable states, the ledger of
  completions, the window of operations in flight.
\<close>

section \<open>Fields no method changes\<close>

text \<open>\<open>keeps f m\<close>: the method leaves the reading \<open>f\<close> of the state as it was, whatever its outcome.\<close>

definition keeps :: "('s \<Rightarrow> 'b) \<Rightarrow> ('s, 'e, 'a) op \<Rightarrow> bool" where
  "keeps f m \<longleftrightarrow> (\<forall>s. f (snd (m s)) = f s)"

named_theorems keeps_intros \<open>which operations keep a reading of the state\<close>

lemma keepsI: "(\<And>s. f (snd (m s)) = f s) \<Longrightarrow> keeps f m"
  by (simp add: keeps_def)

lemma keeps_and_then [keeps_intros]:
  assumes "keeps f m" and "\<And>x. keeps f (g x)"
  shows "keeps f (and_then m g)"
proof (rule keepsI)
  fix s
  obtain r s' where m: "m s = (r, s')" by (cases "m s")
  then have "f s' = f s" using assms(1) unfolding keeps_def by (metis snd_conv)
  moreover have "f (snd (g x s')) = f s'" for x using assms(2) by (simp add: keeps_def)
  ultimately show "f (snd (and_then m g s)) = f s"
    using m by (cases r) (simp_all add: and_then_def)
qed

lemma keeps_basic [keeps_intros]:
  "keeps f (ret x)" "keeps f (throw e)" "keeps f (get g)" "keeps f (lift r)"
  by (simp_all add: keeps_def ret_def throw_def get_def lift_def)

lemma keeps_attempt [keeps_intros]: "keeps f m \<Longrightarrow> keeps f (attempt m)"
  by (auto simp: keeps_def attempt_def split: prod.splits outcome.splits) (metis snd_conv)+

lemma keeps_in_store [keeps_intros]:
  "(\<And>s t. f (set_inflight s t) = g s (store_max_inflight t)) \<Longrightarrow> keeps store_max_inflight m \<Longrightarrow>
   (\<And>s. f s = g s (store_max_inflight (inflight s))) \<Longrightarrow> keeps f (in_store m)"
  unfolding keeps_def in_store_def on_field_def by (auto split: prod.splits) (metis snd_conv)

text \<open>The limits the state was created with.\<close>

definition limits :: "runtime_state \<Rightarrow> u16 \<times> duration" where
  "limits st = (store_max_inflight (inflight st), keep_alive st)"

lemma keeps_limits_in_store [keeps_intros]: "keeps store_max_inflight m \<Longrightarrow> keeps limits (in_store m)"
  by (rule keeps_in_store [where g = "\<lambda>s n. (n, keep_alive s)"]) (simp_all add: limits_def)

lemma keeps_limits_in_pool [keeps_intros]: "keeps limits (in_pool m)"
  by (rule keepsI) (simp add: in_pool_def on_field_def limits_def split: prod.splits)

lemma keeps_store [keeps_intros]:
  "keeps store_max_inflight (try_insert k op)" "keeps store_max_inflight (release_ack k)"
  by (auto intro!: keepsI simp: try_insert_eq with_slot_def release_ack_def op_defs Let_def
      split: option.split outcome.split)

lemma keeps_modify: "(\<And>s. f (g s) = f s) \<Longrightarrow> keeps f (modify g)"
  by (simp add: keeps_def modify_def)

lemma keeps_lost [keeps_intros]: "keeps limits (on_connection_lost clean)"
  by (rule keepsI) (simp add: on_connection_lost_eq limits_def lost_def lost_store_def Let_def)

lemma keeps_small [keeps_intros]:
  "keeps limits (on_tick now)" "keeps limits (on_pingresp now)" "keeps limits (note_incoming_activity now)"
  "keeps limits (note_outgoing_activity now)" "keeps limits (set_active b)" "keeps limits (idx k)"
  "keeps limits (push_pending op)"
  by (simp_all add: keeps_def on_tick_eq on_pingresp_def note_incoming_activity_def
      note_outgoing_activity_def set_active_def idx_eq push_pending_eq op_defs limits_def)

lemma keeps_if [keeps_intros]: "keeps f m \<Longrightarrow> keeps f m' \<Longrightarrow> keeps f (if c then m else m')"
  by simp

lemma keeps_promote [keeps_intros]: "keeps limits (promote_collision k)"
  unfolding promote_collision_def
  by (auto intro!: keeps_intros keeps_modify simp: Let_def split: option.split)

lemma keeps_acks [keeps_intros]:
  "keeps limits (on_puback_checked k)" "keeps limits (on_pubcomp_checked k)"
  "keeps limits (on_pubrec_checked k)" "keeps limits (on_incoming_qos2_publish_checked k)"
  "keeps limits (on_incoming_pubrel_checked k)"
  unfolding on_puback_checked_def on_pubcomp_checked_def on_pubrec_checked_def
    on_incoming_qos2_publish_checked_def on_incoming_pubrel_checked_def Let_def
  by (intro keeps_intros keeps_modify; simp)+

lemma keeps_sub_acks [keeps_intros]:
  "keeps limits (on_suback_checked k)" "keeps limits (on_unsuback_checked k)"
  unfolding on_suback_checked_def on_unsuback_checked_def
  by (auto intro!: keeps_intros split: command.split)

lemma keeps_commands [keeps_intros]:
  "keeps limits (submit tracked k0 mk wire)" "keeps limits (resubmit tracked k0 mk wire out)"
  unfolding submit_def resubmit_def assign_pkid_def insert_or_park_def
  by (intro keeps_intros)+

lemma keeps_resend [keeps_intros]: "keeps limits (resend_loop ops out)"
proof (induction ops arbitrary: out)
  case (Cons op ops)
  have "keeps limits (resend_one op out)"
    by (cases "op_command op")
      (simp_all only: resend_one_resubmit keeps_commands, simp_all add: resend_one_def keeps_basic)
  then show ?case by (auto intro!: keeps_intros Cons.IH)
qed (simp add: keeps_basic)

lemma keeps_restored [keeps_intros]: "keeps limits on_connection_restored"
  unfolding on_connection_restored_def resend_pending_on_reconnect_def
  by (intro keeps_intros keeps_modify; simp)+

lemma keeps_send_all [keeps_intros]: "keeps limits (send_all now pkts)"
  by (induction pkts) (auto intro!: keeps_intros)

lemma handle_event_keeps:
  assumes "handle_event clock e d = (r, d')"
  shows "limits (drv_state d') = limits (drv_state d)" "drv_clean_session d' = drv_clean_session d"
proof -
  let ?m = "case e of
        D_Tick now \<Rightarrow> handle_tick (drv_clean_session d) now
      | D_Command c \<Rightarrow> handle_command clock c
      | D_Incoming packet now \<Rightarrow> handle_incoming packet now
      | D_ConnectionLost clean \<Rightarrow> handle_connection_lost clean
      | D_ConnectionRestored now \<Rightarrow> handle_connection_restored now"
  have t: "keeps limits (handle_tick c now)" for c now
    unfolding handle_tick_def
    by (auto intro!: keeps_intros split: sum.split option.split runtime_error.split)
  have s: "keeps limits (send_if_some now p)" for now p
    unfolding send_if_some_def by (auto intro!: keeps_intros split: option.split)
  have a: "keeps limits (complete_ack now x)" for now x
    unfolding complete_ack_def by (intro keeps_intros s)
  have c: "keeps limits (handle_command clock x)" for x
    by (cases x) (auto simp: handle_command_def on_command_submit intro!: keeps_intros s)
  have i: "keeps limits (handle_incoming p now)" for p now
    unfolding handle_incoming_def
    by (auto intro!: keeps_intros a split: packet.split incoming_qos2_result.split)
  have l: "keeps limits (handle_connection_lost x)" for x
    unfolding handle_connection_lost_def by (intro keeps_intros)
  have r: "keeps limits (handle_connection_restored now)" for now
    unfolding handle_connection_restored_def
    by (intro keeps_intros keeps_modify) (simp add: limits_def)
  have "keeps limits ?m" using t c i l r by (cases e) simp_all
  then have "limits (snd (?m (drv_state d))) = limits (drv_state d)" by (simp add: keeps_def)
  then show "limits (drv_state d') = limits (drv_state d)" "drv_clean_session d' = drv_clean_session d"
    using assms by (auto simp: handle_event_eq split: prod.splits)
qed

section \<open>Reachable drivers\<close>

text \<open>
  The drivers reachable from a new state by any sequence of events, errors included: the caller may
  go on after an error.
\<close>

inductive reachable :: "u16 \<Rightarrow> duration \<Rightarrow> bool \<Rightarrow> runtime_driver \<Rightarrow> bool" for m limit clean where
  start: "new_with_keep_alive m limit t1 t2 = Ok st \<Longrightarrow> reachable m limit clean (new_driver st clean)"
| event: "reachable m limit clean d \<Longrightarrow> handle_event clock e d = (r, d') \<Longrightarrow> reachable m limit clean d'"

inductive_cases reachableE: "reachable m limit clean d"

lemma state_inv_new:
  assumes "new_with_keep_alive m limit t1 t2 = Ok st" and "m \<noteq> 0xFFFF"
  shows "state_inv st" "owners st = {#}" "limits st = (m, limit)"
proof -
  have "0 < m" using assms(1) by (auto simp: new_with_keep_alive_def new_pool_def split: if_splits)
  then have st: "st = \<lparr>pkid_pool = \<lparr>last_pkid = 0, pool_max_inflight = m\<rparr>, inflight = new_store m,
      active = False, keep_alive = limit, await_pingresp = False, last_incoming = t1,
      last_outgoing = t2, ping_retry_count = 0\<rparr>"
    using assms(1) by (simp add: new_with_keep_alive_def new_pool_def)
  have h: "held_ops (outgoing (new_store m)) = []"
    by (simp add: new_store_def Let_def del: replicate.simps replicate_Suc)
  note n = h slot_of_inactive [OF h]
  show "state_inv st" "owners st = {#}" "limits st = (m, limit)"
    using \<open>0 < m\<close> assms(2) n
    by (simp_all add: st state_inv_def pool_inv_def owners_def held_all_def limits_def)
      (simp_all add: new_store_def Let_def)
qed

lemma reachable_inv:
  "reachable m limit clean d \<Longrightarrow> m \<noteq> 0xFFFF \<Longrightarrow>
     state_inv (drv_state d) \<and> limits (drv_state d) = (m, limit) \<and> drv_clean_session d = clean"
proof (induction rule: reachable.induct)
  case (start t1 t2 st)
  then show ?case using state_inv_new [of m limit t1 t2 st] by (simp add: new_driver_def)
next
  case (event d clock e r d')
  then show ?case using handle_event_ledger [of d clock e r d'] handle_event_keeps [of clock e d r d'] by simp
qed

section \<open>Evaluating runs\<close>

lemma replicate_num: "replicate (numeral n) x = x # replicate (pred_numeral n) x"
  by (simp add: numeral_eq_Suc)

lemmas driver_eval =
  handle_event_def on_state_def in_store_def in_pool_def op_defs Let_def checked_defs attempt_def
  handle_tick_def handle_command_def handle_incoming_def handle_connection_lost_def
  handle_connection_restored_def send_if_some_def complete_ack_def on_tick_eq on_pingresp_def
  on_suback_checked_def on_unsuback_checked_def on_puback_checked_def on_pubrec_checked_def
  on_pubcomp_checked_def on_incoming_qos2_publish_checked_def on_incoming_pubrel_checked_def
  on_connection_lost_eq lost_def lost_store_def held_ops_def idx_eq promote_collision_def
  mark_publish_dup_def note_incoming_activity_def note_outgoing_activity_def set_active_def
  push_pending_def on_command_publish_def on_command_subscribe_def on_command_unsubscribe_def
  assign_pkid_def insert_or_park_def try_insert_eq release_ack_def with_slot_def slot_of_def
  get_mut_def next_candidate_eq next_id_def resend_one_def on_connection_restored_def
  resend_pending_on_reconnect_def replicate_num new_op_def new_driver_def new_with_keep_alive_def
  new_pool_def new_store_def

text \<open>A small client: two packet ids, a keep-alive of 30 ticks, a persistent session.\<close>

definition small_state :: runtime_state where
  "small_state =
     \<lparr>pkid_pool = \<lparr>last_pkid = 0, pool_max_inflight = 2\<rparr>, inflight = new_store 2, active = False,
      keep_alive = 30, await_pingresp = False, last_incoming = 0, last_outgoing = 0, ping_retry_count = 0\<rparr>"

definition run_small ::
  "(instant \<times> driver_event) list \<Rightarrow> (runtime_error, driver_action list) outcome list \<times> runtime_driver" where
  "run_small es = run_machine (\<lambda>(clock, e). handle_event clock e) es (new_driver small_state False)"

definition small_publish :: "qos \<Rightarrow> u16 \<Rightarrow> publish" where
  "small_publish q k = \<lparr>pub_dup = False, pub_qos = q, pub_retain = False, pub_topic = ascii ''t'',
     pub_pkid = k, pub_payload = [1]\<rparr>"

lemmas small_eval = run_small_def small_state_def small_publish_def driver_eval

lemma small_state_new: "new_with_keep_alive 2 30 0 0 = Ok small_state"
  by (simp add: new_with_keep_alive_def new_pool_def small_state_def)

lemma reachable_run:
  "reachable m limit clean d \<Longrightarrow>
     reachable m limit clean (snd (run_machine (\<lambda>(clock, e). handle_event clock e) es d))"
proof (induction es arbitrary: d)
  case (Cons ce es)
  obtain clock e where ce: "ce = (clock, e)" by (cases ce)
  obtain r d' where h: "handle_event clock e d = (r, d')" by (cases "handle_event clock e d")
  from Cons.IH [OF reachable.event [OF Cons.prems h]] show ?case
    by (simp add: ce h Let_def case_prod_beta)
qed simp

lemma small_reachable: "reachable 2 30 False (snd (run_small es))"
  unfolding run_small_def by (rule reachable_run [OF reachable.start [OF small_state_new]])

lemma small_inv: "state_inv (drv_state (snd (run_small es)))"
  using reachable_inv [OF small_reachable] by simp

section \<open>Properties\<close>

text \<open>
  The driver never panics: in every reachable state (any max_inflight other than
  65,535, any events in any order, including acknowledgements a hostile broker makes up) every event
  is handled with a result or an error, never with an index out of range or an overflow.
\<close>
theorem driver_never_panics:
  assumes "reachable m limit clean d" and "m \<noteq> 0xFFFF"
  shows "fst (handle_event clock e d) \<noteq> Panic"
proof -
  obtain r d' where h: "handle_event clock e d = (r, d')" by (cases "handle_event clock e d")
  then show ?thesis using handle_event_ledger [OF _ h] reachable_inv [OF assms] by simp
qed

theorem driver_never_panics_witness:
  "fst (handle_event 5 (D_Incoming (P_PubComp \<lparr>pubcomp_pkid = 0xFFFF\<rparr>) 5)
     (snd (run_small [(0, D_ConnectionRestored 0), (1, D_Command (C_Publish 7 (small_publish ExactlyOnce 0) 3))])))
   \<noteq> Panic"
  by (rule driver_never_panics [OF small_reachable]) simp

text \<open>
  Claim C17 (invariant). The window: in every reachable state the counter \<open>inflight\<close> is the number of
  operations in the slots, at most max_inflight; a slot's operation carries the slot's own packet id,
  which is not zero, so no two operations in flight share a packet id; and an inactive state has
  nothing in flight.
\<close>
theorem inflight_window:
  assumes "reachable m limit clean d" and "m \<noteq> 0xFFFF"
  shows "unat (inflight_count (inflight (drv_state d))) = length (held_ops (outgoing (inflight (drv_state d)))) \<and>
    inflight_count (inflight (drv_state d)) \<le> m \<and>
    (\<forall>k op. slot_of (inflight (drv_state d)) k = Some op \<longrightarrow>
      k \<noteq> 0 \<and> k \<le> m \<and> command_pkid (op_command op) = Some k \<and> active (drv_state d))"
proof -
  note r = reachable_inv [OF assms]
  then have i: "state_inv (drv_state d)" and m: "store_max_inflight (inflight (drv_state d)) = m"
    by (simp_all add: limits_def)
  note s = state_invD(4) [OF i]
  have "k \<noteq> 0 \<and> k \<le> m \<and> command_pkid (op_command op) = Some k \<and> active (drv_state d)"
    if op: "slot_of (inflight (drv_state d)) k = Some op" for k op
  proof -
    note c = state_invD(5) [OF i op]
    have "unat k \<le> unat m" using op s m by (simp add: slot_of_Some_iff store_inv_def)
    moreover have "active (drv_state d)"
      using op state_invD(9) [OF i] slot_of_inactive by fastforce
    ultimately show ?thesis
      using op_carries_nonzero [OF c] c by (simp add: op_carries_def word_le_nat_alt)
  qed
  then show ?thesis using s m by (simp add: store_inv_def)
qed

theorem inflight_window_witness:
  "let s = inflight (drv_state (snd (run_small
      [(0, D_ConnectionRestored 0), (1, D_Command (C_Publish 7 (small_publish ExactlyOnce 0) 3))])))
   in slot_of s 1 \<noteq> None \<and> unat (inflight_count s) = length (held_ops (outgoing s)) \<and> inflight_count s \<le> 2"
proof -
  let ?es = "[(0, D_ConnectionRestored 0), (1, D_Command (C_Publish 7 (small_publish ExactlyOnce 0) 3))]"
  have "slot_of (inflight (drv_state (snd (run_small ?es)))) 1 \<noteq> None"
    by (simp add: small_eval)
  with inflight_window [OF small_reachable, of ?es] show ?thesis by (simp add: Let_def)
qed

lemma sum_events:
  "sum_list (map (\<lambda>(clock, e). event_owner e) es) = sum_list (map (event_owner \<circ> snd) es)"
  by (induction es) auto

text \<open>
  Claim C2 (invariant). Every completion is earned and reported at most once: over any run of events
  from a new state, the completions reported to clients (client and token, with multiplicity) are
  among the commands submitted, and together with the operations still held they never exceed them.
\<close>
theorem completions_at_most_once:
  assumes "new_with_keep_alive m limit t1 t2 = Ok st" and "m \<noteq> 0xFFFF"
    and "run_machine (\<lambda>(clock, e). handle_event clock e) es (new_driver st clean) = (rs, d)"
  shows "owners (drv_state d) + actions_owner (outputs rs) \<subseteq># sum_list (map (event_owner \<circ> snd) es)"
  using driver.run_safe [OF _ assms(3)] state_inv_new [OF assms(1,2)]
  by (simp add: new_driver_def actions_owner_def sum_events)

theorem completions_at_most_once_witness:
  "let (rs, d) = run_small
      [(0, D_ConnectionRestored 0), (1, D_Command (C_Publish 7 (small_publish AtLeastOnce 0) 3)),
       (2, D_Incoming (P_PubAck \<lparr>puback_pkid = 1\<rparr>) 2), (3, D_Incoming (P_PubAck \<lparr>puback_pkid = 1\<rparr>) 3)]
   in outputs rs = [A_Send (P_Publish (small_publish AtLeastOnce 1)), A_CompleteFor 3 (Done_PubAck 7 1)] \<and>
      owners (drv_state d) + actions_owner (outputs rs) \<subseteq># {#(3, 7)#}"
proof -
  let ?es = "[(0, D_ConnectionRestored 0), (1, D_Command (C_Publish 7 (small_publish AtLeastOnce 0) 3)),
       (2, D_Incoming (P_PubAck \<lparr>puback_pkid = 1\<rparr>) 2), (3, D_Incoming (P_PubAck \<lparr>puback_pkid = 1\<rparr>) 3)]"
  obtain rs d where r: "run_small ?es = (rs, d)" by (cases "run_small ?es")
  have "outputs (fst (run_small ?es)) =
      [A_Send (P_Publish (small_publish AtLeastOnce 1)), A_CompleteFor 3 (Done_PubAck 7 1)]"
    by (simp add: small_eval)
  then have "outputs rs = [A_Send (P_Publish (small_publish AtLeastOnce 1)), A_CompleteFor 3 (Done_PubAck 7 1)]"
    unfolding r fst_conv .
  moreover have "owners (drv_state d) + actions_owner (outputs rs) \<subseteq># {#(3, 7)#}"
    using completions_at_most_once [OF small_state_new _ r [unfolded run_small_def]] by simp
  ultimately show ?thesis unfolding r Let_def prod.case by (rule conjI)
qed

end
