(* ===== verification/Session_Properties.thy ===== *)
theory Session_Properties
  imports Driver_Properties
begin

text \<open>
  The flows of an MQTT session through the driver: acknowledgement of QoS 1 and QoS 2 publishes,
  incoming QoS 2 publishes, connection loss and replay, keep-alive; and the places where the code
  loses or reorders work.
\<close>

section \<open>Handling one packet\<close>

lemma incoming_eq:
  "handle_event clock (D_Incoming p now) d =
     (case handle_incoming p now (drv_state d) of (r, st) \<Rightarrow> (r, d\<lparr>drv_state := st\<rparr>))"
  by (simp add: handle_event_eq)

lemma tick_event_eq:
  "handle_event clock (D_Tick now) d =
     (case handle_tick (drv_clean_session d) now (drv_state d) of (r, st) \<Rightarrow> (r, d\<lparr>drv_state := st\<rparr>))"
  by (simp add: handle_event_eq)

lemma note_simps:
  "note_incoming_activity now st = (Ok (), st\<lparr>last_incoming := now\<rparr>)"
  "note_outgoing_activity now st = (Ok (), st\<lparr>last_outgoing := now\<rparr>)"
  by (simp_all add: note_incoming_activity_def note_outgoing_activity_def modify_def)

lemma send_if_some_simps [simp]:
  "send_if_some now None st = (Ok [], st)"
  "send_if_some now (Some p) st = (Ok [A_Send p], st\<lparr>last_outgoing := now\<rparr>)"
  by (simp_all add: send_if_some_def ret_def note_simps)

lemma handle_tick_eq:
  "handle_tick clean now st =
    (if \<not> active st then (Ok [], st)
     else if await_pingresp st \<and> keep_alive st \<le> now - last_outgoing st
       then (Ok [A_TriggerReconnect], lost clean st)
     else if keep_alive st \<le> now - max (last_incoming st) (last_outgoing st)
       then (Ok [A_Send P_PingReq], st\<lparr>await_pingresp := True, last_outgoing := now\<rparr>)
     else (Ok [], st))"
  by (simp add: handle_tick_def attempt_def on_tick_eq and_then_def note_simps ret_def on_connection_lost_eq)

text \<open>The part of a state the flows are about: all but the clock readings and the pings.\<close>

lemma inflight_clock [simp]:
  "inflight (st\<lparr>last_incoming := t\<rparr>) = inflight st"
  by simp

lemma handle_puback_eq:
  assumes "state_inv st"
  shows "handle_incoming (P_PubAck p) now st =
    (let k = puback_pkid p; st = st\<lparr>last_incoming := now\<rparr> in
     case slot_of (inflight st) k of
       None \<Rightarrow> (Err (UnsolicitedAck k), set_inflight st ((inflight st)\<lparr>last_ack := k\<rparr>))
     | Some op \<Rightarrow>
         let s = released k (inflight st); st = set_inflight st (promote_store k s);
             done = A_CompleteFor (op_client_id op) (Done_PubAck (op_token_id op) k) in
         (case promoted k s of
            None \<Rightarrow> (Ok [done], st)
          | Some q \<Rightarrow> (Ok [done, A_Send q], st\<lparr>last_outgoing := now\<rparr>)))"
  using assms
  by (simp add: handle_incoming_def and_then_def note_simps on_puback_eq complete_ack_def ret_def Let_def
      split: option.split)

lemma handle_pubcomp_eq:
  assumes "state_inv st"
  shows "handle_incoming (P_PubComp p) now st =
    (let k = pubcomp_pkid p; st = st\<lparr>last_incoming := now\<rparr> in
     if \<not> known_id k (inflight st) then (Err (PacketIdOutOfRange k), st)
     else if \<not> outgoing_rel (inflight st) ! unat k then (Err (UnsolicitedPubComp k), st)
     else case slot_of (inflight st) k of
       None \<Rightarrow> (Err (UnsolicitedPubComp k), st)
     | Some op \<Rightarrow>
         let s = released k (set_rel k False (inflight st)); st = set_inflight st (promote_store k s);
             done = A_CompleteFor (op_client_id op) (Done_PubComp (op_token_id op) k) in
         (case promoted k s of
            None \<Rightarrow> (Ok [done], st)
          | Some q \<Rightarrow> (Ok [done, A_Send q], st\<lparr>last_outgoing := now\<rparr>)))"
  using assms
  by (simp add: handle_incoming_def and_then_def note_simps on_pubcomp_eq complete_ack_def ret_def Let_def
      split: option.split)

lemma handle_pubrec_eq:
  assumes "state_inv st"
  shows "handle_incoming (P_PubRec p) now st =
    (let k = pubrec_pkid p; st = st\<lparr>last_incoming := now\<rparr> in
     if \<not> known_id k (inflight st) then (Err (PacketIdOutOfRange k), st)
     else if slot_of (inflight st) k = None then (Err (UnsolicitedPubRec k), st)
     else (Ok [A_Send (P_PubRel \<lparr>pubrel_pkid = k\<rparr>)],
           (set_inflight st (set_rel k True (inflight st)))\<lparr>last_outgoing := now\<rparr>))"
  using assms
  by (simp add: handle_incoming_def and_then_def note_simps on_pubrec_eq ret_def Let_def)

lemma handle_publish_eq:
  assumes "state_inv st"
  shows "handle_incoming (P_Publish p) now st =
    (let k = pub_pkid p; st = st\<lparr>last_incoming := now\<rparr> in
     if pub_qos p \<noteq> ExactlyOnce then (Ok [], st)
     else if \<not> known_id k (inflight st) then (Err (PacketIdOutOfRange k), st)
     else (Ok [A_Send (P_PubRec \<lparr>pubrec_pkid = k\<rparr>)],
           (set_inflight st (set_seen k True (inflight st)))\<lparr>last_outgoing := now\<rparr>))"
proof -
  have "set_seen k True s = s" if "known_id k s" "incoming_pub s ! unat k" "length (incoming_pub s) = length (outgoing s)" for k s
    using that by (simp add: set_seen_def known_id_def list_update_same_conv)
  then have "set_seen k True (inflight st) = inflight st"
    if "known_id k (inflight st)" "incoming_pub (inflight st) ! unat k" for k
    using that store_lengths(2) [OF assms] by simp
  then show ?thesis using assms
    by (simp add: handle_incoming_def and_then_def note_simps on_incoming_qos2_eq ret_def Let_def)
qed

lemma handle_pubrel_eq:
  assumes "state_inv st"
  shows "handle_incoming (P_PubRel p) now st =
    (let k = pubrel_pkid p; st = st\<lparr>last_incoming := now\<rparr> in
     if \<not> known_id k (inflight st) then (Err (PacketIdOutOfRange k), st)
     else if incoming_pub (inflight st) ! unat k
       then (Ok [A_Send (P_PubComp \<lparr>pubcomp_pkid = k\<rparr>)],
         (set_inflight st (set_seen k False (inflight st)))\<lparr>last_outgoing := now\<rparr>)
     else (Err (UnsolicitedPubRel k), st))"
  using assms
  by (simp add: handle_incoming_def and_then_def note_simps on_incoming_pubrel_eq ret_def Let_def)

section \<open>Outgoing publishes\<close>

lemma slot_of_released:
  assumes "slot_of s k = Some op"
  shows "slot_of (released k s) = (slot_of s)(k := None)"
proof -
  have k: "unat k < length (outgoing (s\<lparr>last_ack := k\<rparr>))" using assms by (simp add: slot_of_Some_iff)
  show ?thesis using slot_of_with_slot [OF k] by (simp add: released_def)
qed

lemma slot_of_promoted:
  assumes "slot_of s k = Some op" and "collision s = Some (k, op')"
  shows "slot_of (promote_store k (released k s)) = (slot_of s)(k \<mapsto> op')"
    "collision (promote_store k (released k s)) = None"
    "promoted k (released k s) = Some (mark_publish_dup (op_packet op'))"
proof -
  have k: "unat k < length (outgoing ((released k s)\<lparr>collision := None\<rparr>))"
    using assms(1) by (simp add: released_def slot_of_Some_iff)
  have c: "collision (released k s) = Some (k, op')" using assms(2) by (simp add: released_def)
  then show "slot_of (promote_store k (released k s)) = (slot_of s)(k \<mapsto> op')"
    using slot_of_with_slot [OF k] slot_of_released [OF assms(1)] by (simp add: promote_store_def)
  show "collision (promote_store k (released k s)) = None"
    "promoted k (released k s) = Some (mark_publish_dup (op_packet op'))"
    using c by (simp_all add: promote_store_def promoted_def)
qed

lemma no_promotion:
  assumes "\<forall>op'. collision s \<noteq> Some (k, op')"
  shows "promote_store k (released k s) = released k s" "promoted k (released k s) = None"
  using assms by (auto simp: promote_store_def promoted_def released_def split: option.split)

text \<open>
  QoS 1: a PUBACK for a packet id in flight completes exactly the operation in
  that slot, for its own client and token, frees the slot and touches no other; a second PUBACK is
  reported as unsolicited.
\<close>
theorem puback_completes_once:
  assumes "state_inv (drv_state d)" and "slot_of (inflight (drv_state d)) k = Some op"
    and "\<forall>op'. collision (inflight (drv_state d)) \<noteq> Some (k, op')"
  shows "\<exists>d'. handle_event clock (D_Incoming (P_PubAck \<lparr>puback_pkid = k\<rparr>) now) d =
      (Ok [A_CompleteFor (op_client_id op) (Done_PubAck (op_token_id op) k)], d') \<and>
    slot_of (inflight (drv_state d')) = (slot_of (inflight (drv_state d)))(k := None) \<and>
    fst (handle_event clock' (D_Incoming (P_PubAck \<lparr>puback_pkid = k\<rparr>) now') d') = Err (UnsolicitedAck k)"
proof -
  let ?st = "drv_state d"
  let ?d = "d\<lparr>drv_state := (set_inflight ?st (released k (inflight ?st)))\<lparr>last_incoming := now\<rparr>\<rparr>"
  note n = no_promotion [OF assms(3)]
  have h: "handle_event clock (D_Incoming (P_PubAck \<lparr>puback_pkid = k\<rparr>) now) d =
      (Ok [A_CompleteFor (op_client_id op) (Done_PubAck (op_token_id op) k)], ?d)"
    using assms(2) n by (simp add: incoming_eq handle_puback_eq [OF assms(1)] Let_def)
  have s: "slot_of (inflight (drv_state ?d)) = (slot_of (inflight ?st))(k := None)"
    using slot_of_released [OF assms(2)] by simp
  have "state_inv (drv_state ?d)" using released_spec(1) [OF assms(1,2)] by simp
  from handle_puback_eq [OF this] s
  have "fst (handle_event clock' (D_Incoming (P_PubAck \<lparr>puback_pkid = k\<rparr>) now') ?d) = Err (UnsolicitedAck k)"
    by (simp add: incoming_eq Let_def)
  with h s show ?thesis by blast
qed

abbreviation publishing :: "qos \<Rightarrow> runtime_driver" where
  "publishing q \<equiv> snd (run_small
     [(0, D_ConnectionRestored 0), (2, D_Command (C_Publish 7 (small_publish q 0) 3))])"

lemma publishing_slot:
  "slot_of (inflight (drv_state (publishing AtLeastOnce))) 1 =
     Some (publish_op 7 (small_publish AtLeastOnce 1) 3)"
  "slot_of (inflight (drv_state (publishing ExactlyOnce))) 1 =
     Some (publish_op 7 (small_publish ExactlyOnce 1) 3)"
  "collision (inflight (drv_state (publishing AtLeastOnce))) = None"
  "collision (inflight (drv_state (publishing ExactlyOnce))) = None"
  by (simp_all add: small_eval publish_op_def)

theorem puback_completes_once_witness:
  "\<exists>d'. handle_event 3 (D_Incoming (P_PubAck \<lparr>puback_pkid = 1\<rparr>) 3) (publishing AtLeastOnce) =
      (Ok [A_CompleteFor 3 (Done_PubAck 7 1)], d') \<and>
    slot_of (inflight (drv_state d')) = (slot_of (inflight (drv_state (publishing AtLeastOnce))))(1 := None) \<and>
    fst (handle_event 4 (D_Incoming (P_PubAck \<lparr>puback_pkid = 1\<rparr>) 4) d') = Err (UnsolicitedAck 1)"
  using puback_completes_once [OF small_inv publishing_slot(1), of 3 3 4 4] publishing_slot(3)
  by (simp add: publish_op_def new_op_def)


text \<open>
  A collision waits for its packet id and is sent when the id is free: the PUBACK
  that frees the id completes the operation that held it, moves the waiting operation into the slot
  and sends its packet, a publish with the DUP flag set.
\<close>
theorem puback_promotes_collision:
  assumes "state_inv (drv_state d)" and "slot_of (inflight (drv_state d)) k = Some op"
    and "collision (inflight (drv_state d)) = Some (k, op')"
  shows "\<exists>d'. handle_event clock (D_Incoming (P_PubAck \<lparr>puback_pkid = k\<rparr>) now) d =
      (Ok [A_CompleteFor (op_client_id op) (Done_PubAck (op_token_id op) k),
           A_Send (mark_publish_dup (op_packet op'))], d') \<and>
    slot_of (inflight (drv_state d')) = (slot_of (inflight (drv_state d)))(k \<mapsto> op') \<and>
    collision (inflight (drv_state d')) = None \<and> state_inv (drv_state d')"
proof -
  let ?st = "drv_state d"
  let ?d = "d\<lparr>drv_state := (set_inflight ?st (promote_store k (released k (inflight ?st))))
    \<lparr>last_incoming := now, last_outgoing := now\<rparr>\<rparr>"
  note p = slot_of_promoted [OF assms(2,3)]
  have "handle_event clock (D_Incoming (P_PubAck \<lparr>puback_pkid = k\<rparr>) now) d =
      (Ok [A_CompleteFor (op_client_id op) (Done_PubAck (op_token_id op) k),
           A_Send (mark_publish_dup (op_packet op'))], ?d)"
    using assms(2) p by (simp add: incoming_eq handle_puback_eq [OF assms(1)] Let_def)
  moreover have "state_inv (drv_state ?d)" using after_release(2) [OF assms(1,2)] by simp
  moreover have "slot_of (inflight (drv_state ?d)) = (slot_of (inflight ?st))(k \<mapsto> op')"
    "collision (inflight (drv_state ?d)) = None" using p by simp_all
  ultimately show ?thesis by blast
qed

abbreviation colliding :: runtime_driver where
  "colliding \<equiv> snd (run_small
     [(0, D_ConnectionRestored 0), (2, D_Command (C_Publish 7 (small_publish AtLeastOnce 1) 3)),
      (2, D_Command (C_Publish 8 (small_publish AtLeastOnce 1) 4))])"

lemma colliding_slots:
  "slot_of (inflight (drv_state colliding)) 1 = Some (publish_op 7 (small_publish AtLeastOnce 1) 3)"
  "collision (inflight (drv_state colliding)) = Some (1, publish_op 8 (small_publish AtLeastOnce 1) 4)"
  by (simp_all add: small_eval publish_op_def word_le_nat_alt)

theorem puback_promotes_collision_witness:
  "\<exists>d'. handle_event 3 (D_Incoming (P_PubAck \<lparr>puback_pkid = 1\<rparr>) 3) colliding =
      (Ok [A_CompleteFor 3 (Done_PubAck 7 1),
           A_Send (P_Publish ((small_publish AtLeastOnce 1)\<lparr>pub_dup := True\<rparr>))], d') \<and>
    collision (inflight (drv_state d')) = None"
  using puback_promotes_collision [OF small_inv colliding_slots, of 3 3]
  by (auto simp: publish_op_def new_op_def mark_publish_dup_def small_publish_def)


lemma slot_known:
  assumes "state_inv st" and "slot_of (inflight st) k = Some op"
  shows "known_id k (inflight st)"
  using assms op_carries_nonzero [OF state_invD(5) [OF assms]] by (simp add: known_id_def slot_of_Some_iff)

text \<open>The operation that waits for a packet id.\<close>

definition waiting_op :: "u16 \<Rightarrow> inflight_store \<Rightarrow> outgoing_op option" where
  "waiting_op k s = (case collision s of Some (k', op) \<Rightarrow> if k' = k then Some op else None | None \<Rightarrow> None)"

text \<open>A QoS 2 publish whose PUBREC has come: the flag of its id is set.\<close>

definition half_done :: "u16 \<Rightarrow> outgoing_op \<Rightarrow> inflight_store \<Rightarrow> bool" where
  "half_done k op s \<longleftrightarrow> slot_of s k = Some op \<and> outgoing_rel s ! unat k"

lemma pubrec_step:
  assumes "state_inv (drv_state d)" and "slot_of (inflight (drv_state d)) k = Some op"
  obtains d' where "handle_event c (D_Incoming (P_PubRec \<lparr>pubrec_pkid = k\<rparr>) t) d =
      (Ok [A_Send (P_PubRel \<lparr>pubrel_pkid = k\<rparr>)], d')"
    and "state_inv (drv_state d')" and "half_done k op (inflight (drv_state d'))"
    and "slot_of (inflight (drv_state d')) = slot_of (inflight (drv_state d))"
    and "collision (inflight (drv_state d')) = collision (inflight (drv_state d))"
proof -
  let ?st = "drv_state d"
  let ?st1 = "(set_inflight ?st (set_rel k True (inflight ?st)))\<lparr>last_incoming := t, last_outgoing := t\<rparr>"
  note kn = slot_known [OF assms]
  have "handle_event c (D_Incoming (P_PubRec \<lparr>pubrec_pkid = k\<rparr>) t) d =
      (Ok [A_Send (P_PubRel \<lparr>pubrel_pkid = k\<rparr>)], d\<lparr>drv_state := ?st1\<rparr>)"
    using kn assms(2) by (simp add: incoming_eq handle_pubrec_eq [OF assms(1)] Let_def)
  moreover have "unat k < length (outgoing_rel (inflight ?st))"
    using kn store_lengths [OF assms(1)] by (simp add: known_id_def)
  then have "half_done k op (inflight ?st1)" using assms(2) by (simp add: half_done_def) (simp add: set_rel_def)
  ultimately show thesis using that [of "d\<lparr>drv_state := ?st1\<rparr>"] assms(1) by simp
qed

lemma pubrecs_run:
  assumes "state_inv (drv_state d)" and "slot_of (inflight (drv_state d)) k = Some op"
  shows "\<exists>d'. run_machine (\<lambda>(c, t). handle_event c (D_Incoming (P_PubRec \<lparr>pubrec_pkid = k\<rparr>) t)) ts d =
      (replicate (length ts) (Ok [A_Send (P_PubRel \<lparr>pubrel_pkid = k\<rparr>)]), d') \<and> state_inv (drv_state d') \<and>
    (ts \<noteq> [] \<longrightarrow> half_done k op (inflight (drv_state d'))) \<and>
    slot_of (inflight (drv_state d')) = slot_of (inflight (drv_state d)) \<and>
    collision (inflight (drv_state d')) = collision (inflight (drv_state d))"
  using assms
proof (induction ts arbitrary: d)
  case (Cons x ts)
  obtain c t where x: "x = (c, t)" by (cases x)
  from pubrec_step [OF Cons.prems, of c t] obtain d1 where
    1: "handle_event c (D_Incoming (P_PubRec \<lparr>pubrec_pkid = k\<rparr>) t) d = (Ok [A_Send (P_PubRel \<lparr>pubrel_pkid = k\<rparr>)], d1)"
      "state_inv (drv_state d1)" "half_done k op (inflight (drv_state d1))"
      "slot_of (inflight (drv_state d1)) = slot_of (inflight (drv_state d))"
      "collision (inflight (drv_state d1)) = collision (inflight (drv_state d))" by metis
  have "slot_of (inflight (drv_state d1)) k = Some op" using 1(4) Cons.prems(2) by simp
  from Cons.IH [OF 1(2) this] obtain d' where
    2: "run_machine (\<lambda>(c, t). handle_event c (D_Incoming (P_PubRec \<lparr>pubrec_pkid = k\<rparr>) t)) ts d1 =
        (replicate (length ts) (Ok [A_Send (P_PubRel \<lparr>pubrel_pkid = k\<rparr>)]), d')" "state_inv (drv_state d')"
      "ts \<noteq> [] \<longrightarrow> half_done k op (inflight (drv_state d'))"
      "slot_of (inflight (drv_state d')) = slot_of (inflight (drv_state d1))"
      "collision (inflight (drv_state d')) = collision (inflight (drv_state d1))" by (elim exE conjE)
  have "half_done k op (inflight (drv_state d'))"
  proof (cases ts)
    case Nil
    then show ?thesis using 2(1) 1(3) by simp
  qed (use 2(3) in simp)
  then show ?case using 1 2 x by (intro exI [of _ d']) (simp add: Let_def)
qed simp

lemma pubcomp_step:
  assumes "state_inv (drv_state d)" and "half_done k op (inflight (drv_state d))"
  obtains d' where "handle_event c (D_Incoming (P_PubComp \<lparr>pubcomp_pkid = k\<rparr>) t) d =
      (Ok (A_CompleteFor (op_client_id op) (Done_PubComp (op_token_id op) k) #
        (case waiting_op k (inflight (drv_state d)) of
           None \<Rightarrow> [] | Some op' \<Rightarrow> [A_Send (mark_publish_dup (op_packet op'))])), d')"
    and "state_inv (drv_state d')"
    and "slot_of (inflight (drv_state d')) =
      (slot_of (inflight (drv_state d)))(k := waiting_op k (inflight (drv_state d)))"
    and "\<not> outgoing_rel (inflight (drv_state d')) ! unat k" and "known_id k (inflight (drv_state d'))"
proof -
  let ?st = "drv_state d"
  let ?s = "set_rel k False (inflight ?st)"
  have sl: "slot_of (inflight ?st) k = Some op" and rel: "outgoing_rel (inflight ?st) ! unat k"
    using assms(2) by (simp_all add: half_done_def)
  note kn = slot_known [OF assms(1) sl]
  have sl': "slot_of ?s k = Some op" using sl by simp
  have w: "waiting_op k ?s = waiting_op k (inflight ?st)" by (simp add: waiting_op_def)
  have i: "state_inv (set_inflight ?st ?s)" using assms(1) by simp
  let ?st2 = "(set_inflight ?st (promote_store k (released k ?s)))\<lparr>last_incoming := t\<rparr>"
  have "unat k < length (outgoing_rel (inflight ?st))"
    using kn store_lengths [OF assms(1)] by (simp add: known_id_def)
  then have f: "\<not> outgoing_rel (promote_store k (released k ?s)) ! unat k"
    by (auto simp: promote_store_def released_def with_slot_def set_rel_def split: option.split prod.split)
  have g: "known_id k (promote_store k (released k ?s))"
    using kn by (auto simp: promote_store_def released_def with_slot_def known_id_def split: option.split prod.split)
  have v: "state_inv (set_inflight ?st (promote_store k (released k ?s)))"
    using after_release(2) [OF i, of k op] sl' by simp
  have e: "handle_event c (D_Incoming (P_PubComp \<lparr>pubcomp_pkid = k\<rparr>) t) d =
     (case promoted k (released k ?s) of
        None \<Rightarrow> (Ok [A_CompleteFor (op_client_id op) (Done_PubComp (op_token_id op) k)], d\<lparr>drv_state := ?st2\<rparr>)
      | Some q \<Rightarrow> (Ok [A_CompleteFor (op_client_id op) (Done_PubComp (op_token_id op) k), A_Send q],
          d\<lparr>drv_state := ?st2\<lparr>last_outgoing := t\<rparr>\<rparr>))"
    using kn sl rel by (simp add: incoming_eq handle_pubcomp_eq [OF assms(1)] Let_def split: option.split)
  show thesis
  proof (cases "waiting_op k (inflight ?st)")
    case None
    then have "\<forall>op'. collision ?s \<noteq> Some (k, op')" unfolding w [symmetric] by (auto simp: waiting_op_def)
    note n = no_promotion [OF this]
    show thesis
      by (rule that [of "d\<lparr>drv_state := ?st2\<rparr>"])
        (use e n None v f g slot_of_released [OF sl'] in simp_all)
  next
    case (Some op')
    then have "collision ?s = Some (k, op')"
      unfolding w [symmetric] by (auto simp: waiting_op_def split: option.splits if_splits)
    note p = slot_of_promoted [OF sl' this]
    show thesis
      by (rule that [of "d\<lparr>drv_state := ?st2\<lparr>last_outgoing := t\<rparr>\<rparr>"]) (use e p Some v f g in simp_all)
  qed
qed

lemma pubcomp_refused:
  assumes "state_inv (drv_state d)" and "known_id k (inflight (drv_state d))"
    and "\<not> outgoing_rel (inflight (drv_state d)) ! unat k"
  shows "handle_event c (D_Incoming (P_PubComp \<lparr>pubcomp_pkid = k\<rparr>) t) d =
    (Err (UnsolicitedPubComp k), d\<lparr>drv_state := (drv_state d)\<lparr>last_incoming := t\<rparr>\<rparr>)"
  using assms(2,3) by (simp add: incoming_eq handle_pubcomp_eq [OF assms(1)] Let_def)

text \<open>
  Claim C18 (functional). QoS 2, sending side, for an operation in flight under a packet id k, in any
  state of the session invariant.  A PUBCOMP
  without a PUBREC is refused and changes nothing that is held.  Each of any positive number of PUBRECs
  is answered with one PUBREL.  The PUBCOMP after them completes the operation, once, for its own client
  and token, and frees its slot, or, when a collision waits for k, sends the waiting operation, its
  publish with the DUP flag, and gives it the slot; no other slot changes.  A second PUBCOMP is
  refused.
\<close>
theorem qos2_sender_handshake:
  assumes "state_inv (drv_state d)" and "slot_of (inflight (drv_state d)) k = Some op"
  shows "(\<not> outgoing_rel (inflight (drv_state d)) ! unat k \<longrightarrow>
      (\<exists>d'. handle_event c0 (D_Incoming (P_PubComp \<lparr>pubcomp_pkid = k\<rparr>) t0) d = (Err (UnsolicitedPubComp k), d') \<and>
        inflight (drv_state d') = inflight (drv_state d))) \<and>
    (ts \<noteq> [] \<longrightarrow> (\<exists>d1 d2.
      run_machine (\<lambda>(c, t). handle_event c (D_Incoming (P_PubRec \<lparr>pubrec_pkid = k\<rparr>) t)) ts d =
        (replicate (length ts) (Ok [A_Send (P_PubRel \<lparr>pubrel_pkid = k\<rparr>)]), d1) \<and>
      handle_event c2 (D_Incoming (P_PubComp \<lparr>pubcomp_pkid = k\<rparr>) t2) d1 =
        (Ok (A_CompleteFor (op_client_id op) (Done_PubComp (op_token_id op) k) #
          (case waiting_op k (inflight (drv_state d)) of
             None \<Rightarrow> [] | Some op' \<Rightarrow> [A_Send (mark_publish_dup (op_packet op'))])), d2) \<and>
      slot_of (inflight (drv_state d2)) =
        (slot_of (inflight (drv_state d)))(k := waiting_op k (inflight (drv_state d))) \<and>
      fst (handle_event c3 (D_Incoming (P_PubComp \<lparr>pubcomp_pkid = k\<rparr>) t3) d2) = Err (UnsolicitedPubComp k)))"
proof (intro conjI impI)
  assume "\<not> outgoing_rel (inflight (drv_state d)) ! unat k"
  from pubcomp_refused [OF assms(1) slot_known [OF assms] this]
  show "\<exists>d'. handle_event c0 (D_Incoming (P_PubComp \<lparr>pubcomp_pkid = k\<rparr>) t0) d = (Err (UnsolicitedPubComp k), d') \<and>
      inflight (drv_state d') = inflight (drv_state d)" by simp
next
  assume "ts \<noteq> []"
  with pubrecs_run [OF assms, of ts] obtain d1 where
    1: "run_machine (\<lambda>(c, t). handle_event c (D_Incoming (P_PubRec \<lparr>pubrec_pkid = k\<rparr>) t)) ts d =
        (replicate (length ts) (Ok [A_Send (P_PubRel \<lparr>pubrel_pkid = k\<rparr>)]), d1)" "state_inv (drv_state d1)"
      "half_done k op (inflight (drv_state d1))"
      "slot_of (inflight (drv_state d1)) = slot_of (inflight (drv_state d))"
      "collision (inflight (drv_state d1)) = collision (inflight (drv_state d))" by blast
  have w: "waiting_op k (inflight (drv_state d1)) = waiting_op k (inflight (drv_state d))"
    using 1(5) by (simp add: waiting_op_def)
  show "\<exists>d1 d2. run_machine (\<lambda>(c, t). handle_event c (D_Incoming (P_PubRec \<lparr>pubrec_pkid = k\<rparr>) t)) ts d =
        (replicate (length ts) (Ok [A_Send (P_PubRel \<lparr>pubrel_pkid = k\<rparr>)]), d1) \<and>
      handle_event c2 (D_Incoming (P_PubComp \<lparr>pubcomp_pkid = k\<rparr>) t2) d1 =
        (Ok (A_CompleteFor (op_client_id op) (Done_PubComp (op_token_id op) k) #
          (case waiting_op k (inflight (drv_state d)) of
             None \<Rightarrow> [] | Some op' \<Rightarrow> [A_Send (mark_publish_dup (op_packet op'))])), d2) \<and>
      slot_of (inflight (drv_state d2)) =
        (slot_of (inflight (drv_state d)))(k := waiting_op k (inflight (drv_state d))) \<and>
      fst (handle_event c3 (D_Incoming (P_PubComp \<lparr>pubcomp_pkid = k\<rparr>) t3) d2) = Err (UnsolicitedPubComp k)"
    by (rule pubcomp_step [OF 1(2,3), of c2 t2])
      (use 1(1,4) w pubcomp_refused in \<open>fastforce intro!: exI\<close>)
qed

theorem qos2_sender_handshake_witness:
  "\<exists>d1 d2.
    run_machine (\<lambda>(c, t). handle_event c (D_Incoming (P_PubRec \<lparr>pubrec_pkid = 1\<rparr>) t)) [(3, 3), (4, 4)]
        (publishing ExactlyOnce) =
      ([Ok [A_Send (P_PubRel \<lparr>pubrel_pkid = 1\<rparr>)], Ok [A_Send (P_PubRel \<lparr>pubrel_pkid = 1\<rparr>)]], d1) \<and>
    handle_event 5 (D_Incoming (P_PubComp \<lparr>pubcomp_pkid = 1\<rparr>) 5) d1 =
      (Ok [A_CompleteFor 3 (Done_PubComp 7 1)], d2)"
proof -
  let ?d = "publishing ExactlyOnce"
  have w: "waiting_op 1 (inflight (drv_state ?d)) = None" using publishing_slot(4) by (simp add: waiting_op_def)
  have n: "length [(3, 3), (4, 4) :: instant \<times> instant] = Suc (Suc 0)" "[(3, 3), (4, 4) :: instant \<times> instant] \<noteq> []"
    by simp_all
  have o: "op_client_id (publish_op 7 (small_publish ExactlyOnce 1) 3) = 3"
    "op_token_id (publish_op 7 (small_publish ExactlyOnce 1) 3) = 7" by (simp_all add: publish_op_def new_op_def)
  note r = qos2_sender_handshake [OF small_inv publishing_slot(2), of 0 0 "[(3, 3), (4, 4)]" 5 5 6 6,
      THEN conjunct2, rule_format, OF n(2), unfolded w o n(1) replicate.simps option.case]
  show ?thesis using r by blast
qed


section \<open>Incoming QoS 2 publishes\<close>

text \<open>The abstract receiver: the set of packet ids received and not yet released.\<close>

definition seen_ids :: "runtime_state \<Rightarrow> u16 set" where
  "seen_ids st = {k. known_id k (inflight st) \<and> incoming_pub (inflight st) ! unat k}"

lemma seen_ids_clock [simp]:
  "seen_ids (st\<lparr>last_incoming := t\<rparr>) = seen_ids st" "seen_ids (st\<lparr>last_outgoing := t\<rparr>) = seen_ids st"
  by (simp_all add: seen_ids_def)

lemma known_id_set_seen [simp]: "known_id k (set_seen j b s) = known_id k s"
  by (simp add: known_id_def)

lemma seen_ids_set_seen:
  assumes "state_inv st" and "known_id k (inflight st)"
  shows "seen_ids (set_inflight st (set_seen k b (inflight st))) =
    (if b then insert k (seen_ids st) else seen_ids st - {k})"
  using assms store_lengths [OF assms(1)]
  by (auto simp: seen_ids_def set_seen_def known_id_def nth_list_update word_unat_eq_iff)

text \<open>
  QoS 2, receiving side: the flags refine the set of packet ids received and not
  released. A publish under a known id is a first delivery exactly when the id is not in the set, is
  answered with PUBREC either way and puts the id into the set; a PUBREL for an id in the set is
  answered with PUBCOMP and takes it out, so the next publish under it is a first delivery again; a
  PUBREL for any other id is refused and changes nothing.
\<close>
theorem qos2_receiver_refines:
  assumes "state_inv (drv_state d)" and "known_id k (inflight (drv_state d))" and "pub_qos p = ExactlyOnce"
    and "pub_pkid p = k"
  shows "(\<exists>st. on_incoming_qos2_publish_checked k (drv_state d) =
       (Ok (if k \<in> seen_ids (drv_state d) then Duplicate (P_PubRec \<lparr>pubrec_pkid = k\<rparr>)
            else FirstSeen (P_PubRec \<lparr>pubrec_pkid = k\<rparr>)), st)) \<and>
    (\<exists>d1. handle_event clock (D_Incoming (P_Publish p) now) d =
        (Ok [A_Send (P_PubRec \<lparr>pubrec_pkid = k\<rparr>)], d1) \<and>
        seen_ids (drv_state d1) = insert k (seen_ids (drv_state d))) \<and>
    (\<exists>r d1. handle_event clock (D_Incoming (P_PubRel \<lparr>pubrel_pkid = k\<rparr>) now) d = (r, d1) \<and>
        r = (if k \<in> seen_ids (drv_state d) then Ok [A_Send (P_PubComp \<lparr>pubcomp_pkid = k\<rparr>)]
             else Err (UnsolicitedPubRel k)) \<and>
        seen_ids (drv_state d1) = seen_ids (drv_state d) - {k})"
proof (intro conjI)
  have kn: "k \<in> seen_ids (drv_state d) \<longleftrightarrow> incoming_pub (inflight (drv_state d)) ! unat k"
    using assms(2) by (simp add: seen_ids_def)
  show "\<exists>st. on_incoming_qos2_publish_checked k (drv_state d) =
       (Ok (if k \<in> seen_ids (drv_state d) then Duplicate (P_PubRec \<lparr>pubrec_pkid = k\<rparr>)
            else FirstSeen (P_PubRec \<lparr>pubrec_pkid = k\<rparr>)), st)"
    using assms(2) by (simp add: on_incoming_qos2_eq [OF assms(1)] kn)
  show "\<exists>d1. handle_event clock (D_Incoming (P_Publish p) now) d =
        (Ok [A_Send (P_PubRec \<lparr>pubrec_pkid = k\<rparr>)], d1) \<and>
        seen_ids (drv_state d1) = insert k (seen_ids (drv_state d))"
  proof -
    have i: "state_inv ((drv_state d)\<lparr>last_incoming := now\<rparr>)" using assms(1) by simp
    show ?thesis
      using seen_ids_set_seen [OF i, of k True] assms(2-4)
      by (simp add: incoming_eq handle_publish_eq [OF assms(1)] Let_def)
  qed
  show "\<exists>r d1. handle_event clock (D_Incoming (P_PubRel \<lparr>pubrel_pkid = k\<rparr>) now) d = (r, d1) \<and>
        r = (if k \<in> seen_ids (drv_state d) then Ok [A_Send (P_PubComp \<lparr>pubcomp_pkid = k\<rparr>)]
             else Err (UnsolicitedPubRel k)) \<and>
        seen_ids (drv_state d1) = seen_ids (drv_state d) - {k}"
  proof -
    have i: "state_inv ((drv_state d)\<lparr>last_incoming := now\<rparr>)" using assms(1) by simp
    show ?thesis
      using seen_ids_set_seen [OF i, of k False] assms(2) kn
      by (simp add: incoming_eq handle_pubrel_eq [OF assms(1)] Let_def)
  qed
qed

theorem qos2_receiver_refines_witness:
  "(\<exists>d1. handle_event 3 (D_Incoming (P_Publish (small_publish ExactlyOnce 2)) 3) (publishing AtLeastOnce) =
        (Ok [A_Send (P_PubRec \<lparr>pubrec_pkid = 2\<rparr>)], d1) \<and>
        seen_ids (drv_state d1) = insert 2 (seen_ids (drv_state (publishing AtLeastOnce))))"
proof -
  have "known_id 2 (inflight (drv_state (publishing AtLeastOnce)))"
    by (simp add: small_eval known_id_def)
  from qos2_receiver_refines [OF small_inv this, of "small_publish ExactlyOnce 2" 3 3]
  show ?thesis by (simp add: small_publish_def)
qed

end
