(* ===== verification/Reconnect_Properties.thy ===== *)
theory Reconnect_Properties
  imports Session_Properties
begin

text \<open>
  Connection loss, the offline queue, the replay after a reconnect, the keep-alive timer, and the
  situations in which the code loses or misreports work.
\<close>

section \<open>Commands\<close>

lemma command_event_eq:
  "handle_event clock (D_Command c) d =
     (case handle_command clock c (drv_state d) of (r, st) \<Rightarrow> (r, d\<lparr>drv_state := st\<rparr>))"
  by (simp add: handle_event_eq)

text \<open>The operations a command asks for; Ping and Disconnect are ignored by the driver.\<close>

fun asks_operation :: "command \<Rightarrow> bool" where
  "asks_operation C_Ping = False"
| "asks_operation C_Disconnect = False"
| "asks_operation _ = True"

fun tracked_command :: "command \<Rightarrow> bool" where
  "tracked_command (C_Publish _ p _) = (pub_qos p \<noteq> AtMostOnce)"
| "tracked_command (C_Subscribe _ _ _) = True"
| "tracked_command (C_Unsubscribe _ _ _) = True"
| "tracked_command _ = False"

text \<open>\<open>submit\<close> on an inactive state, and on an active state.\<close>

lemma submit_inactive:
  assumes st: "state_inv st" "\<not> active st"
    and c: "\<And>k. tracked \<Longrightarrow> k \<noteq> 0 \<Longrightarrow> op_carries k (mk k)" and u: "\<not> tracked \<Longrightarrow> op_ok (mk k0)"
  shows "\<exists>k p. submit tracked k0 mk wire st =
      (Ok None, st\<lparr>pkid_pool := p, inflight := (inflight st)\<lparr>pending := pending (inflight st) @ [mk k]\<rparr>\<rparr>) \<and>
    op_ok (mk k)"
proof -
  from assign_pkid_spec [OF st(1), of tracked k0] obtain k p where
    a: "assign_pkid tracked k0 st = (Ok k, st\<lparr>pkid_pool := p\<rparr>)" "tracked \<longrightarrow> k \<noteq> 0" "\<not> tracked \<longrightarrow> k = k0"
    by blast
  have "op_ok (mk k)" using a(2,3) c u op_carries_ok by blast
  then show ?thesis using a(1) st(2)
    by (intro exI [of _ k] exI [of _ p]) (simp add: submit_def get_def ret_def push_pending_eq)
qed

text \<open>Where an operation goes, with the answer whether it took its slot: the store has no collision.\<close>

definition stored :: "u16 \<Rightarrow> outgoing_op \<Rightarrow> inflight_store \<Rightarrow> bool \<times> inflight_store" where
  "stored k op s =
     (if inflight_count s \<ge> store_max_inflight s \<or> store_max_inflight s < k then
        (False, s\<lparr>pending := pending s @ [op]\<rparr>)
      else if slot_of s k \<noteq> None then (False, s\<lparr>collision := Some (k, op)\<rparr>)
      else (True, with_slot k (Some op) (inflight_count s + 1) s))"

lemma insert_or_park_stored:
  assumes "state_inv st" and "collision (inflight st) = None"
  shows "insert_or_park k op st =
    (Ok (fst (stored k op (inflight st))), set_inflight st (snd (stored k op (inflight st))))"
proof -
  have "length (outgoing (inflight st)) \<le> unat k \<longleftrightarrow> store_max_inflight (inflight st) < k"
    using state_invD(4) [OF assms(1)] by (auto simp: store_inv_def word_less_nat_alt)
  then show ?thesis using assms(2) by (simp add: insert_or_park_eq stored_def Let_def)
qed

lemma submit_online:
  assumes st: "state_inv st" "active st" "collision (inflight st) = None"
    and k: "k = (if tracked \<and> k0 = 0 then next_id (pkid_pool st) else k0)"
    and c: "tracked \<Longrightarrow> k \<noteq> 0 \<Longrightarrow> op_carries k (mk k)"
  shows "\<exists>st'. submit tracked k0 mk wire st =
      (Ok (if tracked \<longrightarrow> fst (stored k (mk k) (inflight st)) then Some (wire k) else None), st') \<and>
    inflight st' = (if tracked then snd (stored k (mk k) (inflight st)) else inflight st) \<and>
    owners st' = owners st + (if tracked then {#owner (mk k)#} else {#})"
proof -
  note i = state_invD [OF st(1)]
  have nz: "k \<noteq> 0" if tracked using that k next_id_range(3) [OF i(1)] by simp
  have "last_pkid (pkid_pool st) \<noteq> 0xFFFF"
    using i(1,2,3) u16_ge_FFFF [of "pool_max_inflight (pkid_pool st)"] by (auto simp: pool_inv_def)
  then obtain p where a: "assign_pkid tracked k0 st = (Ok k, st\<lparr>pkid_pool := p\<rparr>)"
    and j: "state_inv (st\<lparr>pkid_pool := p\<rparr>)"
    using assign_pkid_spec [OF st(1), of tracked k0] k
    by (cases "tracked \<and> k0 = 0") (auto simp: assign_pkid_def in_pool_def on_field_def next_candidate_eq ret_def)
  show ?thesis
  proof (cases tracked)
    case False
    then show ?thesis using a st(2) by (simp add: submit_def get_def ret_def owners_def)
  next
    case True
    let ?st = "st\<lparr>pkid_pool := p\<rparr>"
    have e: "insert_or_park k (mk k) ?st = (Ok (fst (stored k (mk k) (inflight st))),
        set_inflight ?st (snd (stored k (mk k) (inflight st))))"
      using insert_or_park_stored [OF j, of k "mk k"] st(3) by simp
    have "active ?st" using st(2) by simp
    from insert_or_park_spec [OF j this c [OF True nz [OF True]]] e st(3)
    have "owners (set_inflight ?st (snd (stored k (mk k) (inflight st)))) = owners st + {#owner (mk k)#}"
      by (auto simp: owners_def dest!: arg_cong [where f = inflight])
    moreover have "submit tracked k0 mk wire st =
        (Ok (if fst (stored k (mk k) (inflight st)) then Some (wire k) else None),
         set_inflight ?st (snd (stored k (mk k) (inflight st))))"
      using True a e st(2) by (simp add: submit_def get_def ret_def)
    ultimately show ?thesis using True by simp
  qed
qed

section \<open>Offline queue\<close>

text \<open>
  Offline, nothing is sent and nothing is lost: on an inactive state every
  publish, subscribe and unsubscribe command is answered with no action and appended, under its own
  client and token and with a packet id assigned where it needs one, at the end of the pending list;
  the slots stay as they are.
\<close>
theorem offline_commands_are_queued:
  assumes "state_inv (drv_state d)" and "\<not> active (drv_state d)" and "asks_operation c"
  shows "\<exists>op d'. handle_event clock (D_Command c) d = (Ok [], d') \<and>
    pending (inflight (drv_state d')) = pending (inflight (drv_state d)) @ [op] \<and>
    op_ok op \<and> {#owner op#} = command_owner c \<and>
    outgoing (inflight (drv_state d')) = outgoing (inflight (drv_state d)) \<and> \<not> active (drv_state d')"
proof -
  let ?st = "drv_state d"
  have "\<exists>op p. handle_command clock c ?st =
      (Ok [], ?st\<lparr>pkid_pool := p, inflight := (inflight ?st)\<lparr>pending := pending (inflight ?st) @ [op]\<rparr>\<rparr>) \<and>
      op_ok op \<and> {#owner op#} = command_owner c"
  proof (cases c)
    case (C_Publish t p cl)
    from submit_inactive [OF assms(1,2), of "pub_qos p \<noteq> AtMostOnce" "\<lambda>k. publish_op t (p\<lparr>pub_pkid := k\<rparr>) cl"
        "pub_pkid p" "\<lambda>k. P_Publish (p\<lparr>pub_pkid := k\<rparr>)"] C_Publish show ?thesis
      by (fastforce simp: handle_command_def on_command_submit ops_carry)
  next
    case (C_Subscribe t s cl)
    from submit_inactive [OF assms(1,2), of True "\<lambda>k. subscribe_op t (s\<lparr>sub_pkid := k\<rparr>) cl"
        "sub_pkid s" "\<lambda>k. P_Subscribe (s\<lparr>sub_pkid := k\<rparr>)"] C_Subscribe show ?thesis
      by (fastforce simp: handle_command_def on_command_submit ops_carry)
  next
    case (C_Unsubscribe t u cl)
    from submit_inactive [OF assms(1,2), of True "\<lambda>k. unsubscribe_op t (u\<lparr>unsub_pkid := k\<rparr>) cl"
        "unsub_pkid u" "\<lambda>k. P_UnSubscribe (u\<lparr>unsub_pkid := k\<rparr>)"] C_Unsubscribe show ?thesis
      by (fastforce simp: handle_command_def on_command_submit ops_carry)
  qed (use assms(3) in simp_all)
  then show ?thesis using assms(2) by (auto simp: command_event_eq)
qed

theorem offline_commands_are_queued_witness:
  "\<exists>op d'. handle_event 5 (D_Command (C_Publish 7 (small_publish AtLeastOnce 0) 3)) (snd (run_small [])) = (Ok [], d') \<and>
    pending (inflight (drv_state d')) = [op] \<and> owner op = (3, 7)"
proof -
  have "\<not> active (drv_state (snd (run_small [])))" "pending (inflight (drv_state (snd (run_small [])))) = []"
    by (simp_all add: small_eval)
  with offline_commands_are_queued [OF small_inv, of "[]" "C_Publish 7 (small_publish AtLeastOnce 0) 3" 5]
  show ?thesis by auto
qed

section \<open>Online commands\<close>

text \<open>The packet id a command comes with, and the operation it is kept as under a packet id.\<close>

fun command_id :: "command \<Rightarrow> u16" where
  "command_id (C_Publish _ p _) = pub_pkid p"
| "command_id (C_Subscribe _ sub _) = sub_pkid sub"
| "command_id (C_Unsubscribe _ u _) = unsub_pkid u"
| "command_id _ = 0"

fun kept_as :: "u16 \<Rightarrow> command \<Rightarrow> outgoing_op option" where
  "kept_as k (C_Publish t p c) = Some (publish_op t (p\<lparr>pub_pkid := k\<rparr>) c)"
| "kept_as k (C_Subscribe t sub c) = Some (subscribe_op t (sub\<lparr>sub_pkid := k\<rparr>) c)"
| "kept_as k (C_Unsubscribe t u c) = Some (unsubscribe_op t (u\<lparr>unsub_pkid := k\<rparr>) c)"
| "kept_as k _ = None"

text \<open>The id of a command on a state: its own, or the next one of the pool.\<close>

definition given_id :: "command \<Rightarrow> runtime_state \<Rightarrow> u16" where
  "given_id c st = (if tracked_command c \<and> command_id c = 0 then next_id (pkid_pool st) else command_id c)"

lemma command_submits:
  assumes "asks_operation c"
  obtains mk where "\<And>k. kept_as k c = Some (mk k)"
    and "\<And>clock st. handle_command clock c st = and_then
      (submit (tracked_command c) (command_id c) mk (\<lambda>k. op_packet (mk k))) (send_if_some clock) st"
    and "\<And>k. tracked_command c \<Longrightarrow> k \<noteq> 0 \<Longrightarrow> op_carries k (mk k)"
proof (cases c)
  case (C_Publish t p cl)
  show ?thesis
    by (rule that [of "\<lambda>k. publish_op t (p\<lparr>pub_pkid := k\<rparr>) cl"])
      (simp_all add: C_Publish handle_command_def on_command_submit ops_carry)
next
  case (C_Subscribe t sub cl)
  show ?thesis
    by (rule that [of "\<lambda>k. subscribe_op t (sub\<lparr>sub_pkid := k\<rparr>) cl"])
      (simp_all add: C_Subscribe handle_command_def on_command_submit ops_carry)
next
  case (C_Unsubscribe t u cl)
  show ?thesis
    by (rule that [of "\<lambda>k. unsubscribe_op t (u\<lparr>unsub_pkid := k\<rparr>) cl"])
      (simp_all add: C_Unsubscribe handle_command_def on_command_submit ops_carry)
qed (use assms in simp_all)

lemma submitted_command:
  assumes "state_inv st" and "active st" and "collision (inflight st) = None"
    and "k = given_id c st" and "kept_as k c = Some op"
  shows "\<exists>st'. handle_command clock c st = send_if_some clock
      (if tracked_command c \<longrightarrow> fst (stored k op (inflight st)) then Some (op_packet op) else None) st' \<and>
    inflight st' = (if tracked_command c then snd (stored k op (inflight st)) else inflight st) \<and>
    owners st' = owners st + (if tracked_command c then {#owner op#} else {#})"
proof -
  have "asks_operation c" using assms(5) by (cases c) simp_all
  then obtain mk where m: "\<And>k. kept_as k c = Some (mk k)"
    and h: "handle_command clock c st = and_then
      (submit (tracked_command c) (command_id c) mk (\<lambda>k. op_packet (mk k))) (send_if_some clock) st"
    and o: "\<And>k. tracked_command c \<Longrightarrow> k \<noteq> 0 \<Longrightarrow> op_carries k (mk k)"
    using command_submits [of c] by metis
  have op: "mk k = op" using m assms(5) by simp
  have oc: "tracked_command c \<Longrightarrow> k \<noteq> 0 \<Longrightarrow> op_carries k op" using o [of k] unfolding op .
  from submit_online [where mk = mk and wire = "\<lambda>k. op_packet (mk k)", OF assms(1-3) assms(4) [unfolded given_id_def],
      unfolded op, OF oc] obtain st' where s: "submit (tracked_command c) (command_id c) mk (\<lambda>k. op_packet (mk k)) st =
        (Ok (if tracked_command c \<longrightarrow> fst (stored k op (inflight st)) then Some (op_packet op) else None), st')"
      "inflight st' = (if tracked_command c then snd (stored k op (inflight st)) else inflight st)"
      "owners st' = owners st + (if tracked_command c then {#owner op#} else {#})"
    by blast
  then show ?thesis unfolding h by (intro exI [of _ st']) (simp add: and_then_def)
qed

text \<open>
  Claim C31 (functional). Online, in any state of the session invariant in which no collision is stored, what
  becomes of a publish, subscribe or unsubscribe command is exactly this.
  A QoS 0 publish is sent as it is and held nowhere.  A command that needs an acknowledgement is kept,
  under its client and token, as the operation with its own packet id or, when it has none, with the
  next id of the pool: in the slot of that id, and its packet, with the id, is the one packet sent, when
  the window has room and the slot is free; at the end of the pending list, with nothing sent, when the
  window is full or the id beyond it; as the collision, with nothing sent, when the slot is taken.
  Nothing else that is held changes.
\<close>
theorem online_commands_are_kept:
  assumes "state_inv (drv_state d)" and "active (drv_state d)"
    and "collision (inflight (drv_state d)) = None"
    and "k = given_id c (drv_state d)" and "kept_as k c = Some op"
  shows "\<exists>acts d'. handle_event clock (D_Command c) d = (Ok acts, d') \<and>
    owners (drv_state d') = owners (drv_state d) + (if tracked_command c then command_owner c else {#}) \<and>
    (let s = inflight (drv_state d); s' = inflight (drv_state d') in
     if \<not> tracked_command c then (\<exists>t p cl. c = C_Publish t p cl \<and> acts = [A_Send (P_Publish p)]) \<and> s' = s
     else if inflight_count s \<ge> store_max_inflight s \<or> store_max_inflight s < k then
       acts = [] \<and> s' = s\<lparr>pending := pending s @ [op]\<rparr>
     else if slot_of s k \<noteq> None then acts = [] \<and> s' = s\<lparr>collision := Some (k, op)\<rparr>
     else acts = [A_Send (op_packet op)] \<and> slot_of s' = (slot_of s)(k \<mapsto> op) \<and>
       pending s' = pending s \<and> collision s' = None)"
proof -
  let ?s = "inflight (drv_state d)"
  let ?x = "if tracked_command c \<longrightarrow> fst (stored k op ?s) then Some (op_packet op) else None"
  from submitted_command [OF assms, of clock] obtain st' where
    h: "handle_command clock c (drv_state d) = send_if_some clock ?x st'"
    and s: "inflight st' = (if tracked_command c then snd (stored k op ?s) else ?s)"
    and o: "owners st' = owners (drv_state d) + (if tracked_command c then {#owner op#} else {#})"
    by (elim exE conjE)
  have ow: "{#owner op#} = command_owner c" if "tracked_command c"
    using that assms(5) by (cases c) auto
  have p: "\<exists>t p cl. c = C_Publish t p cl \<and> op_packet op = P_Publish p" if "\<not> tracked_command c"
    using that assms(4,5) by (cases c) (auto simp: given_id_def)
  have sl: "slot_of (with_slot k (Some op) n ?s) = (slot_of ?s)(k \<mapsto> op)" if "\<not> store_max_inflight ?s < k" for n
    using that state_invD(4) [OF assms(1)]
    by (intro slot_of_with_slot) (simp add: store_inv_def word_less_nat_alt)
  define st'' where "st'' = (if ?x = None then st' else st'\<lparr>last_outgoing := clock\<rparr>)"
  have st: "inflight st'' = inflight st'" "owners st'' = owners st'" by (simp_all add: st''_def owners_def)
  have e: "handle_event clock (D_Command c) d =
      (Ok (case ?x of None \<Rightarrow> [] | Some q \<Rightarrow> [A_Send q]), d\<lparr>drv_state := st''\<rparr>)"
    by (simp add: command_event_eq h st''_def)
  show ?thesis
  proof (intro exI conjI)
    show "handle_event clock (D_Command c) d =
      (Ok (case ?x of None \<Rightarrow> [] | Some q \<Rightarrow> [A_Send q]), d\<lparr>drv_state := st''\<rparr>)" by (rule e)
  qed (use s o ow p sl st assms(3) in \<open>simp_all add: stored_def Let_def\<close>)
qed

theorem online_commands_are_kept_witness:
  "\<exists>acts d'. handle_event 5 (D_Command (C_Publish 8 (small_publish AtLeastOnce 0) 4)) (publishing AtLeastOnce) =
      (Ok acts, d') \<and> acts = [A_Send (P_Publish (small_publish AtLeastOnce 2))] \<and>
    slot_of (inflight (drv_state d')) 2 = Some (publish_op 8 (small_publish AtLeastOnce 2) 4)"
proof -
  let ?c = "C_Publish 8 (small_publish AtLeastOnce 0) 4" and ?op = "publish_op 8 (small_publish AtLeastOnce 2) 4"
  have a: "active (drv_state (publishing AtLeastOnce))" by (simp add: small_eval)
  have k: "2 = given_id ?c (drv_state (publishing AtLeastOnce))"
    by (simp add: given_id_def small_eval small_publish_def)
  have o: "kept_as 2 ?c = Some ?op" by (simp add: small_publish_def)
  have f: "slot_of (inflight (drv_state (publishing AtLeastOnce))) 2 = None"
    "inflight_count (inflight (drv_state (publishing AtLeastOnce))) = 1"
    "store_max_inflight (inflight (drv_state (publishing AtLeastOnce))) = 2"
    by (simp_all add: small_eval)
  have t: "tracked_command ?c" "op_packet ?op = P_Publish (small_publish AtLeastOnce 2)"
    by (simp_all add: small_publish_def publish_op_def new_op_def)
  have n: "\<not> ((1 :: u16) \<ge> 2 \<or> (2 :: u16) < 2)" "\<not> \<not> tracked_command ?c"
    using t(1) by (simp_all add: word_le_nat_alt)
  note r = online_commands_are_kept [OF small_inv a publishing_slot(3) k o, of 5, unfolded Let_def f if_not_P [OF n(1)] if_not_P [OF n(2)]]
  obtain acts d' where h: "handle_event 5 (D_Command ?c) (publishing AtLeastOnce) = (Ok acts, d')"
    and s: "acts = [A_Send (op_packet ?op)]"
      "slot_of (inflight (drv_state d')) = (slot_of (inflight (drv_state (publishing AtLeastOnce))))(2 \<mapsto> ?op)"
    using r [unfolded simp_thms if_False] by blast
  show ?thesis using h s(1) s(2) [THEN fun_cong, of 2] t(2) by (intro exI [of _ acts] exI [of _ d'] conjI) simp_all
qed

section \<open>Connection loss\<close>

lemma lost_parks:
  "pending (inflight (lost clean st)) = pending (inflight st) @ held_ops (outgoing (inflight st)) @
     (case collision (inflight st) of Some (_, op) \<Rightarrow> [op] | None \<Rightarrow> [])"
  "held_ops (outgoing (inflight (lost clean st))) = []" "collision (inflight (lost clean st)) = None"
  "\<not> active (lost clean st)"
  by (simp_all add: lost_def lost_store_def Let_def)

text \<open>
  Claim C15 (refinement). Losing the connection loses no operation: the operations in the slots, in slot
  order, and then a waiting collision are appended to the pending list, the slots are emptied, the
  state is inactive, one reconnect is asked for, and the operations held are the same as before. A
  clean session also forgets the QoS 2 handshakes and restarts the packet ids.
\<close>
theorem connection_loss_keeps_operations:
  "\<exists>d'. handle_event clock (D_ConnectionLost clean) d = (Ok [A_TriggerReconnect], d') \<and>
    held_all (inflight (drv_state d')) = held_all (inflight (drv_state d)) \<and>
    pending (inflight (drv_state d')) = pending (inflight (drv_state d)) @
      held_ops (outgoing (inflight (drv_state d))) @
      (case collision (inflight (drv_state d)) of Some (_, op) \<Rightarrow> [op] | None \<Rightarrow> []) \<and>
    held_ops (outgoing (inflight (drv_state d'))) = [] \<and> collision (inflight (drv_state d')) = None \<and>
    \<not> active (drv_state d') \<and>
    (if clean then last_pkid (pkid_pool (drv_state d')) = 0 \<and>
       True \<notin> set (outgoing_rel (inflight (drv_state d'))) \<and> True \<notin> set (incoming_pub (inflight (drv_state d')))
     else seen_ids (drv_state d') = seen_ids (drv_state d))"
proof -
  let ?d = "d\<lparr>drv_state := lost clean (drv_state d)\<rparr>"
  have h: "handle_event clock (D_ConnectionLost clean) d = (Ok [A_TriggerReconnect], ?d)"
    by (simp add: handle_event_eq handle_connection_lost_def on_connection_lost_eq and_then_def ret_def)
  have f: "held_ops (outgoing (inflight (drv_state ?d))) = []" "collision (inflight (drv_state ?d)) = None"
    "\<not> active (drv_state ?d)" "held_all (inflight (drv_state ?d)) = held_all (inflight (drv_state d))"
    "pending (inflight (drv_state ?d)) = pending (inflight (drv_state d)) @
      held_ops (outgoing (inflight (drv_state d))) @
      (case collision (inflight (drv_state d)) of Some (_, op) \<Rightarrow> [op] | None \<Rightarrow> [])"
    by (simp_all add: lost_def lost_store_def Let_def) (simp add: held_all_def lost_store_def split: option.split)
  have c: "if clean then last_pkid (pkid_pool (drv_state ?d)) = 0 \<and>
       True \<notin> set (outgoing_rel (inflight (drv_state ?d))) \<and> True \<notin> set (incoming_pub (inflight (drv_state ?d)))
     else seen_ids (drv_state ?d) = seen_ids (drv_state d)"
    by (auto simp: lost_def lost_store_def Let_def seen_ids_def known_id_def)
  from h f c show ?thesis by (intro exI [of _ ?d]) simp
qed

section \<open>Replay\<close>

text \<open>What the replay makes of an operation: a QoS 1 or 2 publish gets the DUP flag.\<close>

definition replayed_op :: "outgoing_op \<Rightarrow> outgoing_op" where
  "replayed_op op =
     (case op_command op of
        C_Publish t p c \<Rightarrow> publish_op t (if pub_qos p \<noteq> AtMostOnce then p\<lparr>pub_dup := True\<rparr> else p) c
      | C_Subscribe t s c \<Rightarrow> subscribe_op t s c
      | C_Unsubscribe t u c \<Rightarrow> unsubscribe_op t u c
      | _ \<Rightarrow> op)"

definition tracked_ids :: "outgoing_op list \<Rightarrow> u16 list" where
  "tracked_ids ops = List.map_filter (\<lambda>op. command_pkid (op_command op)) ops"

lemma tracked_ids_simps [simp]:
  "tracked_ids [] = []"
  "tracked_ids (op # ops) =
     (case command_pkid (op_command op) of None \<Rightarrow> tracked_ids ops | Some k \<Rightarrow> k # tracked_ids ops)"
  by (simp_all add: tracked_ids_def List.map_filter_def split: option.split)

lemma in_tracked_ids:
  "op \<in> set ops \<Longrightarrow> command_pkid (op_command op) = Some k \<Longrightarrow> k \<in> set (tracked_ids ops)"
  by (induction ops) (auto split: option.split)

abbreviation filled :: "u16 \<Rightarrow> outgoing_op \<Rightarrow> runtime_state \<Rightarrow> runtime_state" where
  "filled k op st \<equiv>
     set_inflight st (with_slot k (Some op) (inflight_count (inflight st) + 1) (inflight st))"

lemma resubmit_free:
  assumes "k \<noteq> 0" "known_id k (inflight st)" "slot_of (inflight st) k = None"
    and "inflight_count (inflight st) < store_max_inflight (inflight st)"
  shows "resubmit True k mk wire out st = (Ok (out @ [wire k]), filled k (mk k) st)"
  using assms by (simp add: resubmit_def assign_pkid_def insert_or_park_eq Let_def known_id_def ret_def
      and_then_def linorder_not_le)

lemma resend_one_untracked:
  assumes "op_ok op" and "command_pkid (op_command op) = None"
  shows "resend_one op out st = (Ok (out @ [op_packet (replayed_op op)]), st)"
proof (cases "op_command op")
  case (C_Publish t p c)
  then show ?thesis using assms resend_one_resubmit(1) [OF C_Publish]
    by (simp add: resubmit_def assign_pkid_def ret_def and_then_def replayed_op_def publish_op_def new_op_def
        split: if_splits)
qed (use assms in \<open>simp_all add: op_ok_def\<close>)

lemma resend_one_free:
  assumes "op_ok op" and "command_pkid (op_command op) = Some k" and "known_id k (inflight st)"
    and "slot_of (inflight st) k = None" and "inflight_count (inflight st) < store_max_inflight (inflight st)"
  shows "resend_one op out st = (Ok (out @ [op_packet (replayed_op op)]), filled k (replayed_op op) st)"
    and "op_carries k (replayed_op op)"
proof -
  have k: "k \<noteq> 0" using assms(1,2) by (auto simp: op_ok_def)
  note f = resubmit_free [OF k assms(3-5)]
  show "resend_one op out st = (Ok (out @ [op_packet (replayed_op op)]), filled k (replayed_op op) st)"
  proof (cases "op_command op")
    case (C_Publish t p c)
    with assms(2) have q: "pub_qos p \<noteq> AtMostOnce" "pub_pkid p = k" by (auto split: if_splits)
    then have e: "p\<lparr>pub_pkid := k, pub_dup := True\<rparr> = p\<lparr>pub_dup := True\<rparr>" by (cases p) simp
    with q C_Publish show ?thesis
      by (simp add: e resend_one_resubmit(1) [OF C_Publish] f replayed_op_def publish_op_def new_op_def)
  next
    case (C_Subscribe t s c)
    with assms(2) have q: "sub_pkid s = k" by simp
    then have e: "s\<lparr>sub_pkid := k\<rparr> = s" by (cases s) simp
    with q C_Subscribe show ?thesis
      by (simp add: e resend_one_resubmit(2) [OF C_Subscribe] f replayed_op_def subscribe_op_def new_op_def)
  next
    case (C_Unsubscribe t u c)
    with assms(2) have q: "unsub_pkid u = k" by simp
    then have e: "u\<lparr>unsub_pkid := k\<rparr> = u" by (cases u) simp
    with q C_Unsubscribe show ?thesis
      by (simp add: e resend_one_resubmit(3) [OF C_Unsubscribe] f replayed_op_def unsubscribe_op_def new_op_def)
  qed (use assms(2) in simp_all)
  show "op_carries k (replayed_op op)"
    using assms(1,2) k
    by (cases "op_command op")
      (auto simp: replayed_op_def op_carries_def op_ok_def publish_op_def subscribe_op_def
        unsubscribe_op_def new_op_def split: if_splits)
qed

lemma filled_spec:
  assumes "state_inv st" "active st" "op_carries k op" "known_id k (inflight st)"
    "slot_of (inflight st) k = None" "inflight_count (inflight st) < store_max_inflight (inflight st)"
  shows "state_inv (filled k op st)"
    "slot_of (inflight (filled k op st)) = (slot_of (inflight st))(k \<mapsto> op)"
    "unat (inflight_count (inflight (filled k op st))) = Suc (unat (inflight_count (inflight st)))"
proof -
  have k: "unat k < length (outgoing (inflight st))" using assms(4) by (simp add: known_id_def)
  then show sl: "slot_of (inflight (filled k op st)) = (slot_of (inflight st))(k \<mapsto> op)"
    by (simp add: slot_of_with_slot)
  have "insert_or_park k op st = (Ok True, filled k op st)"
    using assms k by (simp add: insert_or_park_eq Let_def linorder_not_le)
  moreover obtain b s where "insert_or_park k op st = (Ok b, set_inflight st s)"
      "state_inv (set_inflight st s)"
    using insert_or_park_spec [OF assms(1-3)] by (elim exE conjE)
  ultimately show "state_inv (filled k op st)" by simp
  show "unat (inflight_count (inflight (filled k op st))) = Suc (unat (inflight_count (inflight st)))"
    using u16_Suc [OF u16_less_not_FFFF [OF assms(6)]] by simp
qed

lemma resend_loop_free:
  assumes "state_inv st" "active st" "list_all op_ok ops" "distinct (tracked_ids ops)"
    "\<forall>k \<in> set (tracked_ids ops). known_id k (inflight st) \<and> slot_of (inflight st) k = None"
    "unat (inflight_count (inflight st)) + length (tracked_ids ops) \<le> unat (store_max_inflight (inflight st))"
  shows "\<exists>st'. resend_loop ops out st = (Ok (out @ map (op_packet \<circ> replayed_op) ops), st') \<and>
    active st' \<and> pending (inflight st') = pending (inflight st) \<and> collision (inflight st') = collision (inflight st) \<and>
    (\<forall>k. k \<notin> set (tracked_ids ops) \<longrightarrow> slot_of (inflight st') k = slot_of (inflight st) k) \<and>
    (\<forall>op \<in> set ops. \<forall>k. command_pkid (op_command op) = Some k \<longrightarrow>
       slot_of (inflight st') k = Some (replayed_op op))"
  using assms
proof (induction ops arbitrary: st out)
  case (Cons op ops)
  have ok: "op_ok op" using Cons.prems(3) by simp
  show ?case
  proof (cases "command_pkid (op_command op)")
    case None
    from Cons.IH [of st "out @ [op_packet (replayed_op op)]"] Cons.prems None obtain st' where
      "resend_loop ops (out @ [op_packet (replayed_op op)]) st =
        (Ok ((out @ [op_packet (replayed_op op)]) @ map (op_packet \<circ> replayed_op) ops), st')"
      "active st'" "pending (inflight st') = pending (inflight st)" "collision (inflight st') = collision (inflight st)"
      "\<forall>k. k \<notin> set (tracked_ids ops) \<longrightarrow> slot_of (inflight st') k = slot_of (inflight st) k"
      "\<forall>op \<in> set ops. \<forall>k. command_pkid (op_command op) = Some k \<longrightarrow>
         slot_of (inflight st') k = Some (replayed_op op)" by auto
    then show ?thesis using None by (simp add: resend_one_untracked [OF ok None])
  next
    case (Some k)
    have h: "known_id k (inflight st)" "slot_of (inflight st) k = None"
      using Cons.prems(5) Some by simp_all
    have n: "inflight_count (inflight st) < store_max_inflight (inflight st)"
      using Cons.prems(6) Some by (simp add: word_less_nat_alt)
    note r = resend_one_free(1) [OF ok Some h n, of out]
    note f = filled_spec [OF Cons.prems(1,2) resend_one_free(2) [OF ok Some h n] h n]
    let ?st = "filled k (replayed_op op) st"
    have kn: "known_id j (inflight ?st) = known_id j (inflight st)" for j by (simp add: known_id_def)
    have "active ?st" using Cons.prems(2) by simp
    moreover have "\<forall>j \<in> set (tracked_ids ops). known_id j (inflight ?st) \<and> slot_of (inflight ?st) j = None"
      unfolding f(2) kn using Cons.prems(4,5) Some by auto
    moreover have "unat (inflight_count (inflight ?st)) + length (tracked_ids ops) \<le>
        unat (store_max_inflight (inflight ?st))"
      using Cons.prems(6) Some unfolding f(3) by simp
    ultimately obtain st' where
      I: "resend_loop ops (out @ [op_packet (replayed_op op)]) ?st =
        (Ok ((out @ [op_packet (replayed_op op)]) @ map (op_packet \<circ> replayed_op) ops), st')"
      "active st'" "pending (inflight st') = pending (inflight ?st)" "collision (inflight st') = collision (inflight ?st)"
      "\<forall>j. j \<notin> set (tracked_ids ops) \<longrightarrow> slot_of (inflight st') j = slot_of (inflight ?st) j"
      "\<forall>op \<in> set ops. \<forall>j. command_pkid (op_command op) = Some j \<longrightarrow>
         slot_of (inflight st') j = Some (replayed_op op)"
      using Cons.IH [OF f(1), of "out @ [op_packet (replayed_op op)]"] Cons.prems(3,4) Some by auto
    have "slot_of (inflight st') k = Some (replayed_op op)"
      using I(5) Cons.prems(4) Some unfolding f(2) by simp
    moreover have "slot_of (inflight st') j = slot_of (inflight st) j"
      if "j \<notin> set (tracked_ids (op # ops))" for j
      using I(5) that Some unfolding f(2) by simp
    moreover have "resend_loop (op # ops) out st = (Ok (out @ map (op_packet \<circ> replayed_op) (op # ops)), st')"
      using r I(1) by simp
    ultimately show ?thesis using I Some by (intro exI [of _ st'] conjI) auto
  qed
qed (simp add: ret_def)

lemma send_all_eq: "\<exists>t. send_all now pkts st = (Ok (map A_Send pkts), st\<lparr>last_outgoing := t\<rparr>)"
proof (induction pkts arbitrary: st)
  case (Cons p pkts)
  from Cons.IH [of "st\<lparr>last_outgoing := now\<rparr>"] obtain t where
    "send_all now pkts (st\<lparr>last_outgoing := now\<rparr>) = (Ok (map A_Send pkts), st\<lparr>last_outgoing := t\<rparr>)" by auto
  then show ?case by (auto simp: note_simps and_then_def ret_def)
next
  case Nil
  then show ?case by (auto simp: ret_def intro: exI [of _ "last_outgoing st"])
qed

lemma tracked_ids_fit:
  assumes "distinct ks" and "\<forall>k \<in> set ks. known_id k s" and "store_inv s"
  shows "length ks \<le> unat (store_max_inflight s)"
proof -
  have "unat ` set ks \<subseteq> {1..unat (store_max_inflight s)}"
  proof
    fix n assume "n \<in> unat ` set ks"
    then obtain k where k: "k \<in> set ks" "n = unat k" by blast
    with assms(2,3) have "k \<noteq> 0" "unat k \<le> unat (store_max_inflight s)"
      by (auto simp: known_id_def store_inv_def)
    then show "n \<in> {1..unat (store_max_inflight s)}"
      using k(2) by (simp add: Suc_le_eq unat_gt_0)
  qed
  then have "card (unat ` set ks) \<le> unat (store_max_inflight s)"
    using card_mono [of "{1..unat (store_max_inflight s)}"] by fastforce
  moreover have "card (unat ` set ks) = length ks"
    using assms(1) by (simp add: card_image inj_on_def distinct_card word_unat_eq_iff)
  ultimately show ?thesis by simp
qed

lemma restored_free:
  assumes "state_inv st" and "\<not> active st" and "distinct (tracked_ids (pending (inflight st)))"
    and "\<forall>k \<in> set (tracked_ids (pending (inflight st))). known_id k (inflight st)"
  shows "\<exists>st'. handle_connection_restored now st =
      (Ok (map (\<lambda>op. A_Send (op_packet (replayed_op op))) (pending (inflight st))), st') \<and>
    active st' \<and> pending (inflight st') = [] \<and> collision (inflight st') = None \<and>
    (\<forall>k. k \<notin> set (tracked_ids (pending (inflight st))) \<longrightarrow> slot_of (inflight st') k = None) \<and>
    (\<forall>op \<in> set (pending (inflight st)). \<forall>k. command_pkid (op_command op) = Some k \<longrightarrow>
       slot_of (inflight st') k = Some (replayed_op op))"
proof -
  let ?s = "inflight st"
  let ?st = "st\<lparr>await_pingresp := False, last_incoming := now, last_outgoing := now,
    active := True, inflight := ?s\<lparr>pending := []\<rparr>\<rparr>"
  note i = state_invD [OF assms(1)]
  have st: "state_inv ?st" "active ?st" using assms(1) by (simp_all add: state_inv_def)
  have z: "slot_of ?s k = None" for k using slot_of_inactive [OF i(9) [OF assms(2)]] .
  have k: "\<forall>k \<in> set (tracked_ids (pending ?s)). known_id k (inflight ?st) \<and> slot_of (inflight ?st) k = None"
    using assms(4) z by (simp add: known_id_def)
  have "unat (inflight_count ?s) = 0" using i(4) i(9) [OF assms(2)] by (simp add: store_inv_def)
  then have n: "unat (inflight_count (inflight ?st)) + length (tracked_ids (pending ?s)) \<le>
      unat (store_max_inflight (inflight ?st))"
    using tracked_ids_fit [OF assms(3,4) i(4)] by simp
  from resend_loop_free [OF st i(8) assms(3) k n, of "[]"] i(10) [OF assms(2)] z obtain st' where
    r: "resend_loop (pending ?s) [] ?st = (Ok (map (op_packet \<circ> replayed_op) (pending ?s)), st')"
      "active st'" "pending (inflight st') = []" "collision (inflight st') = None"
      "\<forall>k. k \<notin> set (tracked_ids (pending ?s)) \<longrightarrow> slot_of (inflight st') k = None"
      "\<forall>op \<in> set (pending ?s). \<forall>k. command_pkid (op_command op) = Some k \<longrightarrow>
         slot_of (inflight st') k = Some (replayed_op op)" by auto
  obtain t where s: "send_all now (map (op_packet \<circ> replayed_op) (pending ?s)) st' =
      (Ok (map A_Send (map (op_packet \<circ> replayed_op) (pending ?s))), st'\<lparr>last_outgoing := t\<rparr>)"
    using send_all_eq by blast
  have "handle_connection_restored now st =
      (Ok (map (\<lambda>op. A_Send (op_packet (replayed_op op))) (pending ?s)), st'\<lparr>last_outgoing := t\<rparr>)"
    using r(1) s
    by (simp add: handle_connection_restored_def set_active_def modify_def and_then_def
        on_connection_restored_eq comp_def)
  with r(2-6) show ?thesis by (intro exI [of _ "st'\<lparr>last_outgoing := t\<rparr>"]) simp
qed

text \<open>
  Claim C16 (functional). Replay after a reconnect: when the packet ids of the pending operations are
  different and in range, restoring the connection sends the packet of every pending operation, in
  the order of the list and with the DUP flag on QoS 1 and 2 publishes, empties the list, and puts
  every operation that needs an acknowledgement back into the slot of its packet id.
\<close>
theorem replay_in_order:
  assumes "state_inv (drv_state d)" and "\<not> active (drv_state d)"
    and "distinct (tracked_ids (pending (inflight (drv_state d))))"
    and "\<forall>k \<in> set (tracked_ids (pending (inflight (drv_state d)))). known_id k (inflight (drv_state d))"
  shows "\<exists>d'. handle_event clock (D_ConnectionRestored now) d =
      (Ok (map (\<lambda>op. A_Send (op_packet (replayed_op op))) (pending (inflight (drv_state d)))), d') \<and>
    active (drv_state d') \<and> pending (inflight (drv_state d')) = [] \<and>
    (\<forall>op \<in> set (pending (inflight (drv_state d))). \<forall>k. command_pkid (op_command op) = Some k \<longrightarrow>
       slot_of (inflight (drv_state d')) k = Some (replayed_op op))"
proof -
  from restored_free [OF assms, of now] obtain st' where
    "handle_connection_restored now (drv_state d) =
      (Ok (map (\<lambda>op. A_Send (op_packet (replayed_op op))) (pending (inflight (drv_state d)))), st')"
    "active st'" "pending (inflight st') = []"
    "\<forall>op \<in> set (pending (inflight (drv_state d))). \<forall>k. command_pkid (op_command op) = Some k \<longrightarrow>
       slot_of (inflight st') k = Some (replayed_op op)" by blast
  then show ?thesis by (intro exI [of _ "d\<lparr>drv_state := st'\<rparr>"]) (simp add: handle_event_eq)
qed

theorem replay_in_order_witness:
  "\<exists>d'. handle_event 5 (D_ConnectionRestored 5)
       (snd (run_small [(2, D_Command (C_Publish 7 (small_publish ExactlyOnce 0) 3)),
                        (3, D_Command (C_Subscribe 8 \<lparr>sub_pkid = 0, sub_filters = []\<rparr> 3))])) =
      (Ok [A_Send (P_Publish ((small_publish ExactlyOnce 1)\<lparr>pub_dup := True\<rparr>)),
           A_Send (P_Subscribe \<lparr>sub_pkid = 2, sub_filters = []\<rparr>)], d')"
proof -
  let ?d = "snd (run_small [(2, D_Command (C_Publish 7 (small_publish ExactlyOnce 0) 3)),
                        (3, D_Command (C_Subscribe 8 \<lparr>sub_pkid = 0, sub_filters = []\<rparr> 3))])"
  have p: "pending (inflight (drv_state ?d)) =
      [publish_op 7 (small_publish ExactlyOnce 1) 3, subscribe_op 8 \<lparr>sub_pkid = 2, sub_filters = []\<rparr> 3]"
    by (simp add: small_eval publish_op_def subscribe_op_def)
  have a: "\<not> active (drv_state ?d)" by (simp add: small_eval)
  have n: "length (outgoing (inflight (drv_state ?d))) = 3" by (simp add: small_eval)
  have t: "tracked_ids (pending (inflight (drv_state ?d))) = [1, 2]"
    unfolding p by (simp add: publish_op_def subscribe_op_def new_op_def small_publish_def)
  have "\<forall>k \<in> set [1, 2 :: u16]. known_id k (inflight (drv_state ?d))"
    using n by (simp add: known_id_def)
  from replay_in_order [OF small_inv a, of 5 5] this p t show ?thesis
    by (auto simp: replayed_op_def publish_op_def subscribe_op_def new_op_def small_publish_def)
qed

section \<open>Keep-alive\<close>

text \<open>
  Claim C29 (liveness). The keep-alive timer. On an active connection that has been idle for the
  keep-alive time, a tick sends one PINGREQ; ticks within the next keep-alive time send nothing; if
  nothing was exchanged by then the tick asks for a reconnect and parks everything in flight: the
  operations of the slots, in slot order, and then a waiting collision move to the end of the pending
  list, the slots and the collision are empty and the state is inactive. A PINGRESP in between clears
  the alarm: no tick within a keep-alive time of it does anything.
\<close>
theorem keep_alive_detects_silence:
  assumes "active (drv_state d)" and "\<not> await_pingresp (drv_state d)"
    and "max (last_incoming (drv_state d)) (last_outgoing (drv_state d)) + keep_alive (drv_state d) \<le> t1"
    and "t1 \<le> t2" and "t2 < t1 + keep_alive (drv_state d)" and "t1 + keep_alive (drv_state d) \<le> t3"
    and "t1 \<le> t4" and "t5 < t4 + keep_alive (drv_state d)"
  shows "\<exists>d1 d3. handle_event c1 (D_Tick t1) d = (Ok [A_Send P_PingReq], d1) \<and>
    handle_event c2 (D_Tick t2) d1 = (Ok [], d1) \<and>
    handle_event c3 (D_Tick t3) d1 = (Ok [A_TriggerReconnect], d3) \<and> \<not> active (drv_state d3) \<and>
    held_all (inflight (drv_state d3)) = held_all (inflight (drv_state d)) \<and>
    pending (inflight (drv_state d3)) = pending (inflight (drv_state d)) @
      held_ops (outgoing (inflight (drv_state d))) @
      (case collision (inflight (drv_state d)) of Some (_, op) \<Rightarrow> [op] | None \<Rightarrow> []) \<and>
    held_ops (outgoing (inflight (drv_state d3))) = [] \<and> collision (inflight (drv_state d3)) = None \<and>
    fst (run_machine (\<lambda>(clock, e). handle_event clock e)
      [(c4, D_Incoming P_PingResp t4), (c5, D_Tick t5)] d1) = [Ok [], Ok []]"
proof -
  let ?st = "drv_state d"
  let ?d1 = "d\<lparr>drv_state := ?st\<lparr>await_pingresp := True, last_outgoing := t1\<rparr>\<rparr>"
  have k: "keep_alive ?st \<noteq> 0" using assms(4,5) by linarith
  have li: "last_incoming ?st \<le> t1" using assms(3) by simp
  have 1: "handle_event c1 (D_Tick t1) d = (Ok [A_Send P_PingReq], ?d1)"
    using assms(1,2,3) by (simp add: tick_event_eq handle_tick_eq)
  have 2: "handle_event c2 (D_Tick t2) ?d1 = (Ok [], ?d1)"
    using assms(1,4,5) li k by (simp add: tick_event_eq handle_tick_eq)
  let ?dl = "d\<lparr>drv_state := lost (drv_clean_session d) (drv_state ?d1)\<rparr>"
  have 3: "handle_event c3 (D_Tick t3) ?d1 = (Ok [A_TriggerReconnect], ?dl)"
    using assms(1,6) by (simp add: tick_event_eq handle_tick_eq)
  have 4: "handle_event c4 (D_Incoming P_PingResp t4) ?d1 =
      (Ok [], d\<lparr>drv_state := ?st\<lparr>await_pingresp := False, last_incoming := t4, last_outgoing := t1\<rparr>\<rparr>)"
    by (simp add: incoming_eq handle_incoming_def and_then_def note_simps on_pingresp_def modify_def ret_def)
  have 5: "fst (handle_event c5 (D_Tick t5)
      (d\<lparr>drv_state := ?st\<lparr>await_pingresp := False, last_incoming := t4, last_outgoing := t1\<rparr>\<rparr>)) = Ok []"
    using assms(7,8) k by (auto simp: tick_event_eq handle_tick_eq)
  have 6: "fst (run_machine (\<lambda>(clock, e). handle_event clock e)
      [(c4, D_Incoming P_PingResp t4), (c5, D_Tick t5)] ?d1) = [Ok [], Ok []]"
    using 4 5 by (simp add: case_prod_beta)
  have 7: "\<not> active (drv_state ?dl)" "held_all (inflight (drv_state ?dl)) = held_all (inflight (drv_state d))"
    by (simp_all add: lost_def)
  note 8 = lost_parks [of "drv_clean_session d" "drv_state ?d1"]
  have 9: "inflight (drv_state ?d1) = inflight ?st" by simp
  show ?thesis using 8 unfolding 9
    by (intro exI [of _ ?d1] exI [of _ ?dl] conjI 1 2 3 6 7) simp_all
qed

theorem keep_alive_detects_silence_witness:
  "\<exists>d1 d3. handle_event 31 (D_Tick 31) (snd (run_small [(0, D_ConnectionRestored 0)])) =
      (Ok [A_Send P_PingReq], d1) \<and>
    handle_event 40 (D_Tick 40) d1 = (Ok [], d1) \<and>
    handle_event 61 (D_Tick 61) d1 = (Ok [A_TriggerReconnect], d3) \<and> \<not> active (drv_state d3)"
proof -
  let ?d = "snd (run_small [(0, D_ConnectionRestored 0)])"
  have f: "active (drv_state ?d)" "\<not> await_pingresp (drv_state ?d)" "keep_alive (drv_state ?d) = 30"
    "last_incoming (drv_state ?d) = 0" "last_outgoing (drv_state ?d) = 0"
    by (simp_all add: small_eval)
  from keep_alive_detects_silence [OF f(1,2), of 31 40 61 35 36 31 40 61 4 5, unfolded f(3-5), simplified]
  show ?thesis by blast
qed

end
