(* ===== verification/Runtime_Deviations.thy ===== *)
theory Runtime_Deviations
  imports Reconnect_Properties
begin

text \<open>
  Where the runtime departs from MQTT 3.1.1 or from its own promise that every accepted operation is
  completed: theorems about the code as it is, each on the model of the unchanged handlers.
\<close>

section \<open>Lost and stranded operations\<close>

text \<open>
  Claim C37 (error). A command can vanish: when a collision is stored and the window is full, a QoS 1 or
  QoS 2 publish is answered with success, sends nothing and is held nowhere, so it is never
  completed.
\<close>
theorem full_window_drops_publish:
  assumes "state_inv (drv_state d)" and "active (drv_state d)"
    and "collision (inflight (drv_state d)) \<noteq> None"
    and "inflight_count (inflight (drv_state d)) = store_max_inflight (inflight (drv_state d))"
    and "pub_qos p \<noteq> AtMostOnce"
  shows "\<exists>d'. handle_event clock (D_Command (C_Publish t p c)) d = (Ok [], d') \<and>
    inflight (drv_state d') = inflight (drv_state d) \<and> owners (drv_state d') = owners (drv_state d)"
proof -
  let ?st = "drv_state d"
  from assign_pkid_spec [OF assms(1), of True "pub_pkid p"] obtain k q where
    a: "assign_pkid True (pub_pkid p) ?st = (Ok k, ?st\<lparr>pkid_pool := q\<rparr>)" by blast
  let ?st1 = "?st\<lparr>pkid_pool := q\<rparr>"
  have "insert_or_park k op ?st1 = (Ok False, ?st1)" for op
    using assms(3,4) by (auto simp: insert_or_park_eq Let_def)
  then have "handle_command clock (C_Publish t p c) ?st = (Ok [], ?st1)"
    using a assms(2,5)
    by (simp add: handle_command_def on_command_submit submit_def and_then_def get_def ret_def)
  then show ?thesis by (simp add: command_event_eq)
qed

abbreviation full_colliding :: runtime_driver where
  "full_colliding \<equiv> snd (run_small
     [(0, D_ConnectionRestored 0), (2, D_Command (C_Publish 7 (small_publish AtLeastOnce 1) 3)),
      (2, D_Command (C_Publish 8 (small_publish AtLeastOnce 1) 4)),
      (2, D_Command (C_Publish 9 (small_publish AtLeastOnce 2) 5))])"

theorem full_window_drops_publish_witness:
  "\<exists>d'. handle_event 3 (D_Command (C_Publish 10 (small_publish AtLeastOnce 0) 6)) full_colliding = (Ok [], d') \<and>
    owners (drv_state d') = owners (drv_state full_colliding)"
proof -
  have "active (drv_state full_colliding)" "collision (inflight (drv_state full_colliding)) \<noteq> None"
    "inflight_count (inflight (drv_state full_colliding)) = store_max_inflight (inflight (drv_state full_colliding))"
    by (simp_all add: small_eval word_le_nat_alt)
  from full_window_drops_publish [OF small_inv this, of "small_publish AtLeastOnce 0" 3 10 6]
  show ?thesis by (auto simp: small_publish_def)
qed

text \<open>
  An acknowledgement of the wrong kind destroys the operation: a SUBACK for the packet
  id of a publish or an unsubscribe in flight is reported as InvalidCommand, but the slot has been
  emptied by then, so the operation is gone without a completion.
\<close>
theorem wrong_suback_loses_operation:
  assumes "state_inv (drv_state d)" and "slot_of (inflight (drv_state d)) (suback_pkid p) = Some op"
    and "\<forall>t s c. op_command op \<noteq> C_Subscribe t s c"
  shows "\<exists>d'. handle_event clock (D_Incoming (P_SubAck p) now) d = (Err InvalidCommand, d') \<and>
    owners (drv_state d) = add_mset (owner op) (owners (drv_state d'))"
proof -
  let ?st = "(drv_state d)\<lparr>last_incoming := now\<rparr>"
  have inv: "state_inv ?st" and sl: "slot_of (inflight ?st) (suback_pkid p) = Some op"
    using assms(1,2) by simp_all
  have "on_suback_checked (suback_pkid p) ?st =
      (Err InvalidCommand, set_inflight ?st (released (suback_pkid p) (inflight ?st)))"
    using assms(3) sl by (cases "op_command op") (simp_all add: on_suback_eq [OF inv])
  then have "handle_incoming (P_SubAck p) now (drv_state d) =
      (Err InvalidCommand, set_inflight ?st (released (suback_pkid p) (inflight ?st)))"
    by (simp add: handle_incoming_def and_then_def note_simps)
  moreover have "owners (drv_state d) =
      add_mset (owner op) (owners (set_inflight ?st (released (suback_pkid p) (inflight ?st))))"
    using released_owners [OF inv sl] by simp
  ultimately show ?thesis by (simp add: incoming_eq)
qed

theorem wrong_suback_loses_operation_witness:
  "\<exists>d'. handle_event 3 (D_Incoming (P_SubAck \<lparr>suback_pkid = 1, suback_return_codes = [0]\<rparr>) 3)
      (publishing AtLeastOnce) = (Err InvalidCommand, d') \<and>
    owners (drv_state (publishing AtLeastOnce)) = add_mset (3, 7) (owners (drv_state d'))"
  using wrong_suback_loses_operation [OF small_inv, of _ "\<lparr>suback_pkid = 1, suback_return_codes = [0]\<rparr>"
      "publish_op 7 (small_publish AtLeastOnce 1) 3" 3 3] publishing_slot(1)
  by (simp add: publish_op_def new_op_def owner_def)

text \<open>
  A collision can be stranded: a publish waiting for the packet id of a subscription is
  not promoted when the SUBACK frees the id, and the id being free, no later PUBACK promotes it
  either; it is sent only after the connection is lost.
\<close>
theorem suback_strands_collision:
  "fst (run_small
      [(0, D_ConnectionRestored 0),
       (2, D_Command (C_Subscribe 7 \<lparr>sub_pkid = 1, sub_filters = []\<rparr> 3)),
       (3, D_Command (C_Publish 8 (small_publish AtLeastOnce 1) 4)),
       (4, D_Incoming (P_SubAck \<lparr>suback_pkid = 1, suback_return_codes = []\<rparr>) 4),
       (5, D_Incoming (P_PubAck \<lparr>puback_pkid = 1\<rparr>) 5),
       (6, D_ConnectionLost False), (7, D_ConnectionRestored 7)]) =
    [Ok [], Ok [A_Send (P_Subscribe \<lparr>sub_pkid = 1, sub_filters = []\<rparr>)], Ok [],
     Ok [A_SubscribeAckFor 3 [] (Done_SubAck 7 1)], Err (UnsolicitedAck 1), Ok [A_TriggerReconnect],
     Ok [A_Send (P_Publish ((small_publish AtLeastOnce 1)\<lparr>pub_dup := True\<rparr>))]]"
  by (simp add: small_eval)

section \<open>QoS 2 across a reconnect\<close>

text \<open>
  The runtime forgets a PUBREC when the connection is lost: after PUBLISH, PUBREC, loss
  and restore of a persistent session it sends the PUBLISH again, where MQTT 3.1.1 asks for PUBREL
  (section 4.3.3), and yet takes a PUBCOMP at once, the PUBREL flag having survived the loss.
\<close>
theorem pubrec_forgotten_on_reconnect:
  "fst (run_small
      [(0, D_ConnectionRestored 0), (2, D_Command (C_Publish 7 (small_publish ExactlyOnce 0) 3)),
       (3, D_Incoming (P_PubRec \<lparr>pubrec_pkid = 1\<rparr>) 3),
       (4, D_ConnectionLost False), (5, D_ConnectionRestored 5),
       (6, D_Incoming (P_PubComp \<lparr>pubcomp_pkid = 1\<rparr>) 6)]) =
    [Ok [], Ok [A_Send (P_Publish (small_publish ExactlyOnce 1))],
     Ok [A_Send (P_PubRel \<lparr>pubrel_pkid = 1\<rparr>)], Ok [A_TriggerReconnect],
     Ok [A_Send (P_Publish ((small_publish ExactlyOnce 1)\<lparr>pub_dup := True\<rparr>))],
     Ok [A_CompleteFor 3 (Done_PubComp 7 1)]]"
  by (simp add: small_eval)

text \<open>
  Claim C39 (error). An incoming QoS 2 publish whose packet id is above max_inflight is an error, although
  the broker, not the client, chooses the id: the message is not answered, and nothing is recorded.
\<close>
theorem incoming_qos2_beyond_window_fails:
  assumes "state_inv (drv_state d)" and "pub_qos p = ExactlyOnce"
    and "store_max_inflight (inflight (drv_state d)) < pub_pkid p"
  shows "\<exists>d'. handle_event clock (D_Incoming (P_Publish p) now) d = (Err (PacketIdOutOfRange (pub_pkid p)), d') \<and>
    inflight (drv_state d') = inflight (drv_state d)"
proof -
  have "\<not> known_id (pub_pkid p) (inflight (drv_state d))"
    using assms(3) state_invD(4) [OF assms(1)] by (auto simp: known_id_def store_inv_def word_less_nat_alt)
  then show ?thesis using assms(2) by (simp add: incoming_eq handle_publish_eq [OF assms(1)] Let_def)
qed

theorem incoming_qos2_beyond_window_fails_witness:
  "\<exists>d'. handle_event 3 (D_Incoming (P_Publish (small_publish ExactlyOnce 3)) 3) (publishing AtLeastOnce) =
      (Err (PacketIdOutOfRange 3), d')"
proof -
  have m: "store_max_inflight (inflight (drv_state (publishing AtLeastOnce))) = 2" by (simp add: small_eval)
  have p: "pub_qos (small_publish ExactlyOnce 3) = ExactlyOnce" "pub_pkid (small_publish ExactlyOnce 3) = 3"
    by (simp_all add: small_publish_def)
  show ?thesis
    using incoming_qos2_beyond_window_fails [OF small_inv p(1), unfolded p(2), of _ 3 3] m by force
qed

section \<open>Keep-alive\<close>

text \<open>A stretch of client activity: publishes at QoS 0, each with a tick soon after.\<close>

definition publish_and_tick :: "(instant \<times> publish \<times> instant) list \<Rightarrow> (instant \<times> driver_event) list" where
  "publish_and_tick xs =
     concat (map (\<lambda>(c, p, t). [(c, D_Command (C_Publish 0 p 0)), (c, D_Tick t)]) xs)"

text \<open>
  A dead connection stays unnoticed while the client keeps sending: as long as each
  tick comes within the keep-alive time of an outgoing publish, no tick asks for a reconnect, even
  when a PINGREQ has been waiting for its answer all along and nothing ever arrives.
\<close>
theorem outgoing_traffic_hides_dead_link:
  assumes "active (drv_state d)"
    and "list_all (\<lambda>(c, p, t). pub_qos p = AtMostOnce \<and> t - c < keep_alive (drv_state d)) xs"
  shows "fst (run_machine (\<lambda>(clock, e). handle_event clock e) (publish_and_tick xs) d) =
    concat (map (\<lambda>(c, p, t). [Ok [A_Send (P_Publish p)], Ok []]) xs)"
  using assms
proof (induction xs arbitrary: d)
  case (Cons x xs)
  obtain c p t where x: "x = (c, p, t)" by (cases x)
  let ?d1 = "d\<lparr>drv_state := (drv_state d)\<lparr>last_outgoing := c\<rparr>\<rparr>"
  have q: "pub_qos p = AtMostOnce" "t - c < keep_alive (drv_state d)" using Cons.prems(2) x by simp_all
  have "p\<lparr>pub_pkid := pub_pkid p\<rparr> = p" by simp
  then have 1: "handle_event c (D_Command (C_Publish 0 p 0)) d = (Ok [A_Send (P_Publish p)], ?d1)"
    using Cons.prems(1) q(1)
    by (simp add: command_event_eq handle_command_def on_command_submit submit_def assign_pkid_def
        and_then_def get_def ret_def)
  have 2: "handle_event c (D_Tick t) ?d1 = (Ok [], ?d1)"
    using Cons.prems(1) q(2) by (auto simp: tick_event_eq handle_tick_eq)
  have "fst (run_machine (\<lambda>(clock, e). handle_event clock e) (publish_and_tick xs) ?d1) =
      concat (map (\<lambda>(c, p, t). [Ok [A_Send (P_Publish p)], Ok []]) xs)"
    using Cons.IH [of ?d1] Cons.prems by simp
  then obtain rs d2 where "run_machine (\<lambda>(clock, e). handle_event clock e) (publish_and_tick xs) ?d1 = (rs, d2)"
    "rs = concat (map (\<lambda>(c, p, t). [Ok [A_Send (P_Publish p)], Ok []]) xs)" by (metis fst_conv surj_pair)
  then show ?case using 1 2 by (simp add: publish_and_tick_def x)
qed (simp add: publish_and_tick_def)

theorem outgoing_traffic_hides_dead_link_witness:
  "let d = snd (run_small [(0, D_ConnectionRestored 0), (30, D_Tick 30)]); p = small_publish AtMostOnce 0
   in await_pingresp (drv_state d) \<and>
      fst (run_machine (\<lambda>(clock, e). handle_event clock e)
        (publish_and_tick [(50, p, 70), (75, p, 90), (100, p, 120)]) d) =
      [Ok [A_Send (P_Publish p)], Ok [], Ok [A_Send (P_Publish p)], Ok [], Ok [A_Send (P_Publish p)], Ok []]"
proof -
  let ?d = "snd (run_small [(0, D_ConnectionRestored 0), (30, D_Tick 30)])"
  let ?p = "small_publish AtMostOnce 0"
  have f: "active (drv_state ?d)" "await_pingresp (drv_state ?d)" "keep_alive (drv_state ?d) = 30"
    by (simp_all add: small_eval)
  have "list_all (\<lambda>(c, p, t). pub_qos p = AtMostOnce \<and> t - c < keep_alive (drv_state ?d))
      [(50, ?p, 70), (75, ?p, 90), (100, ?p, 120)]"
    by (simp add: f(3) small_publish_def)
  from outgoing_traffic_hides_dead_link [OF f(1) this] f(2) show ?thesis by (simp add: Let_def)
qed

end
