(* ===== verification/Router.thy ===== *)
theory Router
  imports Mqtt_Types "HOL-Library.Sublist"
begin

text \<open>
  The subscription router, src/runtime/router.rs: a list of entries, one per topic filter, each with
  the clients subscribed through it.  None of its functions returns an error, so the error type of
  their outcomes is \<open>unit\<close>; what remains to prove is that no index is out of range.
\<close>

section \<open>Topic matching\<close>

definition slash :: u8 where "slash = of_char (CHR ''/'')"
definition hash :: rstring where "hash = ascii ''#''"
definition plus :: rstring where "plus = ascii ''+''"

text \<open>\<open>str::split('/')\<close>: always at least one piece.\<close>

fun split_on :: "u8 \<Rightarrow> bytes \<Rightarrow> bytes list" where
  "split_on c [] = [[]]"
| "split_on c (x # xs) =
     (if x = c then [] # split_on c xs
      else (case split_on c xs of [] \<Rightarrow> [[x]] | y # ys \<Rightarrow> (x # y) # ys))"

lemma bind_outcome_cong [fundef_cong]:
  "r = r' \<Longrightarrow> (\<And>x. r' = Ok x \<Longrightarrow> f x = f' x) \<Longrightarrow> bind_outcome r f = bind_outcome r' f'"
  by (cases r') auto

function match_loop :: "bytes list \<Rightarrow> bytes list \<Rightarrow> nat \<Rightarrow> (unit, bool) outcome" where
  "match_loop filter_levels topic_levels i =
     (if i < length filter_levels then
        bind_outcome (index filter_levels i) (\<lambda>f.
        if f = hash then bind_outcome (checked_sub (length filter_levels) 1) (\<lambda>last. Ok (i = last))
        else if i \<ge> length topic_levels then Ok False
        else
          bind_outcome (index topic_levels i) (\<lambda>t.
          if f \<noteq> plus \<and> f \<noteq> t then Ok False
          else match_loop filter_levels topic_levels (i + 1)))
      else Ok (i = length topic_levels))"
  by pat_completeness auto
termination by (relation "measure (\<lambda>(fs, ts, i). length fs - i)") auto

declare match_loop.simps [simp del]

definition topic_matches :: "rstring \<Rightarrow> rstring \<Rightarrow> (unit, bool) outcome" where
  "topic_matches filt topic =
     (let filter_levels = split_on slash filt; topic_levels = split_on slash topic
      in match_loop filter_levels topic_levels 0)"

section \<open>Entries and their operations\<close>

record subscription_entry =
  entry_filter :: rstring
  entry_clients :: "nat list"

record router =
  entries :: "subscription_entry list"

definition default_router :: router where
  "default_router = \<lparr>entries = []\<rparr>"

text \<open>\<open>find\<close> picks the first entry with the filter; without one, a new entry goes to the end.\<close>

fun add_entry :: "nat \<Rightarrow> rstring \<Rightarrow> subscription_entry list \<Rightarrow> subscription_entry list" where
  "add_entry client_id filt [] = [\<lparr>entry_filter = filt, entry_clients = [client_id]\<rparr>]"
| "add_entry client_id filt (entry # rest) =
     (if entry_filter entry = filt then
        (if client_id \<in> set (entry_clients entry) then entry
         else entry\<lparr>entry_clients := entry_clients entry @ [client_id]\<rparr>) # rest
      else entry # add_entry client_id filt rest)"

definition add_subscription :: "nat \<Rightarrow> rstring \<Rightarrow> router \<Rightarrow> router" where
  "add_subscription client_id filt self = self\<lparr>entries := add_entry client_id filt (entries self)\<rparr>"

definition remove_subscription :: "nat \<Rightarrow> rstring \<Rightarrow> router \<Rightarrow> router" where
  "remove_subscription client_id filt self =
     (let retained = map (\<lambda>entry.
            if entry_filter entry = filt
            then entry\<lparr>entry_clients := filter (\<lambda>id. id \<noteq> client_id) (entry_clients entry)\<rparr>
            else entry) (entries self)
      in self\<lparr>entries := filter (\<lambda>entry. entry_clients entry \<noteq> []) retained\<rparr>)"

fun push_new :: "nat list \<Rightarrow> nat list \<Rightarrow> nat list" where
  "push_new [] clients = clients"
| "push_new (c # ids) clients = push_new ids (if c \<in> set clients then clients else clients @ [c])"

fun matching_loop :: "subscription_entry list \<Rightarrow> rstring \<Rightarrow> nat list \<Rightarrow> (unit, nat list) outcome" where
  "matching_loop [] topic clients = Ok clients"
| "matching_loop (entry # rest) topic clients =
     bind_outcome (topic_matches (entry_filter entry) topic) (\<lambda>m.
     matching_loop rest topic (if m then push_new (entry_clients entry) clients else clients))"

definition matching_clients :: "rstring \<Rightarrow> router \<Rightarrow> (unit, nat list) outcome" where
  "matching_clients topic self = matching_loop (entries self) topic []"

section \<open>What a filter means\<close>

text \<open>
  The matching rule of MQTT 3.1.1, section 4.7.1, on the levels of filter and topic: a plus stands for
  any one level, a hash, at the end only, for any number of levels, also none.
\<close>

inductive filter_matches :: "bytes list \<Rightarrow> bytes list \<Rightarrow> bool" where
  both_end: "filter_matches [] []"
| multi: "filter_matches [hash] ts"
| single: "filter_matches fs ts \<Longrightarrow> filter_matches (plus # fs) (t # ts)"
| same: "t \<noteq> hash \<Longrightarrow> filter_matches fs ts \<Longrightarrow> filter_matches (t # fs) (t # ts)"

code_pred filter_matches .

inductive_simps filter_matches_Nil: "filter_matches [] ts"
inductive_simps filter_matches_Cons: "filter_matches (f # fs) ts"
inductive_simps filter_matches_Cons_Nil: "filter_matches (f # fs) []"
inductive_simps filter_matches_Cons_Cons: "filter_matches (f # fs) (t # ts)"

lemma plus_not_hash [simp]: "plus \<noteq> hash" "hash \<noteq> plus"
  by (simp_all add: plus_def hash_def ascii_def)

lemma filter_matches_rec:
  "filter_matches (f # fs) ts \<longleftrightarrow>
     (if f = hash then fs = []
      else case ts of [] \<Rightarrow> False | t # ts' \<Rightarrow> (f = plus \<or> f = t) \<and> filter_matches fs ts')"
  by (cases ts) (auto simp: filter_matches_Cons_Nil filter_matches_Cons_Cons)

lemma match_loop_spec:
  "i \<le> length fs \<Longrightarrow> i \<le> length ts \<Longrightarrow>
     match_loop fs ts i = Ok (filter_matches (drop i fs) (drop i ts))"
proof (induction "length fs - i" arbitrary: i)
  case 0
  then show ?case
    by (cases "drop i ts") (auto simp: match_loop.simps [of fs ts i] filter_matches_Nil)
next
  case (Suc n)
  then have i: "i < length fs" by simp
  then have d: "drop i fs = fs ! i # drop (Suc i) fs" by (simp add: Cons_nth_drop_Suc)
  show ?case
  proof (cases "fs ! i = hash")
    case True
    with i show ?thesis
      by (auto simp: match_loop.simps [of fs ts i] d filter_matches_rec checked_defs)
  next
    case False
    show ?thesis
    proof (cases "i < length ts")
      case True
      then have t: "drop i ts = ts ! i # drop (Suc i) ts" by (simp add: Cons_nth_drop_Suc)
      have "match_loop fs ts (Suc i) = Ok (filter_matches (drop (Suc i) fs) (drop (Suc i) ts))"
        using Suc.hyps(2) i True by (intro Suc.hyps(1)) simp_all
      with i True False show ?thesis
        by (simp add: match_loop.simps [of fs ts i] d t filter_matches_rec checked_defs)
    next
      case no: False
      with i False show ?thesis
        by (simp add: match_loop.simps [of fs ts i] d filter_matches_rec checked_defs)
    qed
  qed
qed

section \<open>The contract of a subscription table\<close>

datatype ('c, 'f) table_request = Add_Sub 'c 'f | Remove_Sub 'c 'f

fun run_table ::
  "('c \<Rightarrow> 'f \<Rightarrow> 's \<Rightarrow> 's) \<Rightarrow> ('c \<Rightarrow> 'f \<Rightarrow> 's \<Rightarrow> 's) \<Rightarrow> ('c, 'f) table_request list \<Rightarrow> 's \<Rightarrow> 's" where
  "run_table add rem [] s = s"
| "run_table add rem (Add_Sub c f # rs) s = run_table add rem rs (add c f s)"
| "run_table add rem (Remove_Sub c f # rs) s = run_table add rem rs (rem c f s)"

text \<open>The abstract table: a set of pairs of filter and client.\<close>

fun run_subs :: "('c, 'f) table_request list \<Rightarrow> ('f \<times> 'c) set \<Rightarrow> ('f \<times> 'c) set" where
  "run_subs [] S = S"
| "run_subs (Add_Sub c f # rs) S = run_subs rs (insert (f, c) S)"
| "run_subs (Remove_Sub c f # rs) S = run_subs rs (S - {(f, c)})"

locale subscription_table =
  fixes empty_table :: 's
    and add :: "'c \<Rightarrow> 'f \<Rightarrow> 's \<Rightarrow> 's"
    and rem :: "'c \<Rightarrow> 'f \<Rightarrow> 's \<Rightarrow> 's"
    and matching :: "'t \<Rightarrow> 's \<Rightarrow> (unit, 'c list) outcome"
    and subs :: "'s \<Rightarrow> ('f \<times> 'c) set"
    and inv :: "'s \<Rightarrow> bool"
    and matches :: "'f \<Rightarrow> 't \<Rightarrow> bool"
  assumes empty_law: "inv empty_table" "subs empty_table = {}"
    and add_law: "inv s \<Longrightarrow> inv (add c f s)" "inv s \<Longrightarrow> subs (add c f s) = insert (f, c) (subs s)"
    and rem_law: "inv s \<Longrightarrow> inv (rem c f s)" "inv s \<Longrightarrow> subs (rem c f s) = subs s - {(f, c)}"
    and matching_law: "inv s \<Longrightarrow> \<exists>cs. matching t s = Ok cs \<and> distinct cs \<and>
      set cs = {c. \<exists>f. (f, c) \<in> subs s \<and> matches f t}"
begin

lemma run_refines:
  "inv s \<Longrightarrow> inv (run_table add rem rs s) \<and> subs (run_table add rem rs s) = run_subs rs (subs s)"
proof (induction rs arbitrary: s)
  case (Cons r rs)
  then show ?case by (cases r) (simp_all add: add_law rem_law)
qed simp

lemma run_matching:
  "\<exists>cs. matching t (run_table add rem rs empty_table) = Ok cs \<and> distinct cs \<and>
     set cs = {c. \<exists>f. (f, c) \<in> run_subs rs {} \<and> matches f t}"
proof -
  have r: "inv (run_table add rem rs empty_table)" "subs (run_table add rem rs empty_table) = run_subs rs {}"
    using run_refines [OF empty_law(1), of rs] empty_law(2) by simp_all
  show ?thesis using matching_law [OF r(1), of t] unfolding r(2) .
qed

end

section \<open>The router is a subscription table\<close>

text \<open>At most one entry per filter; no entry without clients; no client twice in an entry.\<close>

definition entries_inv :: "subscription_entry list \<Rightarrow> bool" where
  "entries_inv es \<longleftrightarrow> distinct (map entry_filter es) \<and>
     list_all (\<lambda>e. entry_clients e \<noteq> [] \<and> distinct (entry_clients e)) es"

definition entry_subs :: "subscription_entry list \<Rightarrow> (rstring \<times> nat) set" where
  "entry_subs es = {(f, c). \<exists>e \<in> set es. entry_filter e = f \<and> c \<in> set (entry_clients e)}"

lemma entry_subs_simps [simp]:
  "entry_subs [] = {}"
  "entry_subs (e # es) = Pair (entry_filter e) ` set (entry_clients e) \<union> entry_subs es"
  by (auto simp: entry_subs_def)

lemma filters_add_entry: "entry_filter ` set (add_entry c f es) = insert f (entry_filter ` set es)"
  by (induction es) auto

lemma add_entry_inv: "entries_inv es \<Longrightarrow> entries_inv (add_entry c f es)"
proof (induction es)
  case (Cons e es)
  then show ?case by (auto simp: entries_inv_def filters_add_entry)
qed (simp add: entries_inv_def)

lemma add_entry_subs: "entry_subs (add_entry c f es) = insert (f, c) (entry_subs es)"
  by (induction es) auto

lemma remove_inv:
  assumes "entries_inv (entries r)"
  shows "entries_inv (entries (remove_subscription c f r))"
proof -
  let ?g = "\<lambda>e. if entry_filter e = f
            then e\<lparr>entry_clients := filter (\<lambda>id. id \<noteq> c) (entry_clients e)\<rparr> else e"
  have "map (entry_filter \<circ> ?g) (entries r) = map entry_filter (entries r)" by simp
  then have "distinct (map entry_filter (map ?g (entries r)))"
    using assms unfolding map_map by (simp only: entries_inv_def)
  then have "distinct (map entry_filter (filter (\<lambda>e. entry_clients e \<noteq> []) (map ?g (entries r))))"
    by (rule distinct_map_filter)
  then show ?thesis
    using assms by (auto simp: entries_inv_def remove_subscription_def list_all_iff)
qed

lemma entry_subs_nonempty: "entry_subs (filter (\<lambda>e. entry_clients e \<noteq> []) es) = entry_subs es"
  by (induction es) auto

lemma entry_subs_without:
  "entry_subs (map (\<lambda>e. if entry_filter e = f
     then e\<lparr>entry_clients := filter (\<lambda>id. id \<noteq> c) (entry_clients e)\<rparr> else e) es) =
   entry_subs es - {(f, c)}"
  by (induction es) auto

lemma remove_subs: "entry_subs (entries (remove_subscription c f r)) = entry_subs (entries r) - {(f, c)}"
  by (simp add: remove_subscription_def Let_def entry_subs_nonempty entry_subs_without)

lemma push_new_spec: "distinct clients \<Longrightarrow>
    distinct (push_new ids clients) \<and> set (push_new ids clients) = set clients \<union> set ids"
  by (induction ids arbitrary: clients) auto

abbreviation routes :: "rstring \<Rightarrow> rstring \<Rightarrow> bool" where
  "routes f t \<equiv> filter_matches (split_on slash f) (split_on slash t)"

lemma topic_matches_eq: "topic_matches f t = Ok (routes f t)"
  by (simp add: topic_matches_def match_loop_spec)

lemma matching_loop_spec:
  "distinct clients \<Longrightarrow> \<exists>cs. matching_loop es t clients = Ok cs \<and> distinct cs \<and>
     set cs = set clients \<union> {c. \<exists>f. (f, c) \<in> entry_subs es \<and> routes f t}"
proof (induction es arbitrary: clients)
  case (Cons e es)
  let ?cl = "if routes (entry_filter e) t then push_new (entry_clients e) clients else clients"
  have d: "distinct ?cl" using push_new_spec [OF Cons.prems] Cons.prems by simp
  from Cons.IH [OF d] obtain cs where
    "matching_loop es t ?cl = Ok cs" "distinct cs"
    "set cs = set ?cl \<union> {c. \<exists>f. (f, c) \<in> entry_subs es \<and> routes f t}" by blast
  then show ?case
    using push_new_spec [OF Cons.prems, of "entry_clients e"]
    by (auto simp: topic_matches_eq split: if_splits)
qed simp

interpretation table: subscription_table default_router add_subscription remove_subscription
  matching_clients "\<lambda>r. entry_subs (entries r)" "\<lambda>r. entries_inv (entries r)" routes
proof
  show "entries_inv (entries default_router)" "entry_subs (entries default_router) = {}"
    by (simp_all add: default_router_def entries_inv_def)
  show "entries_inv (entries (add_subscription c f s))" if "entries_inv (entries s)" for c f s
    using that by (simp add: add_subscription_def add_entry_inv)
  show "entry_subs (entries (add_subscription c f s)) = insert (f, c) (entry_subs (entries s))" for c f s
    by (simp add: add_subscription_def add_entry_subs)
  show "entries_inv (entries (remove_subscription c f s))" if "entries_inv (entries s)" for c f s
    using that by (rule remove_inv)
  show "entry_subs (entries (remove_subscription c f s)) = entry_subs (entries s) - {(f, c)}" for c f s
    by (rule remove_subs)
  show "\<exists>cs. matching_clients t s = Ok cs \<and> distinct cs \<and>
      set cs = {c. \<exists>f. (f, c) \<in> entry_subs (entries s) \<and> routes f t}" for s t
    using matching_loop_spec [of "[]" "entries s" t] by (simp add: matching_clients_def)
qed

section \<open>Properties\<close>

text \<open>
  Claim C20 (equivalence). Topic matching is the level rule of MQTT 3.1.1, section 4.7.1: the indexed loop
  never leaves its ranges and answers exactly whether the levels of the filter match the levels of the
  topic.  The exception of section 4.7.2, for topics that begin with a dollar sign, is not in the code
  and not in the rule.
\<close>
theorem topic_matches_is_mqtt:
  "topic_matches filt topic = Ok (filter_matches (split_on slash filt) (split_on slash topic))"
  by (simp add: topic_matches_def match_loop_spec)

text \<open>
  Claim C19 (refinement). Routing refines a set of subscriptions: after any sequence of additions and
  removals, the clients matched for a topic are exactly those with a subscription in the set whose
  filter matches the topic, each once, and matching never panics.
\<close>
theorem router_refines_subscriptions:
  "\<exists>cs. matching_clients topic (run_table add_subscription remove_subscription rs default_router) = Ok cs \<and>
     distinct cs \<and>
     set cs = {c. \<exists>f. (f, c) \<in> run_subs rs {} \<and> filter_matches (split_on slash f) (split_on slash topic)}"
  by (rule table.run_matching)

text \<open>
  A departure from MQTT 3.1.1, section 4.7.2: filters that begin with a wildcard match
  topics that begin with a dollar sign.
\<close>
theorem wildcard_matches_dollar_topic:
  "topic_matches (ascii ''#'') (ascii ''$SYS/up'') = Ok True \<and>
   topic_matches (ascii ''+/up'') (ascii ''$SYS/up'') = Ok True"
  by (simp add: topic_matches_eq filter_matches_rec filter_matches.both_end slash_def hash_def plus_def ascii_def)

end
