(* ===== verification/Runtime_Task.thy ===== *)
theory Runtime_Task
  imports Runtime_Driver Router Frame_Stream "HOL-Library.AList" "HOL-Library.Stream"
begin

text \<open>
  The runtime task, src/runtime/task.rs: it owns the driver, the transport, the frame parser and the
  router, and turns the driver's actions into bytes on the wire and events for clients.

  The environment is explicit state.

  \<^item> The command channel is the queue of commands sent and not yet received, with a flag for living
    senders.
  \<^item> An event channel is the list of events sent and not yet received, with a flag for a living
    receiver; a Sender is the number of its channel.
  \<^item> \<open>tk_clock\<close> is the stream of readings of \<open>Instant::now()\<close>; one is drawn for each call of the
    driver, which uses it only when it sends.
  \<^item> The transport is any implementation of the trait src/runtime/transport.rs: its state and its two
    methods are parameters of the definitions that use them.

  A poisoned mutex is not modelled: no code panics while it holds the lock.
\<close>

section \<open>Clients and channels\<close>

datatype runtime_event =
    RE_Completion completion
  | RE_IncomingPublish publish
  | RE_Disconnected
  | RE_Reconnected

type_synonym sender = nat

record event_channel =
  ch_events :: "runtime_event list"
  ch_receiver_alive :: bool

type_synonym channels = "sender \<Rightarrow> event_channel"

text \<open>\<open>Sender::send\<close>: an error when the receiver is gone.\<close>

definition send_event :: "sender \<Rightarrow> runtime_event \<Rightarrow> (channels, unit, unit) op" where
  "send_event tx event =
     and_then (get (\<lambda>chs. chs tx)) (\<lambda>ch.
     if ch_receiver_alive ch then modify (\<lambda>chs. chs(tx := ch\<lparr>ch_events := ch_events ch @ [event]\<rparr>))
     else throw ())"

text \<open>The HashMap of the registry is an association list; its iteration order is the list's.\<close>

record client_registry =
  reg_next_id :: nat
  reg_event_txs :: "(nat \<times> sender) list"

definition default_registry :: client_registry where
  "default_registry = \<lparr>reg_next_id = 0, reg_event_txs = []\<rparr>"

definition register :: "sender \<Rightarrow> client_registry \<Rightarrow> nat \<times> client_registry" where
  "register event_tx self =
     (let client_id = reg_next_id self + 1
      in (client_id, self\<lparr>reg_next_id := client_id,
                          reg_event_txs := AList.update client_id event_tx (reg_event_txs self)\<rparr>))"

definition remove_client :: "nat \<Rightarrow> client_registry \<Rightarrow> sender option \<times> client_registry" where
  "remove_client client_id self =
     (map_of (reg_event_txs self) client_id,
      self\<lparr>reg_event_txs := AList.delete client_id (reg_event_txs self)\<rparr>)"

definition registry_send_to :: "client_registry \<Rightarrow> nat \<Rightarrow> runtime_event \<Rightarrow> (channels, unit, unit) op" where
  "registry_send_to self client_id event =
     (case map_of (reg_event_txs self) client_id of
        Some tx \<Rightarrow> send_event tx event
      | None \<Rightarrow> ret ())"

text \<open>\<open>let _ = tx.send(..)\<close>: a failing send is ignored.\<close>

fun broadcast_loop :: "(nat \<times> sender) list \<Rightarrow> runtime_event \<Rightarrow> (channels, unit, unit) op" where
  "broadcast_loop [] event = ret ()"
| "broadcast_loop ((_, tx) # txs) event =
     and_then (attempt (send_event tx event)) (\<lambda>_. broadcast_loop txs event)"

definition registry_broadcast :: "client_registry \<Rightarrow> runtime_event \<Rightarrow> (channels, unit, unit) op" where
  "registry_broadcast self event = broadcast_loop (reg_event_txs self) event"

section \<open>The task\<close>

datatype 'io runtime_task_error =
    TE_Runtime runtime_error
  | TE_Protocol mqtt_error
  | TE_Io 'io
  | TE_CommandChannelClosed
  | TE_EventChannelClosed

record command_channel =
  cmd_queue :: "command list"
  cmd_sender_alive :: bool

record 't runtime_task =
  tk_command_rx :: command_channel
  tk_registry :: client_registry
  tk_channels :: channels
  tk_driver :: runtime_driver
  tk_transport :: 't
  tk_parser :: frame_parser
  tk_read_buf :: bytes
  tk_tick_interval :: duration
  tk_last_tick :: instant
  tk_router :: router
  tk_clock :: "instant stream"

type_synonym ('t, 'io, 'a) task_op = "('t runtime_task, 'io runtime_task_error, 'a) op"

text \<open>
  The trait Transport: \<open>read\<close> fills a prefix of the buffer and returns its length, \<open>write_all\<close> takes
  the bytes.
\<close>

type_synonym ('t, 'io) transport_read = "bytes \<Rightarrow> 't \<Rightarrow> ('io, nat) outcome \<times> bytes \<times> 't"
type_synonym ('t, 'io) transport_write = "bytes \<Rightarrow> 't \<Rightarrow> ('io, unit) outcome \<times> 't"

definition new_task ::
  "command_channel \<Rightarrow> client_registry \<Rightarrow> channels \<Rightarrow> runtime_driver \<Rightarrow> 't \<Rightarrow> duration \<Rightarrow> instant stream \<Rightarrow>
    't runtime_task" where
  "new_task command_rx registry chs driver transport tick_interval clock =
     \<lparr>tk_command_rx = command_rx, tk_registry = registry, tk_channels = chs, tk_driver = driver,
      tk_transport = transport, tk_parser = new_parser, tk_read_buf = replicate 4096 0,
      tk_tick_interval = tick_interval, tk_last_tick = shd clock, tk_router = default_router,
      tk_clock = stl clock\<rparr>"

definition instant_now :: "('t, 'io, instant) task_op" where
  "instant_now =
     and_then (get (\<lambda>self. shd (tk_clock self))) (\<lambda>now.
     and_then (modify (\<lambda>self. self\<lparr>tk_clock := stl (tk_clock self)\<rparr>)) (\<lambda>_.
     ret now))"

text \<open>A driver call, its error wrapped by \<open>map_err(RuntimeTaskError::Runtime)\<close>.\<close>

definition drive :: "driver_event \<Rightarrow> ('t, 'io, driver_action list) task_op" where
  "drive event =
     and_then instant_now (\<lambda>clock.
     map_err_op TE_Runtime (on_field tk_driver (\<lambda>d self. self\<lparr>tk_driver := d\<rparr>) (handle_event clock event)))"

definition on_driver_state :: "'a state_op \<Rightarrow> ('t, 'io, 'a) task_op" where
  "on_driver_state m =
     map_err_op TE_Runtime (on_field tk_driver (\<lambda>d self. self\<lparr>tk_driver := d\<rparr>) (on_state m))"

definition on_channels :: "(channels, unit, 'a) op \<Rightarrow> ('t, 'io, 'a) task_op" where
  "on_channels m =
     map_err_op (\<lambda>_. TE_EventChannelClosed) (on_field tk_channels (\<lambda>c self. self\<lparr>tk_channels := c\<rparr>) m)"

definition send_event_to :: "nat \<Rightarrow> runtime_event \<Rightarrow> ('t, 'io, unit) task_op" where
  "send_event_to client_id event =
     and_then (get tk_registry) (\<lambda>reg. on_channels (registry_send_to reg client_id event))"

definition broadcast_event :: "runtime_event \<Rightarrow> ('t, 'io, unit) task_op" where
  "broadcast_event event =
     and_then (get tk_registry) (\<lambda>reg. on_channels (registry_broadcast reg event))"

fun fanout_loop :: "nat list \<Rightarrow> publish \<Rightarrow> ('t, 'io, unit) task_op" where
  "fanout_loop [] publish = ret ()"
| "fanout_loop (client_id # ids) publish =
     and_then (send_event_to client_id (RE_IncomingPublish publish)) (\<lambda>_. fanout_loop ids publish)"

definition total :: "(unit, 'a) outcome \<Rightarrow> ('e, 'a) outcome" where
  "total r = (case r of Ok x \<Rightarrow> Ok x | _ \<Rightarrow> Panic)"

definition fanout_publish :: "publish \<Rightarrow> ('t, 'io, unit) task_op" where
  "fanout_publish publish =
     and_then (get tk_router) (\<lambda>router.
     and_then (lift (total (matching_clients (pub_topic publish) router))) (\<lambda>client_ids.
     fanout_loop client_ids publish))"

definition send_completion_to :: "nat \<Rightarrow> completion \<Rightarrow> ('t, 'io, unit) task_op" where
  "send_completion_to client_id c = send_event_to client_id (RE_Completion c)"

definition send_packet :: "('t, 'io) transport_write \<Rightarrow> packet \<Rightarrow> ('t, 'io, unit) task_op" where
  "send_packet write_all packet =
     and_then (with_local [] (map_err_op TE_Protocol (encode_packet packet))) (\<lambda>bytes.
     and_then (map_err_op TE_Io
       (on_field tk_transport (\<lambda>t self. self\<lparr>tk_transport := t\<rparr>) (write_all bytes))) (\<lambda>_.
     and_then instant_now (\<lambda>now.
     on_driver_state (note_outgoing_activity now))))"

definition read_one_packet :: "('t, 'io) transport_read \<Rightarrow> ('t, 'io, packet option) task_op" where
  "read_one_packet read =
     and_then (\<lambda>self. case read (tk_read_buf self) (tk_transport self) of
        (r, buf, t) \<Rightarrow> (map_err TE_Io r, self\<lparr>tk_read_buf := buf, tk_transport := t\<rparr>)) (\<lambda>n.
     if n = 0 then ret None
     else
       and_then (get tk_read_buf) (\<lambda>buf.
       and_then (lift (slice buf 0 n)) (\<lambda>chunk.
       and_then (map_err_op TE_Protocol (on_field tk_parser (\<lambda>p self. self\<lparr>tk_parser := p\<rparr>) (push chunk))) (\<lambda>_.
       map_err_op TE_Protocol (on_field tk_parser (\<lambda>p self. self\<lparr>tk_parser := p\<rparr>) next_packet)))))"

section \<open>Performing actions\<close>

fun add_routes :: "nat \<Rightarrow> topic_filter list \<Rightarrow> router \<Rightarrow> router" where
  "add_routes client_id [] r = r"
| "add_routes client_id (f # fs) r = add_routes client_id fs (add_subscription client_id (filter_path f) r)"

fun remove_routes :: "nat \<Rightarrow> rstring list \<Rightarrow> router \<Rightarrow> router" where
  "remove_routes client_id [] r = r"
| "remove_routes client_id (f # fs) r = remove_routes client_id fs (remove_subscription client_id f r)"

lemma and_then_cong [fundef_cong]:
  "m s = m' s \<Longrightarrow> (\<And>x s1. m' s = (Ok x, s1) \<Longrightarrow> f x s1 = f' x s1) \<Longrightarrow> s = s' \<Longrightarrow>
     and_then m f s = and_then m' f' s'"
  by (cases "m' s"; cases "fst (m' s)") (auto simp: and_then_def)

text \<open>
  The two methods handle\_actions and reconnect call each other.  Restoring the connection yields
  nothing but \<open>A_Send\<close> actions, so the recursion is one level deep; the measure below is the proof
  that the loop ends, for every list of actions in every state.
\<close>

fun is_send :: "driver_action \<Rightarrow> bool" where
  "is_send (A_Send _) = True"
| "is_send _ = False"

definition begin_reconnect :: "('t, 'io, driver_action list) task_op" where
  "begin_reconnect = and_then instant_now (\<lambda>now. drive (D_ConnectionRestored now))"

lemma send_all_sends: "send_all now pkts st = (Ok acts, st') \<Longrightarrow> list_all is_send acts"
  by (induction pkts arbitrary: st acts) (auto simp: and_then_Ok_iff ret_Ok_iff)

lemma restored_sends:
  assumes "handle_event clock (D_ConnectionRestored now) d = (Ok acts, d')"
  shows "list_all is_send acts"
  using assms send_all_sends
  by (fastforce simp: handle_event_eq handle_connection_restored_def and_then_Ok_iff split: prod.splits)

lemma begin_reconnect_sends: "begin_reconnect s = (Ok acts, s') \<Longrightarrow> list_all is_send acts"
  by (auto simp: begin_reconnect_def drive_def map_err_op_def on_field_def and_then_Ok_iff
      dest!: restored_sends split: prod.splits)

function (sequential) handle_actions ::
  "('t, 'io) transport_write \<Rightarrow> driver_action list \<Rightarrow> ('t, 'io, unit) task_op" where
  "handle_actions write_all [] s = ret () s"
| "handle_actions write_all (A_Send packet # rest) s =
     and_then (send_packet write_all packet) (\<lambda>_ s. handle_actions write_all rest s) s"
| "handle_actions write_all (A_CompleteFor client_id completion # rest) s =
     and_then (send_completion_to client_id completion) (\<lambda>_ s. handle_actions write_all rest s) s"
| "handle_actions write_all (A_TriggerReconnect # rest) s =
     and_then (broadcast_event RE_Disconnected) (\<lambda>_ s.
     and_then begin_reconnect (\<lambda>actions s.
     and_then (\<lambda>s. handle_actions write_all actions s) (\<lambda>_ s.
     and_then (broadcast_event RE_Reconnected) (\<lambda>_ s.
     handle_actions write_all rest s) s) s) s) s"
| "handle_actions write_all (A_SubscribeAckFor client_id filters completion # rest) s =
     and_then (modify (\<lambda>self. self\<lparr>tk_router := add_routes client_id filters (tk_router self)\<rparr>)) (\<lambda>_ s.
     and_then (send_completion_to client_id completion) (\<lambda>_ s. handle_actions write_all rest s) s) s"
| "handle_actions write_all (A_UnsubscribeAckFor client_id filters completion # rest) s =
     and_then (modify (\<lambda>self. self\<lparr>tk_router := remove_routes client_id filters (tk_router self)\<rparr>)) (\<lambda>_ s.
     and_then (send_completion_to client_id completion) (\<lambda>_ s. handle_actions write_all rest s) s) s"
  by pat_completeness auto

definition reconnects :: "driver_action list \<Rightarrow> nat" where
  "reconnects as = length (filter (\<lambda>a. a = A_TriggerReconnect) as)"

lemma sends_no_reconnect: "list_all is_send as \<Longrightarrow> reconnects as = 0"
  by (auto simp: reconnects_def list_all_iff filter_empty_conv)

termination handle_actions
proof (relation "measures [\<lambda>(w, as, s). reconnects as, \<lambda>(w, as, s). length as]", goal_cases)
  case 1
  then show ?case by simp
qed (auto simp: reconnects_def dest!: begin_reconnect_sends sends_no_reconnect [unfolded reconnects_def])

definition reconnect :: "('t, 'io) transport_write \<Rightarrow> ('t, 'io, unit) task_op" where
  "reconnect write_all =
     and_then begin_reconnect (\<lambda>actions.
     and_then (handle_actions write_all actions) (\<lambda>_.
     broadcast_event RE_Reconnected))"

lemma handle_actions_reconnect:
  "handle_actions write_all (A_TriggerReconnect # rest) =
     and_then (broadcast_event RE_Disconnected) (\<lambda>_.
     and_then (reconnect write_all) (\<lambda>_.
     handle_actions write_all rest))"
proof
  fix s :: "'a runtime_task"
  have assoc: "and_then (and_then m f) g t = and_then m (\<lambda>x. and_then (f x) g) t"
    for m :: "('a, 'b, 'c) task_op" and f :: "'c \<Rightarrow> ('a, 'b, 'd) task_op" and g :: "'d \<Rightarrow> ('a, 'b, 'e) task_op" and t
    by (auto simp: and_then_def split: prod.split outcome.split)
  show "handle_actions write_all (A_TriggerReconnect # rest) s =
     and_then (broadcast_event RE_Disconnected) (\<lambda>_.
     and_then (reconnect write_all) (\<lambda>_.
     handle_actions write_all rest)) s"
    by (auto simp: reconnect_def and_then_def split: prod.split outcome.split)
qed

section \<open>The poll loop\<close>

definition handle_incoming_publish ::
  "('t, 'io) transport_write \<Rightarrow> publish \<Rightarrow> instant \<Rightarrow> ('t, 'io, unit) task_op" where
  "handle_incoming_publish write_all publish now =
     and_then (on_driver_state (note_incoming_activity now)) (\<lambda>_.
     case pub_qos publish of
       AtMostOnce \<Rightarrow> fanout_publish publish
     | AtLeastOnce \<Rightarrow>
         and_then (fanout_publish publish) (\<lambda>_.
         send_packet write_all (P_PubAck \<lparr>puback_pkid = pub_pkid publish\<rparr>))
     | ExactlyOnce \<Rightarrow>
         and_then (on_driver_state (on_incoming_qos2_publish_checked (pub_pkid publish))) (\<lambda>result.
         case result of
           FirstSeen pubrec \<Rightarrow>
             and_then (send_packet write_all pubrec) (\<lambda>_. fanout_publish publish)
         | Duplicate pubrec \<Rightarrow> send_packet write_all pubrec))"

definition poll_incoming ::
  "('t, 'io) transport_read \<Rightarrow> ('t, 'io) transport_write \<Rightarrow> ('t, 'io, unit) task_op" where
  "poll_incoming read write_all =
     and_then (read_one_packet read) (\<lambda>packet.
     case packet of
       None \<Rightarrow> ret ()
     | Some packet \<Rightarrow>
         and_then instant_now (\<lambda>now.
         case packet of
           P_Publish publish \<Rightarrow> handle_incoming_publish write_all publish now
         | other \<Rightarrow> and_then (drive (D_Incoming other now)) (handle_actions write_all)))"

datatype try_recv = TR_Command command | TR_Empty | TR_Disconnected

definition try_recv_cmd :: "('t, 'io, try_recv) task_op" where
  "try_recv_cmd =
     and_then (get tk_command_rx) (\<lambda>rx.
     case cmd_queue rx of
       cmd # rest \<Rightarrow>
         and_then (modify (\<lambda>self. self\<lparr>tk_command_rx := rx\<lparr>cmd_queue := rest\<rparr>\<rparr>)) (\<lambda>_. ret (TR_Command cmd))
     | [] \<Rightarrow> ret (if cmd_sender_alive rx then TR_Empty else TR_Disconnected))"

definition poll_command :: "('t, 'io) transport_write \<Rightarrow> ('t, 'io, unit) task_op" where
  "poll_command write_all =
     and_then try_recv_cmd (\<lambda>r.
     case r of
       TR_Command cmd \<Rightarrow> and_then (drive (D_Command cmd)) (handle_actions write_all)
     | TR_Empty \<Rightarrow> ret ()
     | TR_Disconnected \<Rightarrow> throw TE_CommandChannelClosed)"

definition poll_tick :: "('t, 'io) transport_write \<Rightarrow> ('t, 'io, unit) task_op" where
  "poll_tick write_all =
     and_then instant_now (\<lambda>now.
     and_then (get (\<lambda>self. now - tk_last_tick self < tk_tick_interval self)) (\<lambda>early.
     if early then ret ()
     else
       and_then (modify (\<lambda>self. self\<lparr>tk_last_tick := now\<rparr>)) (\<lambda>_.
       and_then (drive (D_Tick now)) (handle_actions write_all))))"

text \<open>
  One round of the loop in \<open>run\<close>.  The loop ends only with an error; \<open>run_rounds n\<close> is its first
  \<open>n\<close> rounds.  The Senders of the clients live on other threads: between two rounds they may append
  to the command queue, which \<open>arrivals\<close> gives for each round.
\<close>

definition poll_round ::
  "('t, 'io) transport_read \<Rightarrow> ('t, 'io) transport_write \<Rightarrow> ('t, 'io, unit) task_op" where
  "poll_round read write_all =
     and_then (poll_command write_all) (\<lambda>_.
     and_then (poll_incoming read write_all) (\<lambda>_.
     poll_tick write_all))"

definition commands_arrive :: "command list \<Rightarrow> ('t, 'io, unit) task_op" where
  "commands_arrive cmds =
     modify (\<lambda>self. self\<lparr>tk_command_rx := (tk_command_rx self)
       \<lparr>cmd_queue := cmd_queue (tk_command_rx self) @ cmds\<rparr>\<rparr>)"

fun run_rounds ::
  "('t, 'io) transport_read \<Rightarrow> ('t, 'io) transport_write \<Rightarrow> command list list \<Rightarrow> ('t, 'io, unit) task_op" where
  "run_rounds read write_all [] = ret ()"
| "run_rounds read write_all (cmds # arrivals) =
     and_then (commands_arrive cmds) (\<lambda>_.
     and_then (poll_round read write_all) (\<lambda>_.
     run_rounds read write_all arrivals))"

text \<open>
  \<open>recv_cmd\<close> blocks until a command is there; \<open>run_once\<close> handles one command.  On an empty queue with
  living senders the call does not return in the current state, which is None here.
\<close>

definition recv_cmd :: "'t runtime_task \<Rightarrow> (('io runtime_task_error, command) outcome \<times> 't runtime_task) option" where
  "recv_cmd self =
     (case cmd_queue (tk_command_rx self) of
        cmd # rest \<Rightarrow> Some (Ok cmd, self\<lparr>tk_command_rx := (tk_command_rx self)\<lparr>cmd_queue := rest\<rparr>\<rparr>)
      | [] \<Rightarrow> if cmd_sender_alive (tk_command_rx self) then None else Some (Err TE_CommandChannelClosed, self))"

definition run_once ::
  "('t, 'io) transport_write \<Rightarrow> 't runtime_task \<Rightarrow> (('io runtime_task_error, unit) outcome \<times> 't runtime_task) option" where
  "run_once write_all self =
     map_option (\<lambda>(r, s). and_then (\<lambda>s. (r, s))
       (\<lambda>cmd. and_then (drive (D_Command cmd)) (handle_actions write_all)) s) (recv_cmd self)"

section \<open>The contract of a transport\<close>

text \<open>
  What the task needs of a transport, and the documentation of std::io::Read promises: \<open>read\<close> keeps the
  length of the buffer and returns no more than that length; neither method panics.
\<close>

definition transport_ok :: "('t, 'io) transport_read \<Rightarrow> ('t, 'io) transport_write \<Rightarrow> bool" where
  "transport_ok read write_all \<longleftrightarrow>
     (\<forall>buf t r buf' t'. read buf t = (r, buf', t') \<longrightarrow>
        r \<noteq> Panic \<and> length buf' = length buf \<and> (\<forall>n. r = Ok n \<longrightarrow> n \<le> length buf)) \<and>
     (\<forall>bytes t. fst (write_all bytes t) \<noteq> Panic)"

text \<open>The transport of the tests: scripted reads, recorded writes.\<close>

record fake_transport =
  ft_reads :: "bytes list"
  ft_writes :: "bytes list"

definition fake_read :: "(fake_transport, 'io) transport_read" where
  "fake_read buf self =
     (case ft_reads self of
        [] \<Rightarrow> (Ok 0, buf, self)
      | next # rest \<Rightarrow>
          let n = min (length next) (length buf)
          in (Ok n, take n next @ drop n buf, self\<lparr>ft_reads := rest\<rparr>))"

definition fake_write_all :: "(fake_transport, 'io) transport_write" where
  "fake_write_all bytes self = (Ok (), self\<lparr>ft_writes := ft_writes self @ [bytes]\<rparr>)"

definition task_inv :: "'t runtime_task \<Rightarrow> bool" where
  "task_inv s \<longleftrightarrow> state_inv (drv_state (tk_driver s)) \<and> length (tk_read_buf s) = 4096"

end
