(* ===== verification/Task_Properties.thy ===== *)
theory Task_Properties
  imports Runtime_Task Session_Properties
begin

text \<open>
  What the runtime task guarantees: it never panics over a well-behaved transport, delivers an incoming
  publish to exactly the subscribed clients, tells every client of a reconnect, and writes frames that
  decode to the packets sent.
\<close>

section \<open>Panic freedom\<close>

lemma safe_if [intro]: "safe I m \<Longrightarrow> safe I m' \<Longrightarrow> safe I (if c then m else m')"
  by simp

lemma safe_instant_now [intro, simp]: "safe task_inv instant_now"
  by (simp add: safe_def instant_now_def op_defs task_inv_def)

lemma safe_drive [intro, simp]: "safe task_inv (drive e)"
proof (rule safeI)
  fix s assume s: "task_inv s"
  obtain r d where h: "handle_event (shd (tk_clock s)) e (tk_driver s) = (r, d)"
    by (cases "handle_event (shd (tk_clock s)) e (tk_driver s)")
  then show "fst (drive e s) \<noteq> Panic \<and> task_inv (snd (drive e s))"
    using handle_event_ledger [OF _ h] s
    by (cases r) (simp_all add: drive_def instant_now_def op_defs task_inv_def)
qed

lemma safe_on_driver_state:
  assumes "ledger g m d"
  shows "safe task_inv (on_driver_state m)"
proof (rule safeI)
  fix s assume s: "task_inv s"
  obtain r st where h: "m (drv_state (tk_driver s)) = (r, st)" by (cases "m (drv_state (tk_driver s))")
  then show "fst (on_driver_state m s) \<noteq> Panic \<and> task_inv (snd (on_driver_state m s))"
    using ledgerD [OF assms _ h] s
    by (cases r) (simp_all add: on_driver_state_def on_state_def op_defs task_inv_def)
qed

lemma send_event_total: "fst (send_event tx e chs) \<noteq> Panic"
  by (simp add: send_event_def op_defs)

lemma registry_send_total: "fst (registry_send_to reg c e chs) \<noteq> Panic"
  by (simp add: registry_send_to_def ret_def send_event_total split: option.split)

lemma broadcast_ok: "fst (broadcast_loop txs e chs) = Ok ()"
proof (induction txs arbitrary: chs)
  case (Cons p txs)
  then show ?case
    using send_event_total [of "snd p" e chs]
    by (cases p; cases "send_event (snd p) e chs"; cases "fst (send_event (snd p) e chs)")
      (auto simp: and_then_def attempt_def)
qed (simp add: ret_def)

lemma safe_on_channels: "(\<And>chs. fst (m chs) \<noteq> Panic) \<Longrightarrow> safe task_inv (on_channels m)"
  by (rule safeI) (auto simp: on_channels_def op_defs task_inv_def split: prod.split, metis fst_conv)

lemma safe_events [intro, simp]:
  "safe task_inv (send_event_to c e)" "safe task_inv (broadcast_event e)"
  "safe task_inv (send_completion_to c d)"
  unfolding send_event_to_def broadcast_event_def send_completion_to_def registry_broadcast_def
  by (auto intro!: safe_and_then safe_on_channels simp: registry_send_total broadcast_ok)

lemma safe_fanout_loop [intro, simp]: "safe task_inv (fanout_loop ids p)"
  by (induction ids) (auto intro!: safe_and_then)

lemma matching_clients_Ok: "\<exists>cs. matching_clients t r = Ok cs"
  using matching_loop_spec [of "[]" "entries r" t] by (auto simp: matching_clients_def)

lemma safe_fanout [intro, simp]: "safe task_inv (fanout_publish p)"
proof -
  have "total (matching_clients t r) \<noteq> (Panic :: ('e, nat list) outcome)" for t r
    using matching_clients_Ok [of t r] by (auto simp: total_def)
  then show ?thesis unfolding fanout_publish_def by (auto intro!: safe_and_then safe_lift)
qed

lemma safe_router [intro, simp]: "safe task_inv (modify (\<lambda>self. self\<lparr>tk_router := f (tk_router self)\<rparr>))"
  by (rule safe_modify) (simp add: task_inv_def)

lemma safe_and_then_result:
  assumes "safe I m" and "\<And>x s s'. m s = (Ok x, s') \<Longrightarrow> safe I (f x)"
  shows "safe I (and_then m f)"
proof (rule safeI)
  fix s assume s: "I s"
  obtain r s' where m: "m s = (r, s')" by (cases "m s")
  with assms(1) s have r: "r \<noteq> Panic \<and> I s'" by (rule safe_run)
  show "fst (and_then m f s) \<noteq> Panic \<and> I (snd (and_then m f s))"
  proof (cases r)
    case (Ok x)
    with m have "safe I (f x)" using assms(2) by blast
    then show ?thesis using r m Ok safeD [of I "f x" s'] by simp
  qed (use r m in \<open>simp_all add: and_then_def\<close>)
qed

lemma handle_actions_eqs:
  "handle_actions w [] = ret ()"
  "handle_actions w (A_Send p # rest) = and_then (send_packet w p) (\<lambda>_. handle_actions w rest)"
  "handle_actions w (A_CompleteFor c d # rest) =
     and_then (send_completion_to c d) (\<lambda>_. handle_actions w rest)"
  "handle_actions w (A_SubscribeAckFor c fs d # rest) =
     and_then (modify (\<lambda>self. self\<lparr>tk_router := add_routes c fs (tk_router self)\<rparr>)) (\<lambda>_.
     and_then (send_completion_to c d) (\<lambda>_. handle_actions w rest))"
  "handle_actions w (A_UnsubscribeAckFor c ts d # rest) =
     and_then (modify (\<lambda>self. self\<lparr>tk_router := remove_routes c ts (tk_router self)\<rparr>)) (\<lambda>_.
     and_then (send_completion_to c d) (\<lambda>_. handle_actions w rest))"
  by (rule ext; simp)+

lemma next_packet_total: "fst (next_packet q) \<noteq> Panic"
proof -
  have "decode_packet f \<noteq> Panic" for f by (rule decode_packet_not_Panic)
  moreover have "parse_fixed_header b \<noteq> Panic" for b by (rule parse_fixed_header_not_Panic)
  ultimately show ?thesis
    by (auto simp: next_packet_eq next_frame_eq bind_outcome_def split: outcome.split frame_state.split)
qed

text \<open>The interface between the task and any transport that keeps its contract.\<close>

locale transport =
  fixes read :: "('t, 'io) transport_read" and write_all :: "('t, 'io) transport_write"
  assumes ok: "transport_ok read write_all"
begin

lemma write_total: "fst (write_all bytes t) \<noteq> Panic"
  using ok by (simp add: transport_ok_def)

lemma safe_send_packet [intro, simp]: "safe task_inv (send_packet write_all p)"
  unfolding send_packet_def
proof (intro safe_and_then)
  show "safe task_inv (with_local [] (map_err_op TE_Protocol (encode_packet p)))"
    using encode_packet_legal [of p "[]"] encode_packet_refused [of p "[]"]
    by (cases "legal_packet p") (simp_all add: safe_def with_local_def map_err_op_def)
  show "safe task_inv (map_err_op TE_Io (on_field tk_transport (\<lambda>t self. self\<lparr>tk_transport := t\<rparr>) (write_all bytes)))"
    for bytes
  proof (rule safeI)
    fix s :: "'t runtime_task" assume "task_inv s"
    then show "fst (map_err_op TE_Io (on_field tk_transport (\<lambda>t self. self\<lparr>tk_transport := t\<rparr>) (write_all bytes)) s)
        \<noteq> Panic \<and> task_inv (snd (map_err_op TE_Io (on_field tk_transport
          (\<lambda>t self. self\<lparr>tk_transport := t\<rparr>) (write_all bytes)) s))"
      using write_total [of bytes "tk_transport s"]
      by (cases "write_all bytes (tk_transport s)") (simp add: map_err_op_def on_field_def task_inv_def)
  qed
  show "safe task_inv (on_driver_state (note_outgoing_activity now))" for now
    by (rule safe_on_driver_state [OF ledger_notes(2)])
qed simp

lemma safe_handle_sends: "list_all is_send as \<Longrightarrow> safe task_inv (handle_actions write_all as)"
proof (induction as)
  case (Cons a as)
  then show ?case by (cases a) (auto simp: handle_actions_eqs intro!: safe_and_then)
qed (simp add: handle_actions_eqs)

lemma safe_reconnect [intro, simp]: "safe task_inv (reconnect write_all)"
proof -
  have b: "safe task_inv begin_reconnect"
    unfolding begin_reconnect_def by (auto intro!: safe_and_then)
  show ?thesis
    unfolding reconnect_def
    by (rule safe_and_then_result [OF b]) (auto intro!: safe_and_then safe_handle_sends dest: begin_reconnect_sends)
qed

lemma safe_handle_actions [intro, simp]: "safe task_inv (handle_actions write_all as)"
proof (induction as)
  case (Cons a as)
  then show ?case
    by (cases a) (auto simp: handle_actions_eqs handle_actions_reconnect intro!: safe_and_then)
qed (simp add: handle_actions_eqs)

lemma safe_read_one_packet [intro, simp]: "safe task_inv (read_one_packet read)"
proof (rule safeI)
  fix s :: "'t runtime_task" assume s: "task_inv s"
  obtain r buf t where r: "read (tk_read_buf s) (tk_transport s) = (r, buf, t)"
    by (cases "read (tk_read_buf s) (tk_transport s)")
  with ok have k: "r \<noteq> Panic" "length buf = length (tk_read_buf s)" "\<forall>n. r = Ok n \<longrightarrow> n \<le> length buf"
    unfolding transport_ok_def by metis+
  have n: "fst (next_packet q) \<noteq> Panic" for q by (rule next_packet_total)
  show "fst (read_one_packet read s) \<noteq> Panic \<and> task_inv (snd (read_one_packet read s))"
  proof (cases r)
    case (Ok m)
    then show ?thesis
      using k s n r
      by (auto simp: read_one_packet_def op_combinators slice_def push_def task_inv_def split: prod.split)
        (metis fst_conv)+
  next
    case (Err e)
    then show ?thesis using k s r by (simp add: read_one_packet_def and_then_def task_inv_def)
  qed (use k in simp)
qed

lemma safe_handle_incoming_publish [intro, simp]: "safe task_inv (handle_incoming_publish write_all p now)"
  unfolding handle_incoming_publish_def
  by (auto intro!: safe_and_then safe_on_driver_state ledger_notes ledger_on_incoming_qos2
      split: qos.split incoming_qos2_result.split)

lemma safe_poll_incoming: "safe task_inv (poll_incoming read write_all)"
  unfolding poll_incoming_def
  by (auto intro!: safe_and_then split: option.split packet.split)

lemma safe_poll_command: "safe task_inv (poll_command write_all)"
proof -
  have "safe task_inv try_recv_cmd"
    by (rule safeI) (auto simp: try_recv_cmd_def op_combinators task_inv_def split: list.split)
  then show ?thesis
    unfolding poll_command_def by (auto intro!: safe_and_then split: try_recv.split)
qed

lemma safe_poll_tick: "safe task_inv (poll_tick write_all)"
proof -
  have "safe task_inv (modify (\<lambda>self. self\<lparr>tk_last_tick := now\<rparr>))" for now
    by (rule safe_modify) (simp add: task_inv_def)
  then show ?thesis unfolding poll_tick_def by (auto intro!: safe_and_then)
qed

lemma safe_run_rounds: "safe task_inv (run_rounds read write_all arrivals)"
proof (induction arrivals)
  case (Cons cmds arrivals)
  have "safe task_inv (commands_arrive cmds)"
    unfolding commands_arrive_def by (rule safe_modify) (simp add: task_inv_def)
  then show ?case
    using Cons safe_poll_incoming safe_poll_command safe_poll_tick
    by (auto simp: poll_round_def intro!: safe_and_then)
qed simp

end

text \<open>The scripted transport of the tests keeps the contract.\<close>

interpretation fake: transport fake_read fake_write_all
  by unfold_locales
    (auto simp: transport_ok_def fake_read_def fake_write_all_def Let_def split: list.splits)

text \<open>
  Claim C5 (safety). The task never panics: over any transport that keeps its contract, started with a
  driver in any reachable state (max_inflight not 65,535), whatever bytes the transport delivers, in
  whatever portions, whatever commands arrive and whatever the clock reads, no round of the loop
  panics, and the session invariant holds when it stops.
\<close>
theorem task_never_panics:
  assumes "transport_ok read write_all" and "reachable m limit clean d" and "m \<noteq> 0xFFFF"
    and "run_rounds read write_all arrivals (new_task command_rx reg chs d link interval clock) = (r, s)"
  shows "r \<noteq> Panic \<and> state_inv (drv_state (tk_driver s))"
proof -
  have "task_inv (new_task command_rx reg chs d link interval clock)"
    using reachable_inv [OF assms(2,3)] by (simp add: task_inv_def new_task_def)
  with assms(4) have "r \<noteq> Panic \<and> task_inv s"
    using safe_run [OF transport.safe_run_rounds [OF transport.intro [OF assms(1)]]] by blast
  then show ?thesis by (simp add: task_inv_def)
qed

text \<open>A task over the scripted transport, with two clients, numbers 3 and 4, on channels 0 and 1.\<close>

definition demo_task :: "runtime_driver \<Rightarrow> bytes list \<Rightarrow> fake_transport runtime_task" where
  "demo_task d reads =
     new_task \<lparr>cmd_queue = [], cmd_sender_alive = True\<rparr> \<lparr>reg_next_id = 4, reg_event_txs = [(3, 0), (4, 1)]\<rparr>
       (\<lambda>_. \<lparr>ch_events = [], ch_receiver_alive = True\<rparr>) d \<lparr>ft_reads = reads, ft_writes = []\<rparr> 100 (sconst 5)"

abbreviation demo_write :: "(fake_transport, unit) transport_write" where
  "demo_write \<equiv> fake_write_all"

abbreviation demo_read :: "(fake_transport, unit) transport_read" where
  "demo_read \<equiv> fake_read"

theorem task_never_panics_witness:
  "fst (run_rounds demo_read demo_write [[C_Publish 7 (small_publish AtLeastOnce 0) 3], []]
      (demo_task (snd (run_small [(0, D_ConnectionRestored 0)])) [[0x40, 2, 0], [1, 0xF0, 9]])) \<noteq> Panic"
proof -
  let ?as = "[[C_Publish 7 (small_publish AtLeastOnce 0) 3], []]"
  let ?s = "demo_task (snd (run_small [(0, D_ConnectionRestored 0)])) [[0x40, 2, 0], [1, 0xF0, 9]]"
  obtain r s where r: "run_rounds demo_read demo_write ?as ?s = (r, s)"
    by (cases "run_rounds demo_read demo_write ?as ?s")
  then show ?thesis
    using task_never_panics [OF fake.ok small_reachable _ r [unfolded demo_task_def]] by simp
qed

section \<open>Sending\<close>

abbreviation sent_at :: "instant \<Rightarrow> runtime_driver \<Rightarrow> runtime_driver" where
  "sent_at t d \<equiv> d\<lparr>drv_state := (drv_state d)\<lparr>last_outgoing := t\<rparr>\<rparr>"

lemma send_packet_ok:
  assumes "legal_packet p" and "length (wire_body p) \<le> MAX_REMAINING_LEN"
    and "write_all (wire_frame p) (tk_transport s) = (Ok (), t)"
  shows "send_packet write_all p s = (Ok (), s\<lparr>tk_transport := t, tk_clock := stl (tk_clock s),
    tk_driver := sent_at (shd (tk_clock s)) (tk_driver s)\<rparr>)"
proof -
  have "encode_packet p [] = (Ok (), wire_frame p)"
    using encode_packet_legal [OF assms(1), of "[]"] assms(2) by simp
  then show ?thesis
    using assms(3)
    by (simp add: send_packet_def op_defs instant_now_def on_driver_state_def on_state_def
        note_outgoing_activity_def)
qed

text \<open>
  What goes on the wire: sending a packet whose strings fit their length fields
  hands the transport one complete frame, in one write, and that frame decodes to the packet; the
  time of the send is noted for the keep-alive timer.
\<close>
theorem sent_bytes_decode:
  assumes "legal_packet p" and "fits_packet p" and "length (wire_body p) \<le> MAX_REMAINING_LEN"
    and "fst (write_all (wire_frame p) (tk_transport s)) = Ok ()"
  shows "\<exists>s'. send_packet write_all p s = (Ok (), s') \<and>
    tk_transport s' = snd (write_all (wire_frame p) (tk_transport s)) \<and>
    decode_packet (wire_frame p @ later) = Ok p \<and>
    last_outgoing (drv_state (tk_driver s')) = shd (tk_clock s) \<and> tk_channels s' = tk_channels s"
proof -
  obtain t where w: "write_all (wire_frame p) (tk_transport s) = (Ok (), t)"
    using assms(4) by (cases "write_all (wire_frame p) (tk_transport s)") auto
  show ?thesis
    using send_packet_ok [of p write_all s, OF assms(1,3) w] decode_wire_frame [OF assms(1,2,3)] w by simp
qed

lemma demo_task_simps [simp]:
  "tk_command_rx (demo_task d reads) = \<lparr>cmd_queue = [], cmd_sender_alive = True\<rparr>"
  "tk_registry (demo_task d reads) = \<lparr>reg_next_id = 4, reg_event_txs = [(3, 0), (4, 1)]\<rparr>"
  "tk_channels (demo_task d reads) = (\<lambda>_. \<lparr>ch_events = [], ch_receiver_alive = True\<rparr>)"
  "tk_driver (demo_task d reads) = d"
  "tk_transport (demo_task d reads) = \<lparr>ft_reads = reads, ft_writes = []\<rparr>"
  "tk_router (demo_task d reads) = default_router"
  "tk_clock (demo_task d reads) = sconst 5"
  by (simp_all add: demo_task_def new_task_def)

lemma demo_write_ok: "fst (demo_write bytes t) = Ok ()"
  by (simp add: fake_write_all_def)

theorem sent_bytes_decode_witness:
  "\<exists>s'. send_packet demo_write (P_PubAck \<lparr>puback_pkid = 0x1234\<rparr>) (demo_task (new_driver small_state False) []) = (Ok (), s') \<and>
    ft_writes (tk_transport s') = [[0x40, 2, 0x12, 0x34]] \<and> last_outgoing (drv_state (tk_driver s')) = 5"
proof -
  let ?p = "P_PubAck \<lparr>puback_pkid = 0x1234\<rparr>"
  have l: "legal_packet ?p" "fits_packet ?p" "length (wire_body ?p) \<le> MAX_REMAINING_LEN"
    by (simp_all add: MAX_REMAINING_LEN_def)
  have w: "wire_frame ?p = [0x40, 2, 0x12, 0x34]"
    by (simp add: wire_frame_def wire_byte1_def to_be_bytes_def)
  show ?thesis
    using sent_bytes_decode [of ?p demo_write "demo_task (new_driver small_state False) []", OF l demo_write_ok]
    unfolding w by (force simp: fake_write_all_def)
qed

section \<open>Delivering to clients\<close>

definition appended :: "runtime_event \<Rightarrow> event_channel \<Rightarrow> event_channel" where
  "appended e ch = ch\<lparr>ch_events := ch_events ch @ [e]\<rparr>"

lemma appended_simps [simp]:
  "ch_events (appended e ch) = ch_events ch @ [e]"
  "ch_receiver_alive (appended e ch) = ch_receiver_alive ch"
  by (simp_all add: appended_def)

text \<open>A registry as the host builds it: one entry per client, each client its own channel.\<close>

definition registry_inv :: "client_registry \<Rightarrow> bool" where
  "registry_inv reg \<longleftrightarrow> distinct (map fst (reg_event_txs reg)) \<and> distinct (map snd (reg_event_txs reg)) \<and>
     list_all (\<lambda>(c, _). c \<le> reg_next_id reg) (reg_event_txs reg)"

definition channel_of :: "'t runtime_task \<Rightarrow> nat \<Rightarrow> sender option" where
  "channel_of s c = map_of (reg_event_txs (tk_registry s)) c"

lemma channel_of_inj:
  assumes "registry_inv (tk_registry s)" "channel_of s c = Some tx" "channel_of s c' = Some tx"
  shows "c = c'"
proof -
  have "(c, tx) \<in> set (reg_event_txs (tk_registry s))" "(c', tx) \<in> set (reg_event_txs (tk_registry s))"
    using assms(2,3) by (auto simp: channel_of_def dest: map_of_SomeD)
  moreover have "inj_on snd (set (reg_event_txs (tk_registry s)))"
    using assms(1) by (simp add: registry_inv_def distinct_map)
  ultimately have "(c, tx) = (c', tx)" unfolding inj_on_def by (metis snd_conv)
  then show ?thesis by simp
qed

lemma send_event_to_eq:
  "send_event_to c e s =
     (case channel_of s c of
        None \<Rightarrow> (Ok (), s)
      | Some tx \<Rightarrow>
          if ch_receiver_alive (tk_channels s tx)
          then (Ok (), s\<lparr>tk_channels := (tk_channels s)(tx := appended e (tk_channels s tx))\<rparr>)
          else (Err TE_EventChannelClosed, s))"
  by (simp add: send_event_to_def on_channels_def registry_send_to_def channel_of_def send_event_def
      op_defs appended_def split: option.split)

lemma broadcast_loop_spec:
  assumes "distinct (map snd txs)"
  shows "broadcast_loop txs e chs = (Ok (), \<lambda>tx.
    if tx \<in> snd ` set txs \<and> ch_receiver_alive (chs tx) then appended e (chs tx) else chs tx)"
  using assms
proof (induction txs arbitrary: chs)
  case (Cons p txs)
  obtain c tx where p: "p = (c, tx)" by (cases p)
  have "attempt (send_event tx e) chs =
      (if ch_receiver_alive (chs tx) then (Ok (Inr ()), chs(tx := appended e (chs tx))) else (Ok (Inl ()), chs))"
    by (simp add: attempt_def send_event_def op_defs appended_def)
  with Cons p show ?case by (auto simp: fun_eq_iff and_then_def)
qed (simp add: ret_def)

lemma broadcast_event_eq:
  assumes "registry_inv (tk_registry s)"
  shows "broadcast_event e s = (Ok (), s\<lparr>tk_channels := \<lambda>tx.
    if tx \<in> snd ` set (reg_event_txs (tk_registry s)) \<and> ch_receiver_alive (tk_channels s tx)
    then appended e (tk_channels s tx) else tk_channels s tx\<rparr>)"
  using assms broadcast_loop_spec [of "reg_event_txs (tk_registry s)" e "tk_channels s"]
  by (simp add: broadcast_event_def on_channels_def registry_broadcast_def op_defs registry_inv_def)

lemma fanout_loop_spec:
  fixes s :: "'t runtime_task"
  assumes "registry_inv (tk_registry s)" and "distinct ids"
    and "\<forall>c tx. channel_of s c = Some tx \<longrightarrow> ch_receiver_alive (tk_channels s tx)"
  shows "\<exists>chs. (fanout_loop ids p s :: ('io runtime_task_error, unit) outcome \<times> 't runtime_task) = (Ok (), s\<lparr>tk_channels := chs\<rparr>) \<and>
    (\<forall>tx. ch_receiver_alive (chs tx) = ch_receiver_alive (tk_channels s tx)) \<and>
    (\<forall>c tx. channel_of s c = Some tx \<longrightarrow>
       ch_events (chs tx) = ch_events (tk_channels s tx) @ (if c \<in> set ids then [RE_IncomingPublish p] else []))"
  using assms
proof (induction ids arbitrary: s)
  case (Cons i ids)
  let ?e = "RE_IncomingPublish p"
  show ?case
  proof (cases "channel_of s i")
    case None
    from Cons.IH [of s] Cons.prems obtain chs where
      "(fanout_loop ids p s :: ('io runtime_task_error, unit) outcome \<times> 't runtime_task) = (Ok (), s\<lparr>tk_channels := chs\<rparr>)"
      "(\<forall>tx. ch_receiver_alive (chs tx) = ch_receiver_alive (tk_channels s tx))"
      "\<forall>c tx. channel_of s c = Some tx \<longrightarrow>
         ch_events (chs tx) = ch_events (tk_channels s tx) @ (if c \<in> set ids then [?e] else [])" by auto
    with None show ?thesis by (auto simp: send_event_to_eq and_then_def intro!: exI [of _ chs])
  next
    case (Some tx)
    let ?s = "s\<lparr>tk_channels := (tk_channels s)(tx := appended ?e (tk_channels s tx))\<rparr>"
    have ch: "channel_of ?s = channel_of s" by (simp add: channel_of_def fun_eq_iff)
    have s1: "(send_event_to i ?e s :: ('io runtime_task_error, unit) outcome \<times> 't runtime_task) = (Ok (), ?s)"
      using Some Cons.prems(3) by (simp add: send_event_to_eq)
    have "registry_inv (tk_registry ?s)" "distinct ids"
      "\<forall>c tx'. channel_of ?s c = Some tx' \<longrightarrow> ch_receiver_alive (tk_channels ?s tx')"
      using Cons.prems unfolding ch by simp_all
    from Cons.IH [OF this, unfolded ch] obtain chs where
      c: "(fanout_loop ids p ?s :: ('io runtime_task_error, unit) outcome \<times> 't runtime_task) = (Ok (), ?s\<lparr>tk_channels := chs\<rparr>)"
      "\<forall>tx. ch_receiver_alive (chs tx) = ch_receiver_alive (tk_channels ?s tx)"
      "\<forall>c tx'. channel_of s c = Some tx' \<longrightarrow>
         ch_events (chs tx') = ch_events (tk_channels ?s tx') @ (if c \<in> set ids then [?e] else [])"
      by (elim exE conjE)
    have "ch_events (chs tx') = ch_events (tk_channels s tx') @ (if c' \<in> set (i # ids) then [?e] else [])"
      if h: "channel_of s c' = Some tx'" for c' tx'
    proof (cases "c' = i")
      case True
      then show ?thesis using c(3) h Some Cons.prems(2) by simp
    next
      case False
      then have "tx' \<noteq> tx" using channel_of_inj [OF Cons.prems(1) h] Some by auto
      then show ?thesis using c(3) h False by simp
    qed
    with s1 c(1,2) show ?thesis by (intro exI [of _ chs]) simp
  qed
next
  case Nil
  show ?case by (intro exI [of _ "tk_channels s"]) (simp add: ret_def)
qed

lemma fanout_publish_spec:
  fixes s :: "'t runtime_task"
  assumes "registry_inv (tk_registry s)"
    and "\<forall>c tx. channel_of s c = Some tx \<longrightarrow> ch_receiver_alive (tk_channels s tx)"
  shows "\<exists>chs. (fanout_publish p s :: ('io runtime_task_error, unit) outcome \<times> 't runtime_task) = (Ok (), s\<lparr>tk_channels := chs\<rparr>) \<and>
    (\<forall>tx. ch_receiver_alive (chs tx) = ch_receiver_alive (tk_channels s tx)) \<and>
    (\<forall>c tx. channel_of s c = Some tx \<longrightarrow>
       ch_events (chs tx) = ch_events (tk_channels s tx) @
         (if \<exists>f. (f, c) \<in> entry_subs (entries (tk_router s)) \<and>
             filter_matches (split_on slash f) (split_on slash (pub_topic p))
          then [RE_IncomingPublish p] else []))"
proof -
  from matching_loop_spec [of "[]" "entries (tk_router s)" "pub_topic p"] obtain ids where
    i: "matching_clients (pub_topic p) (tk_router s) = Ok ids" "distinct ids"
      "set ids = {c. \<exists>f. (f, c) \<in> entry_subs (entries (tk_router s)) \<and> routes f (pub_topic p)}"
    by (auto simp: matching_clients_def)
  from fanout_loop_spec [OF assms(1) i(2) assms(2), of p, where ?'io = 'io] i show ?thesis
    by (simp add: fanout_publish_def total_def and_then_def get_def lift_def)
qed

text \<open>
  Claim C21 (functional). An incoming publish reaches exactly the subscribers: while the receivers are
  alive, fan-out appends the message once to the channel of every client that has a subscription
  matching the topic, whatever the number of its matching filters, and to no other client's channel.
\<close>
theorem fanout_reaches_subscribers:
  fixes s :: "'t runtime_task"
  assumes "registry_inv (tk_registry s)"
    and "\<forall>c tx. channel_of s c = Some tx \<longrightarrow> ch_receiver_alive (tk_channels s tx)"
  shows "\<exists>chs. (fanout_publish p s :: ('io runtime_task_error, unit) outcome \<times> 't runtime_task) = (Ok (), s\<lparr>tk_channels := chs\<rparr>) \<and>
    (\<forall>tx. ch_receiver_alive (chs tx) = ch_receiver_alive (tk_channels s tx)) \<and>
    (\<forall>c tx. channel_of s c = Some tx \<longrightarrow>
       ch_events (chs tx) = ch_events (tk_channels s tx) @
         (if \<exists>f. (f, c) \<in> entry_subs (entries (tk_router s)) \<and>
             filter_matches (split_on slash f) (split_on slash (pub_topic p))
          then [RE_IncomingPublish p] else []))"
  by (rule fanout_publish_spec [OF assms])

theorem fanout_reaches_subscribers_witness:
  "\<exists>chs. (fanout_publish (small_publish AtMostOnce 0)
        ((demo_task (new_driver small_state False) [])\<lparr>tk_router :=
          add_subscription 3 (ascii ''#'') (add_subscription 3 (ascii ''t'') default_router)\<rparr>)
      :: (unit runtime_task_error, unit) outcome \<times> fake_transport runtime_task) =
    (Ok (), (demo_task (new_driver small_state False) [])\<lparr>tk_router :=
          add_subscription 3 (ascii ''#'') (add_subscription 3 (ascii ''t'') default_router), tk_channels := chs\<rparr>) \<and>
    ch_events (chs 0) = [RE_IncomingPublish (small_publish AtMostOnce 0)] \<and> ch_events (chs 1) = []"
proof -
  let ?r = "add_subscription 3 (ascii ''#'') (add_subscription 3 (ascii ''t'') default_router)"
  let ?s = "(demo_task (new_driver small_state False) [])\<lparr>tk_router := ?r\<rparr>"
  have c: "channel_of ?s 3 = Some 0" "channel_of ?s 4 = Some 1" by (simp_all add: channel_of_def)
  have r: "registry_inv (tk_registry ?s)" "\<forall>c tx. channel_of ?s c = Some tx \<longrightarrow> ch_receiver_alive (tk_channels ?s tx)"
    by (simp_all add: registry_inv_def)
  have e: "entry_subs (entries ?r) = {(ascii ''#'', 3), (ascii ''t'', 3)}"
    by (auto simp: add_subscription_def add_entry_subs default_router_def entry_subs_def)
  have m: "filter_matches (split_on slash (ascii ''#'')) (split_on slash (pub_topic (small_publish AtMostOnce 0)))"
    by (simp add: ascii_def slash_def hash_def filter_matches_rec small_publish_def)
  from fanout_reaches_subscribers [OF r, of "small_publish AtMostOnce 0", where ?'io = unit]
  obtain chs where f: "(fanout_publish (small_publish AtMostOnce 0) ?s
      :: (unit runtime_task_error, unit) outcome \<times> fake_transport runtime_task) = (Ok (), ?s\<lparr>tk_channels := chs\<rparr>)"
    and ch: "\<forall>c tx. channel_of ?s c = Some tx \<longrightarrow> ch_events (chs tx) = ch_events (tk_channels ?s tx) @
      (if \<exists>f. (f, c) \<in> entry_subs (entries (tk_router ?s)) \<and>
         filter_matches (split_on slash f) (split_on slash (pub_topic (small_publish AtMostOnce 0)))
       then [RE_IncomingPublish (small_publish AtMostOnce 0)] else [])"
    by (elim exE conjE)
  have "ch_events (chs 0) = [RE_IncomingPublish (small_publish AtMostOnce 0)]" "ch_events (chs 1) = []"
    using ch [rule_format, OF c(1)] ch [rule_format, OF c(2)] e m by auto
  then show ?thesis using f by (intro exI [of _ chs]) simp
qed

section \<open>Reconnecting\<close>

definition audience :: "'t runtime_task \<Rightarrow> channels \<times> client_registry" where
  "audience s = (tk_channels s, tk_registry s)"

lemma keeps_map_err_op [keeps_intros]: "keeps f m \<Longrightarrow> keeps f (map_err_op g m)"
  by (auto simp: keeps_def map_err_op_def split: prod.split) (metis snd_conv)

lemma keeps_audience_field [keeps_intros]:
  "keeps audience (on_field tk_driver (\<lambda>d self. self\<lparr>tk_driver := d\<rparr>) m)"
  "keeps audience (on_field tk_transport (\<lambda>d self. self\<lparr>tk_transport := d\<rparr>) m')"
  by (auto simp: keeps_def on_field_def audience_def split: prod.split)

lemma keeps_audience [keeps_intros]:
  "keeps audience instant_now" "keeps audience (drive e)" "keeps audience (on_driver_state m)"
  "keeps audience (with_local t m')"
  unfolding instant_now_def drive_def on_driver_state_def
  by (auto intro!: keeps_intros keeps_modify simp: audience_def)
    (auto simp: keeps_def with_local_def audience_def split: prod.split outcome.split)

lemma keeps_audience_send [keeps_intros]: "keeps audience (send_packet w p)"
  unfolding send_packet_def by (intro keeps_intros)

lemma keeps_audience_sends: "list_all is_send as \<Longrightarrow> keeps audience (handle_actions w as)"
proof (induction as)
  case (Cons a as)
  then show ?case by (cases a) (auto simp: handle_actions_eqs intro!: keeps_intros)
qed (simp add: handle_actions_eqs keeps_basic)

lemma keepsD: "keeps f m \<Longrightarrow> m s = (r, s') \<Longrightarrow> f s' = f s"
  unfolding keeps_def by (metis snd_conv)

text \<open>
  Claim C32 (functional). Every client learns of a reconnect, in order: when the task has handled the
  driver's request to reconnect, each registered client whose receiver is alive has got Disconnected
  and then Reconnected, once each, after what it had before, and no other channel has changed.
\<close>
theorem reconnect_is_announced:
  fixes s :: "'t runtime_task" and write_all :: "('t, 'io) transport_write"
  assumes "registry_inv (tk_registry s)"
    and "handle_actions write_all [A_TriggerReconnect] s = (Ok (), s')"
  shows "tk_channels s' tx =
    (if tx \<in> snd ` set (reg_event_txs (tk_registry s)) \<and> ch_receiver_alive (tk_channels s tx)
     then appended RE_Reconnected (appended RE_Disconnected (tk_channels s tx)) else tk_channels s tx)"
proof -
  let ?chs = "\<lambda>e chs tx. if tx \<in> snd ` set (reg_event_txs (tk_registry s)) \<and> ch_receiver_alive (chs tx)
    then appended e (chs tx) else chs tx"
  let ?s1 = "s\<lparr>tk_channels := ?chs RE_Disconnected (tk_channels s)\<rparr>"
  have 1: "(broadcast_event RE_Disconnected s :: ('io runtime_task_error, unit) outcome \<times> 't runtime_task) = (Ok (), ?s1)" by (rule broadcast_event_eq [OF assms(1)])
  from assms(2) 1 obtain acts s2 s3 where
    2: "(begin_reconnect ?s1 :: ('io runtime_task_error, driver_action list) outcome \<times> 't runtime_task) = (Ok acts, s2)" and 3: "handle_actions write_all acts s2 = (Ok (), s3)"
    and 4: "(broadcast_event RE_Reconnected s3 :: ('io runtime_task_error, unit) outcome \<times> 't runtime_task) = (Ok (), s')"
    by (auto simp: handle_actions_reconnect handle_actions_eqs reconnect_def and_then_Ok_iff ret_Ok_iff)
  have "keeps audience begin_reconnect" unfolding begin_reconnect_def by (intro keeps_intros)
  then have "audience s2 = audience ?s1" by (rule keepsD) (rule 2)
  moreover have "audience s3 = audience s2"
    by (rule keepsD [OF keeps_audience_sends [OF begin_reconnect_sends [OF 2]] 3])
  ultimately have a: "tk_channels s3 = tk_channels ?s1" "tk_registry s3 = tk_registry s"
    by (simp_all add: audience_def)
  have "(broadcast_event RE_Reconnected s3 :: ('io runtime_task_error, unit) outcome \<times> 't runtime_task) =
      (Ok (), s3\<lparr>tk_channels := ?chs RE_Reconnected (tk_channels s3)\<rparr>)"
    using broadcast_event_eq [of s3 RE_Reconnected] assms(1) unfolding a(2) by simp
  then have "tk_channels s' = ?chs RE_Reconnected (tk_channels s3)" using 4 by simp
  then show ?thesis unfolding a(1) by simp
qed

theorem reconnect_is_announced_witness:
  "\<exists>s'. handle_actions demo_write [A_TriggerReconnect] (demo_task (new_driver small_state False) []) = (Ok (), s') \<and>
    ch_events (tk_channels s' 0) = [RE_Disconnected, RE_Reconnected] \<and>
    ch_events (tk_channels s' 1) = [RE_Disconnected, RE_Reconnected]"
proof -
  let ?s = "demo_task (new_driver small_state False) []"
  have r: "registry_inv (tk_registry ?s)" by (simp add: registry_inv_def)
  obtain x s' where h: "handle_actions demo_write [A_TriggerReconnect] ?s = (x, s')"
    by (cases "handle_actions demo_write [A_TriggerReconnect] ?s")
  have "fst (handle_actions demo_write [A_TriggerReconnect] ?s) = Ok ()"
    using r by (simp add: handle_actions_reconnect handle_actions_eqs reconnect_def begin_reconnect_def
        drive_def instant_now_def broadcast_event_eq registry_inv_def small_eval)
  with h have h: "handle_actions demo_write [A_TriggerReconnect] ?s = (Ok (), s')" by simp
  show ?thesis
    using reconnect_is_announced [OF r h, of 0] reconnect_is_announced [OF r h, of 1] h by simp
qed

section \<open>Incoming QoS 2 publishes\<close>

lemma on_driver_state_run:
  "m (drv_state (tk_driver s)) = (r, st) \<Longrightarrow>
     on_driver_state m s = (map_err TE_Runtime r, s\<lparr>tk_driver := (tk_driver s)\<lparr>drv_state := st\<rparr>\<rparr>)"
  by (simp add: on_driver_state_def on_state_def map_err_op_def on_field_def)

lemma keeps_driver_fanout: "keeps tk_driver (fanout_publish p)"
proof -
  have c: "keeps tk_driver (on_channels m)" for m
    by (auto simp: keeps_def on_channels_def map_err_op_def on_field_def split: prod.split)
  have "keeps tk_driver (fanout_loop ids p)" for ids
    by (induction ids) (auto simp: send_event_to_def intro!: keeps_intros c)
  then show ?thesis unfolding fanout_publish_def by (intro keeps_intros)
qed

abbreviation pubrec_frame :: "u16 \<Rightarrow> bytes" where
  "pubrec_frame k \<equiv> wire_frame (P_PubRec \<lparr>pubrec_pkid = k\<rparr>)"

lemma send_pubrec:
  assumes "k \<noteq> 0" and "fst (write_all (pubrec_frame k) (tk_transport s)) = Ok ()"
  shows "send_packet write_all (P_PubRec \<lparr>pubrec_pkid = k\<rparr>) s =
    (Ok (), s\<lparr>tk_transport := snd (write_all (pubrec_frame k) (tk_transport s)), tk_clock := stl (tk_clock s),
      tk_driver := sent_at (shd (tk_clock s)) (tk_driver s)\<rparr>)"
proof (rule send_packet_ok)
  show "legal_packet (P_PubRec \<lparr>pubrec_pkid = k\<rparr>)" using assms(1) by simp
  show "length (wire_body (P_PubRec \<lparr>pubrec_pkid = k\<rparr>)) \<le> MAX_REMAINING_LEN"
    by (simp add: MAX_REMAINING_LEN_def)
  show "write_all (pubrec_frame k) (tk_transport s) = (Ok (), snd (write_all (pubrec_frame k) (tk_transport s)))"
    using assms(2) by (metis prod.collapse)
qed

text \<open>The state of the driver after the first steps of an incoming QoS 2 publish.\<close>

lemma incoming_qos2_step:
  fixes s :: "'t runtime_task" and write_all :: "('t, 'io) transport_write" and now :: instant
  assumes "state_inv (drv_state (tk_driver s))" and "pub_qos p = ExactlyOnce" and "pub_pkid p = k"
    and "fst (write_all (pubrec_frame k) (tk_transport s)) = Ok ()"
  defines "st \<equiv> (drv_state (tk_driver s))\<lparr>last_incoming := now\<rparr>"
  shows "handle_incoming_publish write_all p now s =
    (if \<not> known_id k (inflight st)
     then (Err (TE_Runtime (PacketIdOutOfRange k)), s\<lparr>tk_driver := (tk_driver s)\<lparr>drv_state := st\<rparr>\<rparr>)
     else
       let st' = set_inflight st (set_seen k True (inflight st));
           s' = s\<lparr>tk_transport := snd (write_all (pubrec_frame k) (tk_transport s)), tk_clock := stl (tk_clock s),
             tk_driver := sent_at (shd (tk_clock s)) ((tk_driver s)\<lparr>drv_state := st'\<rparr>)\<rparr>
       in if k \<in> seen_ids st then (Ok (), s') else fanout_publish p s')"
proof -
  have inv: "state_inv st" using assms(1) by (simp add: st_def)
  let ?s1 = "s\<lparr>tk_driver := (tk_driver s)\<lparr>drv_state := st\<rparr>\<rparr>"
  have n: "(on_driver_state (note_incoming_activity now) s :: ('io runtime_task_error, unit) outcome \<times> 't runtime_task) = (Ok (), ?s1)"
    using on_driver_state_run [of "note_incoming_activity now" s] by (simp add: note_simps st_def)
  note q = on_incoming_qos2_eq [OF inv, of k]
  show ?thesis
  proof (cases "known_id k (inflight st)")
    case False
    have "(on_driver_state (on_incoming_qos2_publish_checked k) ?s1 :: ('io runtime_task_error, incoming_qos2_result) outcome \<times> 't runtime_task) = (Err (TE_Runtime (PacketIdOutOfRange k)), ?s1)"
      using on_driver_state_run [of "on_incoming_qos2_publish_checked k" ?s1] q False by simp
    then show ?thesis using assms(2,3) n False by (simp add: handle_incoming_publish_def and_then_def)
  next
    case True
    then have k: "k \<noteq> 0" by (simp add: known_id_def)
    have seen: "k \<in> seen_ids st \<longleftrightarrow> incoming_pub (inflight st) ! unat k"
      using True by (simp add: seen_ids_def)
    let ?st = "set_inflight st (set_seen k True (inflight st))"
    have same: "?st = st" if "k \<in> seen_ids st"
      using that True store_lengths(2) [OF inv] unfolding seen
      by (simp add: set_seen_def known_id_def list_update_same_conv)
    have "(on_driver_state (on_incoming_qos2_publish_checked k) ?s1 :: ('io runtime_task_error, incoming_qos2_result) outcome \<times> 't runtime_task) =
        (Ok (if k \<in> seen_ids st then Duplicate (P_PubRec \<lparr>pubrec_pkid = k\<rparr>) else FirstSeen (P_PubRec \<lparr>pubrec_pkid = k\<rparr>)),
         s\<lparr>tk_driver := (tk_driver s)\<lparr>drv_state := ?st\<rparr>\<rparr>)"
    proof -
      have "on_incoming_qos2_publish_checked k (drv_state (tk_driver ?s1)) =
        (Ok (if k \<in> seen_ids st then Duplicate (P_PubRec \<lparr>pubrec_pkid = k\<rparr>)
             else FirstSeen (P_PubRec \<lparr>pubrec_pkid = k\<rparr>)), ?st)"
        using q True same unfolding seen by simp
      from on_driver_state_run [of "on_incoming_qos2_publish_checked k" ?s1, OF this] show ?thesis by simp
    qed
    then show ?thesis
      using assms(2,3) n True
        send_pubrec [OF k, of write_all "s\<lparr>tk_driver := (tk_driver s)\<lparr>drv_state := ?st\<rparr>\<rparr>"] assms(4)
      by (simp add: handle_incoming_publish_def and_then_def Let_def)
  qed
qed

text \<open>Publishes taken in one after the other, each with the reading of the clock.\<close>

primrec receive_publishes ::
  "('t, 'io) transport_write \<Rightarrow> (publish \<times> instant) list \<Rightarrow> ('t, 'io, unit) task_op" where
  "receive_publishes write_all [] = ret ()"
| "receive_publishes write_all (x # xs) =
     and_then (handle_incoming_publish write_all (fst x) (snd x)) (\<lambda>_. receive_publishes write_all xs)"

lemma repeated_publish:
  fixes s :: "'t runtime_task" and write_all :: "('t, 'io) transport_write"
  assumes "state_inv (drv_state (tk_driver s))" and "k \<in> seen_ids (drv_state (tk_driver s))"
    and "pub_qos p = ExactlyOnce" and "pub_pkid p = k"
    and "fst (write_all (pubrec_frame k) (tk_transport s)) = Ok ()"
  obtains s' where "handle_incoming_publish write_all p now s = (Ok (), s')"
    and "tk_channels s' = tk_channels s" and "state_inv (drv_state (tk_driver s'))"
    and "k \<in> seen_ids (drv_state (tk_driver s'))"
    and "tk_transport s' = snd (write_all (pubrec_frame k) (tk_transport s))"
proof -
  let ?st = "(drv_state (tk_driver s))\<lparr>last_incoming := now\<rparr>"
  have i: "state_inv ?st" and kn: "known_id k (inflight ?st)" using assms(1,2) by (simp_all add: seen_ids_def)
  let ?s' = "s\<lparr>tk_transport := snd (write_all (pubrec_frame k) (tk_transport s)), tk_clock := stl (tk_clock s),
    tk_driver := sent_at (shd (tk_clock s))
      ((tk_driver s)\<lparr>drv_state := set_inflight ?st (set_seen k True (inflight ?st))\<rparr>)\<rparr>"
  show thesis
    by (rule that [of ?s'])
      (use incoming_qos2_step [where write_all = write_all and now = now, OF assms(1,3,4,5)] assms(2) kn
        seen_ids_set_seen [OF i kn, of True] state_inv_flags(2) [OF i, of k True] in \<open>simp_all add: Let_def\<close>)
qed

lemma repeated_publishes:
  fixes s :: "'t runtime_task" and write_all :: "('t, 'io) transport_write"
  assumes "state_inv (drv_state (tk_driver s))" and "k \<in> seen_ids (drv_state (tk_driver s))"
    and "\<forall>t. fst (write_all (pubrec_frame k) t) = Ok ()"
    and "\<forall>(p, now) \<in> set reps. pub_qos p = ExactlyOnce \<and> pub_pkid p = k"
  shows "\<exists>s'. receive_publishes write_all reps s = (Ok (), s') \<and> tk_channels s' = tk_channels s \<and>
    tk_transport s' = ((\<lambda>t. snd (write_all (pubrec_frame k) t)) ^^ length reps) (tk_transport s) \<and>
    k \<in> seen_ids (drv_state (tk_driver s'))"
  using assms(1,2,4)
proof (induction reps arbitrary: s)
  case (Cons x reps)
  obtain p now where x: "x = (p, now)" "pub_qos p = ExactlyOnce" "pub_pkid p = k"
    using Cons.prems(3) by (cases x) auto
  obtain s1 where 1: "handle_incoming_publish write_all p now s = (Ok (), s1)"
    "tk_channels s1 = tk_channels s" "state_inv (drv_state (tk_driver s1))"
    "k \<in> seen_ids (drv_state (tk_driver s1))"
    "tk_transport s1 = snd (write_all (pubrec_frame k) (tk_transport s))"
    using repeated_publish [OF Cons.prems(1,2) x(2,3), of write_all now] assms(3) by metis
  from Cons.IH [OF 1(3,4)] Cons.prems(3) obtain s2 where
    "receive_publishes write_all reps s1 = (Ok (), s2)" "tk_channels s2 = tk_channels s1"
    "tk_transport s2 = ((\<lambda>t. snd (write_all (pubrec_frame k) t)) ^^ length reps) (tk_transport s1)"
    "k \<in> seen_ids (drv_state (tk_driver s2))" by auto
  moreover have "(f ^^ n) (f t) = f ((f ^^ n) t)" for f :: "'t \<Rightarrow> 't" and n t by (rule funpow_swap1 [symmetric])
  ultimately show ?case using 1 x by (intro exI [of _ s2]) (simp add: and_then_def)
qed (simp add: ret_def)

lemma publish_recorded:
  fixes s :: "'t runtime_task" and write_all :: "('t, 'io) transport_write"
  assumes "state_inv (drv_state (tk_driver s))" and "pub_qos p = ExactlyOnce" and "pub_pkid p = k"
    and "fst (write_all (pubrec_frame k) (tk_transport s)) = Ok ()"
    and "handle_incoming_publish write_all p now s = (Ok (), s1)"
  shows "state_inv (drv_state (tk_driver s1)) \<and> k \<in> seen_ids (drv_state (tk_driver s1))"
proof -
  let ?st = "(drv_state (tk_driver s))\<lparr>last_incoming := now\<rparr>"
  let ?dr = "sent_at (shd (tk_clock s)) ((tk_driver s)\<lparr>drv_state := set_inflight ?st (set_seen k True (inflight ?st))\<rparr>)"
  note step = incoming_qos2_step [where write_all = write_all and now = now, OF assms(1-4)]
  have inv: "state_inv ?st" using assms(1) by simp
  have kn: "known_id k (inflight ?st)" using assms(5) step by (auto split: if_splits)
  have d: "tk_driver s1 = ?dr"
  proof (cases "k \<in> seen_ids ?st")
    case True
    then show ?thesis using assms(5) step kn by (auto simp: Let_def)
  next
    case False
    let ?s = "s\<lparr>tk_transport := snd (write_all (pubrec_frame k) (tk_transport s)), tk_clock := stl (tk_clock s),
      tk_driver := ?dr\<rparr>"
    have "(fanout_publish p ?s :: ('io runtime_task_error, unit) outcome \<times> 't runtime_task) = (Ok (), s1)"
      using assms(5) step kn False by (simp add: Let_def)
    from keepsD [OF keeps_driver_fanout this] show ?thesis by simp
  qed
  show ?thesis
    unfolding d using state_inv_flags(2) [OF inv, of k True] seen_ids_set_seen [OF inv kn, of True] by simp
qed

text \<open>
  Claim C13 (safety). Exactly-once delivery: once a task with the session invariant has taken in a QoS 2 publish, no repetition of
  it is delivered to anybody, however many come.  A repetition is any QoS 2 publish with the same packet
  id, whatever its DUP flag, topic and payload.  Over a transport that takes the PUBREC, each repetition
  is answered with exactly one PUBREC, and the id stays recorded.
\<close>
theorem qos2_repetition_not_delivered:
  fixes s :: "'t runtime_task" and write_all :: "('t, 'io) transport_write"
  assumes "state_inv (drv_state (tk_driver s))" and "pub_qos p = ExactlyOnce" and "pub_pkid p = k"
    and "\<forall>t. fst (write_all (pubrec_frame k) t) = Ok ()"
    and "handle_incoming_publish write_all p now s = (Ok (), s1)"
    and "\<forall>(p', now') \<in> set reps. pub_qos p' = ExactlyOnce \<and> pub_pkid p' = k"
  shows "\<exists>s2. receive_publishes write_all reps s1 = (Ok (), s2) \<and> tk_channels s2 = tk_channels s1 \<and>
    tk_transport s2 = ((\<lambda>t. snd (write_all (pubrec_frame k) t)) ^^ length reps) (tk_transport s1) \<and>
    k \<in> seen_ids (drv_state (tk_driver s1)) \<and> k \<in> seen_ids (drv_state (tk_driver s2))"
proof -
  have "state_inv (drv_state (tk_driver s1))" "k \<in> seen_ids (drv_state (tk_driver s1))"
    using publish_recorded [OF assms(1-3) _ assms(5)] assms(4) by simp_all
  from repeated_publishes [where write_all = write_all, OF this assms(4,6)] this(2) show ?thesis by blast
qed

theorem qos2_repetition_not_delivered_witness:
  "\<exists>s1 s2. handle_incoming_publish demo_write (small_publish ExactlyOnce 2) 5
        (demo_task (snd (run_small [(0, D_ConnectionRestored 0)])) []) = (Ok (), s1) \<and>
    receive_publishes demo_write [((small_publish ExactlyOnce 2)\<lparr>pub_dup := True\<rparr>, 6),
      ((small_publish ExactlyOnce 2)\<lparr>pub_dup := True, pub_payload := [9]\<rparr>, 7)] s1 = (Ok (), s2) \<and>
    tk_channels s2 = tk_channels s1 \<and> 2 \<in> seen_ids (drv_state (tk_driver s2))"
proof -
  let ?p = "small_publish ExactlyOnce 2" and ?s = "demo_task (snd (run_small [(0, D_ConnectionRestored 0)])) []"
  have i: "state_inv (drv_state (tk_driver ?s))" using small_inv by simp
  have q: "pub_qos ?p = ExactlyOnce" "pub_pkid ?p = 2" by (simp_all add: small_publish_def)
  have w: "\<forall>t. fst (demo_write (pubrec_frame 2) t) = Ok ()" by (simp add: fake_write_all_def)
  let ?r = "handle_incoming_publish demo_write ?p 5 ?s"
  have "known_id 2 (inflight (drv_state (tk_driver ?s)))" "2 \<notin> seen_ids (drv_state (tk_driver ?s))"
    by (simp_all add: small_eval known_id_def seen_ids_def)
  moreover have "fst (fanout_publish ?p t :: (unit runtime_task_error, unit) outcome \<times> fake_transport runtime_task) = Ok ()"
    if "tk_router t = default_router" for t
    using that by (simp add: fanout_publish_def matching_clients_def default_router_def total_def op_defs)
  ultimately have "fst ?r = Ok ()"
    using incoming_qos2_step [OF i q, of demo_write 5] w by (simp add: Let_def seen_ids_def)
  then obtain s1 where h: "?r = (Ok (), s1)" by (cases ?r) simp
  have r: "\<forall>(p', now') \<in> set [(?p\<lparr>pub_dup := True\<rparr>, 6), (?p\<lparr>pub_dup := True, pub_payload := [9]\<rparr>, 7)].
      pub_qos p' = ExactlyOnce \<and> pub_pkid p' = 2" using q by simp
  from qos2_repetition_not_delivered [OF i q w h r] h show ?thesis by blast
qed

section \<open>Subscriptions\<close>

lemma add_routes_subs:
  "entry_subs (entries (add_routes c fs r)) = (\<lambda>f. (filter_path f, c)) ` set fs \<union> entry_subs (entries r)"
  by (induction fs arbitrary: r) (auto simp: add_subscription_def add_entry_subs)

text \<open>
  A SUBACK installs the routes: when the packet id is that of a subscription in
  flight, handling the driver's actions adds exactly the filters of that subscription, for the client
  that asked, and tells that client alone, whatever the return codes say.
\<close>
theorem suback_installs_routes:
  fixes s :: "'t runtime_task" and write_all :: "('t, 'io) transport_write"
  assumes "state_inv (drv_state (tk_driver s))"
    and "slot_of (inflight (drv_state (tk_driver s))) (suback_pkid a) = Some op"
    and "op_command op = C_Subscribe t sub c"
    and "channel_of s c = Some tx" and "ch_receiver_alive (tk_channels s tx)"
  shows "\<exists>s'. and_then (drive (D_Incoming (P_SubAck a) now)) (handle_actions write_all) s = (Ok (), s') \<and>
    entry_subs (entries (tk_router s')) =
      (\<lambda>f. (filter_path f, c)) ` set (sub_filters sub) \<union> entry_subs (entries (tk_router s)) \<and>
    tk_channels s' = (tk_channels s)(tx :=
      appended (RE_Completion (Done_SubAck t (suback_pkid a))) (tk_channels s tx))"
proof -
  let ?k = "suback_pkid a" and ?st = "(drv_state (tk_driver s))\<lparr>last_incoming := now\<rparr>"
  have inv: "state_inv ?st" and sl: "slot_of (inflight ?st) ?k = Some op" using assms(1,2) by simp_all
  let ?d = "(tk_driver s)\<lparr>drv_state := set_inflight ?st (released ?k (inflight ?st))\<rparr>"
  let ?s = "s\<lparr>tk_clock := stl (tk_clock s), tk_driver := ?d\<rparr>"
  have "(drive (D_Incoming (P_SubAck a) now) s :: ('io runtime_task_error, driver_action list) outcome \<times> 't runtime_task) =
      (Ok [A_SubscribeAckFor c (sub_filters sub) (Done_SubAck t ?k)], ?s)"
    using on_suback_eq [OF inv, of ?k] sl assms(3)
    by (simp add: drive_def instant_now_def op_defs incoming_eq handle_incoming_def note_incoming_activity_def)
  moreover have ch: "channel_of (?s\<lparr>tk_router := r\<rparr>) c = Some tx" for r
    using assms(4) by (simp add: channel_of_def)
  ultimately show ?thesis
    using assms(5)
    by (simp add: and_then_def modify_def send_completion_to_def send_event_to_eq ret_def add_routes_subs)
qed

theorem suback_installs_routes_witness:
  "\<exists>s'. and_then (drive (D_Incoming (P_SubAck \<lparr>suback_pkid = 1, suback_return_codes = [0x80]\<rparr>) 5)) (handle_actions demo_write)
      (demo_task (snd (run_small [(0, D_ConnectionRestored 0),
         (1, D_Command (C_Subscribe 7 \<lparr>sub_pkid = 0, sub_filters = [\<lparr>filter_path = ascii ''t'', filter_qos = AtMostOnce\<rparr>]\<rparr> 3))])) [])
      = (Ok (), s') \<and>
    entry_subs (entries (tk_router s')) = {(ascii ''t'', 3)} \<and>
    ch_events (tk_channels s' 0) = [RE_Completion (Done_SubAck 7 1)]"
proof -
  let ?sub = "\<lambda>k. \<lparr>sub_pkid = k, sub_filters = [\<lparr>filter_path = ascii ''t'', filter_qos = AtMostOnce\<rparr>]\<rparr>"
  let ?es = "[(0, D_ConnectionRestored 0), (1, D_Command (C_Subscribe 7 (?sub 0) 3))]"
  let ?s = "demo_task (snd (run_small ?es)) []" and ?a = "\<lparr>suback_pkid = 1, suback_return_codes = [0x80]\<rparr>"
  have i: "state_inv (drv_state (tk_driver ?s))" using small_inv by simp
  have "\<exists>op. slot_of (inflight (drv_state (tk_driver ?s))) 1 = Some op \<and> op_command op = C_Subscribe 7 (?sub 1) 3"
    by (simp add: small_eval)
  then obtain op where o: "slot_of (inflight (drv_state (tk_driver ?s))) (suback_pkid ?a) = Some op"
    "op_command op = C_Subscribe 7 (?sub 1) 3" by auto
  have c: "channel_of ?s 3 = Some 0" "ch_receiver_alive (tk_channels ?s 0)" by (simp_all add: channel_of_def)
  from suback_installs_routes [OF i o c, of 5 demo_write] show ?thesis
    by (auto simp: default_router_def)
qed

end
