(* ===== verification/Session_Spec.thy ===== *)
theory Session_Spec
  imports Runtime_Driver
begin

text \<open>
  The abstract session: what RuntimeDriver and RuntimeState (src/runtime/driver.rs, state.rs,
  inflight.rs, pkid.rs) promise, said without their data structures.  Operations in flight are a map
  from packet ids, handshakes are sets of packet ids, the id generator is the id it gives next; there
  is no counter, no vector, no index and no Panic.
\<close>

section \<open>State\<close>

record session =
  se_online :: bool
  se_limit :: u16
  se_next_id :: u16
  se_held :: "u16 \<Rightarrow> outgoing_op option"
  se_waiting :: "(u16 \<times> outgoing_op) option"
  se_queue :: "outgoing_op list"
  se_released :: "u16 set"
  se_open :: "u16 set"
  se_interval :: duration
  se_pinging :: bool
  se_last_in :: instant
  se_last_out :: instant

type_synonym 'a session_op = "(session, runtime_error, 'a) op"

definition start_session :: "u16 \<Rightarrow> duration \<Rightarrow> instant \<Rightarrow> instant \<Rightarrow> session" where
  "start_session m interval t1 t2 =
     \<lparr>se_online = False, se_limit = m, se_next_id = 1, se_held = (\<lambda>_. None), se_waiting = None,
      se_queue = [], se_released = {}, se_open = {}, se_interval = interval, se_pinging = False,
      se_last_in = t1, se_last_out = t2\<rparr>"

text \<open>The packet ids of a session are 1 to its limit.\<close>

definition in_range :: "session \<Rightarrow> u16 \<Rightarrow> bool" where
  "in_range s k \<longleftrightarrow> 1 \<le> k \<and> k \<le> se_limit s"

definition window_full :: "session \<Rightarrow> bool" where
  "window_full s \<longleftrightarrow> unat (se_limit s) \<le> card (dom (se_held s))"

text \<open>The operations in flight, in the order of their ids.\<close>

definition held_in_order :: "session \<Rightarrow> outgoing_op list" where
  "held_in_order s = List.map_filter (\<lambda>i. se_held s (word_of_nat i)) [0 ..< unat (se_limit s) + 1]"

section \<open>Taking on operations\<close>

definition take_id :: "bool \<Rightarrow> u16 \<Rightarrow> u16 session_op" where
  "take_id needed k s =
     (if needed \<and> k = 0
      then (Ok (se_next_id s), s\<lparr>se_next_id := (if se_next_id s < se_limit s then se_next_id s + 1 else 1)\<rparr>)
      else (Ok k, s))"

text \<open>
  An operation is placed under its id when the window has room and the id is free.  When the id is
  taken it waits for it, in the place of one that waited before; when there is no room it goes back to
  the queue, unless an operation waits: then it is dropped.
\<close>

definition place :: "u16 \<Rightarrow> outgoing_op \<Rightarrow> bool session_op" where
  "place k op s =
     (if window_full s \<or> se_limit s < k then
        (Ok False, if se_waiting s = None then s\<lparr>se_queue := se_queue s @ [op]\<rparr> else s)
      else if se_held s k \<noteq> None then (Ok False, s\<lparr>se_waiting := Some (k, op)\<rparr>)
      else (Ok True, s\<lparr>se_held := (se_held s)(k \<mapsto> op)\<rparr>))"

definition accept :: "bool \<Rightarrow> u16 \<Rightarrow> (u16 \<Rightarrow> outgoing_op) \<Rightarrow> packet option session_op" where
  "accept tracked k0 mk =
     and_then (take_id tracked k0) (\<lambda>k s.
     if \<not> se_online s then (Ok None, s\<lparr>se_queue := se_queue s @ [mk k]\<rparr>)
     else if tracked then
       and_then (place k (mk k)) (\<lambda>placed. ret (if placed then Some (op_packet (mk k)) else None)) s
     else (Ok (Some (op_packet (mk k))), s))"

definition send_now :: "instant \<Rightarrow> packet option \<Rightarrow> driver_action list session_op" where
  "send_now now pkt s =
     (case pkt of None \<Rightarrow> (Ok [], s) | Some p \<Rightarrow> (Ok [A_Send p], s\<lparr>se_last_out := now\<rparr>))"

fun session_command :: "instant \<Rightarrow> command \<Rightarrow> driver_action list session_op" where
  "session_command now (C_Publish t p c) =
     and_then (accept (pub_qos p \<noteq> AtMostOnce) (pub_pkid p) (\<lambda>k. publish_op t (p\<lparr>pub_pkid := k\<rparr>) c)) (send_now now)"
| "session_command now (C_Subscribe t sub c) =
     and_then (accept True (sub_pkid sub) (\<lambda>k. subscribe_op t (sub\<lparr>sub_pkid := k\<rparr>) c)) (send_now now)"
| "session_command now (C_Unsubscribe t u c) =
     and_then (accept True (unsub_pkid u) (\<lambda>k. unsubscribe_op t (u\<lparr>unsub_pkid := k\<rparr>) c)) (send_now now)"
| "session_command now _ = ret []"

section \<open>Acknowledgements\<close>

definition waiting_for :: "u16 \<Rightarrow> session \<Rightarrow> outgoing_op option" where
  "waiting_for k s = (case se_waiting s of Some (k', op) \<Rightarrow> if k' = k then Some op else None | None \<Rightarrow> None)"

text \<open>
  The operation under an acknowledged id is complete; the one that waited for the id takes its place
  and is sent, marked as a repetition.
\<close>

definition acknowledge ::
  "instant \<Rightarrow> (nat \<Rightarrow> u16 \<Rightarrow> completion) \<Rightarrow> runtime_error \<Rightarrow> u16 \<Rightarrow> driver_action list session_op" where
  "acknowledge now done unknown k s =
     (case se_held s k of
        None \<Rightarrow> (Err unknown, s)
      | Some op \<Rightarrow>
          let complete = A_CompleteFor (op_client_id op) (done (op_token_id op) k) in
          case waiting_for k s of
            None \<Rightarrow> (Ok [complete], s\<lparr>se_held := (se_held s)(k := None)\<rparr>)
          | Some op' \<Rightarrow>
              (Ok [complete, A_Send (mark_publish_dup (op_packet op'))],
               s\<lparr>se_held := (se_held s)(k \<mapsto> op'), se_waiting := None, se_last_out := now\<rparr>))"

definition release_held :: "u16 \<Rightarrow> (outgoing_op \<Rightarrow> driver_action option) \<Rightarrow> driver_action list session_op" where
  "release_held k report s =
     (case se_held s k of
        None \<Rightarrow> (Err (UnsolicitedAck k), s)
      | Some op \<Rightarrow>
          ((case report op of Some a \<Rightarrow> Ok [a] | None \<Rightarrow> Err InvalidCommand),
           s\<lparr>se_held := (se_held s)(k := None)\<rparr>))"

fun suback_report :: "u16 \<Rightarrow> command \<Rightarrow> driver_action option" where
  "suback_report k (C_Subscribe t sub c) = Some (A_SubscribeAckFor c (sub_filters sub) (Done_SubAck t k))"
| "suback_report k _ = None"

fun unsuback_report :: "u16 \<Rightarrow> command \<Rightarrow> driver_action option" where
  "unsuback_report k (C_Unsubscribe t u c) = Some (A_UnsubscribeAckFor c (unsub_filters u) (Done_UnsubAck t k))"
| "unsuback_report k _ = None"

definition ranged :: "u16 \<Rightarrow> 'a session_op \<Rightarrow> 'a session_op" where
  "ranged k m s = (if in_range s k then m s else (Err (PacketIdOutOfRange k), s))"

fun session_packet :: "packet \<Rightarrow> instant \<Rightarrow> driver_action list session_op" where
  "session_packet P_PingResp now = (\<lambda>s. (Ok [], s\<lparr>se_pinging := False, se_last_in := now\<rparr>))"
| "session_packet (P_PubAck p) now = acknowledge now Done_PubAck (UnsolicitedAck (puback_pkid p)) (puback_pkid p)"
| "session_packet (P_PubRec p) now =
     (let k = pubrec_pkid p in
      ranged k (\<lambda>s.
        if se_held s k = None then (Err (UnsolicitedPubRec k), s)
        else send_now now (Some (P_PubRel \<lparr>pubrel_pkid = k\<rparr>)) (s\<lparr>se_released := insert k (se_released s)\<rparr>)))"
| "session_packet (P_PubComp p) now =
     (let k = pubcomp_pkid p in
      ranged k (\<lambda>s.
        if k \<in> se_released s \<and> se_held s k \<noteq> None
        then acknowledge now Done_PubComp (UnsolicitedPubComp k) k (s\<lparr>se_released := se_released s - {k}\<rparr>)
        else (Err (UnsolicitedPubComp k), s)))"
| "session_packet (P_Publish p) now =
     (if pub_qos p = ExactlyOnce then
        ranged (pub_pkid p) (\<lambda>s. send_now now (Some (P_PubRec \<lparr>pubrec_pkid = pub_pkid p\<rparr>))
          (s\<lparr>se_open := insert (pub_pkid p) (se_open s)\<rparr>))
      else ret [])"
| "session_packet (P_PubRel p) now =
     (let k = pubrel_pkid p in
      ranged k (\<lambda>s.
        if k \<notin> se_open s then (Err (UnsolicitedPubRel k), s)
        else send_now now (Some (P_PubComp \<lparr>pubcomp_pkid = k\<rparr>)) (s\<lparr>se_open := se_open s - {k}\<rparr>)))"
| "session_packet (P_SubAck p) now = release_held (suback_pkid p) (\<lambda>op. suback_report (suback_pkid p) (op_command op))"
| "session_packet (P_UnsubAck p) now =
     release_held (unsuback_pkid p) (\<lambda>op. unsuback_report (unsuback_pkid p) (op_command op))"
| "session_packet _ now = ret []"

definition session_incoming :: "packet \<Rightarrow> instant \<Rightarrow> driver_action list session_op" where
  "session_incoming packet now s = session_packet packet now (s\<lparr>se_last_in := now\<rparr>)"

section \<open>The connection\<close>

definition go_offline :: "bool \<Rightarrow> session \<Rightarrow> session" where
  "go_offline clean s =
     (let s = s\<lparr>se_online := False, se_pinging := False, se_held := (\<lambda>_. None), se_waiting := None,
                se_queue := se_queue s @ held_in_order s @ map snd (case se_waiting s of None \<Rightarrow> [] | Some w \<Rightarrow> [w])\<rparr>
      in if clean then s\<lparr>se_next_id := 1, se_released := {}, se_open := {}\<rparr> else s)"

definition session_tick :: "bool \<Rightarrow> instant \<Rightarrow> driver_action list session_op" where
  "session_tick clean now s =
     (if \<not> se_online s then (Ok [], s)
      else if se_pinging s \<and> se_interval s \<le> now - se_last_out s then (Ok [A_TriggerReconnect], go_offline clean s)
      else if se_interval s \<le> now - max (se_last_in s) (se_last_out s) then
        (Ok [A_Send P_PingReq], s\<lparr>se_pinging := True, se_last_out := now\<rparr>)
      else (Ok [], s))"

text \<open>What is sent again: a QoS 1 or 2 publish carries the DUP flag.\<close>

definition again :: "publish \<Rightarrow> publish" where
  "again p = (if pub_qos p = AtMostOnce then p else p\<lparr>pub_dup := True\<rparr>)"

definition replay_one :: "outgoing_op \<Rightarrow> packet option session_op" where
  "replay_one op =
     (case op_command op of
        C_Publish t p c \<Rightarrow>
          accept (pub_qos p \<noteq> AtMostOnce) (pub_pkid p) (\<lambda>k. publish_op t (again (p\<lparr>pub_pkid := k\<rparr>)) c)
      | C_Subscribe t sub c \<Rightarrow> accept True (sub_pkid sub) (\<lambda>k. subscribe_op t (sub\<lparr>sub_pkid := k\<rparr>) c)
      | C_Unsubscribe t u c \<Rightarrow> accept True (unsub_pkid u) (\<lambda>k. unsubscribe_op t (u\<lparr>unsub_pkid := k\<rparr>) c)
      | _ \<Rightarrow> ret None)"

fun replay :: "outgoing_op list \<Rightarrow> driver_action list session_op" where
  "replay [] = ret []"
| "replay (op # ops) =
     and_then (replay_one op) (\<lambda>pkt.
     and_then (replay ops) (\<lambda>sends.
     ret (case pkt of Some p \<Rightarrow> A_Send p # sends | None \<Rightarrow> sends)))"

definition session_restored :: "instant \<Rightarrow> driver_action list session_op" where
  "session_restored now s =
     replay (se_queue s)
       (s\<lparr>se_online := True, se_pinging := False, se_last_in := now, se_last_out := now, se_queue := []\<rparr>)"

text \<open>One event; \<open>clean\<close> is the driver's clean\_session.\<close>

fun session_event :: "bool \<Rightarrow> instant \<Rightarrow> driver_event \<Rightarrow> driver_action list session_op" where
  "session_event clean clock (D_Tick now) = session_tick clean now"
| "session_event clean clock (D_Command c) = session_command clock c"
| "session_event clean clock (D_Incoming packet now) = session_incoming packet now"
| "session_event clean clock (D_ConnectionLost clean') = (\<lambda>s. (Ok [A_TriggerReconnect], go_offline clean' s))"
| "session_event clean clock (D_ConnectionRestored now) = session_restored now"

end
