(* ===== verification/Session_Refinement.thy ===== *)
theory Session_Refinement
  imports Session_Spec Driver_Properties
begin

text \<open>
  The driver refines the abstract session: on every state of the invariant each method computes what
  the session computes on the abstraction of the state, outcome and final state, and so does the
  driver over any sequence of events.
\<close>

section \<open>Abstraction\<close>

definition flagged :: "inflight_store \<Rightarrow> bool list \<Rightarrow> u16 set" where
  "flagged s flags = {k. known_id k s \<and> flags ! unat k}"

definition session_of :: "runtime_state \<Rightarrow> session" where
  "session_of st =
     \<lparr>se_online = active st, se_limit = store_max_inflight (inflight st), se_next_id = next_id (pkid_pool st),
      se_held = slot_of (inflight st), se_waiting = collision (inflight st), se_queue = pending (inflight st),
      se_released = flagged (inflight st) (outgoing_rel (inflight st)),
      se_open = flagged (inflight st) (incoming_pub (inflight st)), se_interval = keep_alive st,
      se_pinging = await_pingresp st, se_last_in = last_incoming st, se_last_out = last_outgoing st\<rparr>"

lemma session_of_fields [simp]:
  "se_online (session_of st) = active st"
  "se_limit (session_of st) = store_max_inflight (inflight st)"
  "se_next_id (session_of st) = next_id (pkid_pool st)"
  "se_held (session_of st) = slot_of (inflight st)"
  "se_waiting (session_of st) = collision (inflight st)"
  "se_queue (session_of st) = pending (inflight st)"
  "se_interval (session_of st) = keep_alive st"
  "se_pinging (session_of st) = await_pingresp st"
  "se_last_in (session_of st) = last_incoming st"
  "se_last_out (session_of st) = last_outgoing st"
  by (simp_all add: session_of_def)

lemma session_of_updates [simp]:
  "session_of (st\<lparr>last_incoming := t\<rparr>) = (session_of st)\<lparr>se_last_in := t\<rparr>"
  "session_of (st\<lparr>last_outgoing := t\<rparr>) = (session_of st)\<lparr>se_last_out := t\<rparr>"
  "session_of (st\<lparr>await_pingresp := b\<rparr>) = (session_of st)\<lparr>se_pinging := b\<rparr>"
  "session_of (st\<lparr>active := b\<rparr>) = (session_of st)\<lparr>se_online := b\<rparr>"
  "session_of (st\<lparr>ping_retry_count := n\<rparr>) = session_of st"
  "session_of (st\<lparr>pkid_pool := p\<rparr>) = (session_of st)\<lparr>se_next_id := next_id p\<rparr>"
  by (simp_all add: session_of_def)

lemma flagged_same [simp]:
  "flagged (s\<lparr>last_ack := k\<rparr>) = flagged s" "flagged (s\<lparr>collision := c\<rparr>) = flagged s"
  "flagged (s\<lparr>pending := ps\<rparr>) = flagged s" "flagged (with_slot k x n s) = flagged s"
  "flagged (s\<lparr>outgoing_rel := rs\<rparr>) = flagged s" "flagged (s\<lparr>incoming_pub := qs\<rparr>) = flagged s"
  by (simp_all add: flagged_def known_id_def fun_eq_iff)

lemma session_of_store [simp]:
  "session_of (set_inflight st ((inflight st)\<lparr>last_ack := k\<rparr>)) = session_of st"
  "session_of (set_inflight st ((inflight st)\<lparr>collision := c\<rparr>)) = (session_of st)\<lparr>se_waiting := c\<rparr>"
  "session_of (set_inflight st ((inflight st)\<lparr>pending := ps\<rparr>)) = (session_of st)\<lparr>se_queue := ps\<rparr>"
  by (simp_all add: session_of_def)

lemma session_of_slot:
  "unat k < length (outgoing (inflight st)) \<Longrightarrow>
     session_of (set_inflight st (with_slot k x n (inflight st))) =
       (session_of st)\<lparr>se_held := (se_held (session_of st))(k := x)\<rparr>"
  by (simp add: session_of_def slot_of_with_slot)

lemma flagged_update:
  "known_id k s \<Longrightarrow> length flags = length (outgoing s) \<Longrightarrow>
     flagged s (flags[unat k := b]) = (if b then insert k (flagged s flags) else flagged s flags - {k})"
  by (auto simp: flagged_def known_id_def nth_list_update word_unat_eq_iff)

lemma session_of_flags:
  assumes "state_inv st" and "known_id k (inflight st)"
  shows "session_of (set_inflight st (set_rel k b (inflight st))) = (session_of st)\<lparr>se_released :=
      (if b then insert k (se_released (session_of st)) else se_released (session_of st) - {k})\<rparr>"
    and "session_of (set_inflight st (set_seen k b (inflight st))) = (session_of st)\<lparr>se_open :=
      (if b then insert k (se_open (session_of st)) else se_open (session_of st) - {k})\<rparr>"
proof -
  have "slot_of (set_rel k b (inflight st)) = slot_of (inflight st)"
    "slot_of (set_seen k b (inflight st)) = slot_of (inflight st)"
    by (simp_all add: set_rel_def set_seen_def)
  then show "session_of (set_inflight st (set_rel k b (inflight st))) = (session_of st)\<lparr>se_released :=
      (if b then insert k (se_released (session_of st)) else se_released (session_of st) - {k})\<rparr>"
    "session_of (set_inflight st (set_seen k b (inflight st))) = (session_of st)\<lparr>se_open :=
      (if b then insert k (se_open (session_of st)) else se_open (session_of st) - {k})\<rparr>"
    using flagged_update [OF assms(2)] store_lengths [OF assms(1)]
    by (simp_all add: session_of_def) (simp_all add: set_rel_def set_seen_def)
qed

subsection \<open>Counters and vectors\<close>

lemma slots_bound: "store_inv s \<Longrightarrow> length (outgoing s) \<le> 65536"
  using u16_bound [of "store_max_inflight s"] by (simp add: store_inv_def)

lemma slot_of_nat:
  assumes "store_inv s" and "i < length (outgoing s)"
  shows "slot_of s (word_of_nat i) = outgoing s ! i"
proof -
  have "unat (word_of_nat i :: u16) = i"
    using slots_bound [OF assms(1)] assms(2) by (intro unat_word_of_nat_u16) simp
  then show ?thesis using assms(2) by (simp add: slot_of_def get_mut_def)
qed

lemma card_held:
  assumes "store_inv s"
  shows "card (dom (slot_of s)) = unat (inflight_count s)"
proof -
  let ?xs = "outgoing s"
  let ?I = "{i. i < length ?xs \<and> ?xs ! i \<noteq> None}"
  have d: "k \<in> dom (slot_of s) \<longleftrightarrow> unat k \<in> ?I" for k
    by (auto simp: slot_of_def get_mut_def dom_def)
  have u: "unat (word_of_nat i :: u16) = i" if "i \<in> ?I" for i
    using slots_bound [OF assms] that by (intro unat_word_of_nat_u16) simp
  have "unat ` dom (slot_of s) = ?I"
  proof (intro set_eqI iffI)
    fix i assume i: "i \<in> ?I"
    then have "word_of_nat i \<in> dom (slot_of s)" unfolding d u [OF i] .
    then show "i \<in> unat ` dom (slot_of s)" using u [OF i] by (metis image_eqI)
  qed (use d in blast)
  moreover have "card (unat ` dom (slot_of s)) = card (dom (slot_of s))"
    by (rule card_image) (simp add: inj_on_def word_unat_eq_iff)
  ultimately have "card (dom (slot_of s)) = card ?I" by argo
  also have "\<dots> = length (held_ops ?xs)" by (simp add: held_ops_def length_filter_conv_card)
  finally show ?thesis using assms by (simp add: store_inv_def)
qed

lemma held_ops_nth: "held_ops xs = List.map_filter (\<lambda>i. xs ! i) [0 ..< length xs]"
proof -
  have "map the (filter (\<lambda>x. x \<noteq> None) (map ((!) xs) [0 ..< length xs])) =
      List.map_filter (\<lambda>i. xs ! i) [0 ..< length xs]"
    by (simp add: List.map_filter_def filter_map comp_def)
  then show ?thesis by (simp add: held_ops_def map_nth)
qed

lemma held_in_order_eq:
  assumes "state_inv st"
  shows "held_in_order (session_of st) = held_ops (outgoing (inflight st))"
proof -
  note i = state_invD(4) [OF assms]
  have "List.map_filter f [0 ..< n] = List.map_filter g [0 ..< n]" if "\<And>i. i < n \<Longrightarrow> f i = g i"
    for f g :: "nat \<Rightarrow> outgoing_op option" and n
    using that by (induction n) (simp_all add: List.map_filter_def)
  note eq = this
  have "List.map_filter (\<lambda>j. slot_of (inflight st) (word_of_nat j)) [0 ..< length (outgoing (inflight st))] =
      held_ops (outgoing (inflight st))"
    unfolding held_ops_nth by (rule eq) (rule slot_of_nat [OF i])
  then show ?thesis using i by (simp add: held_in_order_def store_inv_def del: upt_Suc)
qed

lemma in_range_iff: "state_inv st \<Longrightarrow> in_range (session_of st) k \<longleftrightarrow> known_id k (inflight st)"
  using state_invD(4) [of st] unat_gt_0 [of k]
  by (auto simp: in_range_def known_id_def store_inv_def word_le_nat_alt)

lemma window_full_iff:
  "state_inv st \<Longrightarrow> window_full (session_of st) \<longleftrightarrow> store_max_inflight (inflight st) \<le> inflight_count (inflight st)"
  using card_held [OF state_invD(4)] by (simp add: window_full_def word_le_nat_alt)

section \<open>Simulation\<close>

text \<open>
  \<open>sim m a\<close>: from every state of the invariant the method \<open>m\<close> does on the abstraction of the state
  what \<open>a\<close> does, and keeps the invariant.
\<close>

definition sim :: "'a state_op \<Rightarrow> 'a session_op \<Rightarrow> bool" where
  "sim m a \<longleftrightarrow> (\<forall>st r st'. state_inv st \<longrightarrow> m st = (r, st') \<longrightarrow>
     state_inv st' \<and> a (session_of st) = (r, session_of st'))"

lemma simI:
  assumes "\<And>st r st'. state_inv st \<Longrightarrow> m st = (r, st') \<Longrightarrow> state_inv st' \<and> a (session_of st) = (r, session_of st')"
  shows "sim m a"
  using assms by (simp add: sim_def)

lemma simD: "sim m a \<Longrightarrow> state_inv st \<Longrightarrow> m st = (r, st') \<Longrightarrow> state_inv st' \<and> a (session_of st) = (r, session_of st')"
  by (simp add: sim_def)

text \<open>With the invariant known from the ledger, only the computation is left to compare.\<close>

lemma sim_by_ledger:
  assumes "ledger g m d" and "\<And>st. state_inv st \<Longrightarrow> a (session_of st) = map_prod id session_of (m st)"
  shows "sim m a"
  using assms(2) ledgerD(2) [OF assms(1)] by (intro simI) (auto simp: map_prod_def split: prod.splits)

lemma sim_and_then:
  assumes "sim m a" and "\<And>x. sim (f x) (g x)"
  shows "sim (and_then m f) (and_then a g)"
proof (rule simI)
  fix st r st' assume st: "state_inv st" and r: "and_then m f st = (r, st')"
  obtain r1 st1 where m: "m st = (r1, st1)" by (cases "m st")
  note 1 = simD [OF assms(1) st m]
  show "state_inv st' \<and> and_then a g (session_of st) = (r, session_of st')"
  proof (cases r1)
    case (Ok x)
    then show ?thesis using 1 r m simD [OF assms(2), of st1 x r st'] by simp
  qed (use 1 r m in \<open>auto simp: and_then_def\<close>)
qed

lemma sim_ret: "sim (ret x) (ret x)" and sim_throw: "sim (throw e) (throw e)"
  by (simp_all add: sim_def ret_def throw_def)

subsection \<open>Taking on operations\<close>

lemma sim_take_id: "sim (assign_pkid needed k) (take_id needed k)"
proof (rule simI)
  fix st r st' assume st: "state_inv st" and r: "assign_pkid needed k st = (r, st')"
  from assign_pkid_spec [OF st, of needed k] r have inv: "state_inv st'" by auto
  note i = state_invD [OF st]
  have l: "last_pkid (pkid_pool st) \<noteq> 0xFFFF"
    using i(1,2,3) u16_ge_FFFF [of "pool_max_inflight (pkid_pool st)"] by (auto simp: pool_inv_def)
  have "next_id ((pkid_pool st)\<lparr>last_pkid := n\<rparr>) = (if n < store_max_inflight (inflight st) then n + 1 else 1)" for n
    using i(2) by (simp add: next_id_def)
  with l r inv show "state_inv st' \<and> take_id needed k (session_of st) = (r, session_of st')"
    by (auto simp: assign_pkid_def in_pool_def on_field_def next_candidate_eq ret_def take_id_def split: if_splits)
qed

lemma place_eq:
  assumes "state_inv st"
  shows "place k op (session_of st) = map_prod id session_of (insert_or_park k op st)"
proof -
  let ?s = "inflight st"
  have n: "length (outgoing ?s) \<le> unat k \<longleftrightarrow> store_max_inflight ?s < k"
    using state_invD(4) [OF assms] by (auto simp: store_inv_def word_less_nat_alt)
  have f: "session_of (set_inflight st (with_slot k (Some op) (inflight_count ?s + 1) ?s)) =
      (session_of st)\<lparr>se_held := (slot_of ?s)(k \<mapsto> op)\<rparr>" if "\<not> store_max_inflight ?s < k"
    using session_of_slot [of k st "Some op"] that n by simp
  show ?thesis
    using f by (auto simp: place_def insert_or_park_eq Let_def window_full_iff [OF assms] n)
qed

lemma accept_eq:
  assumes st: "state_inv st" and w: "\<And>k. wire k = op_packet (mk k)"
  shows "accept tracked k0 mk (session_of st) = map_prod id session_of (submit tracked k0 mk wire st)"
proof -
  obtain r st1 where a: "assign_pkid tracked k0 st = (r, st1)" by (cases "assign_pkid tracked k0 st")
  note 1 = simD [OF sim_take_id st a]
  show ?thesis
  proof (cases r)
    case (Ok k)
    obtain r2 st2 where p: "insert_or_park k (mk k) st1 = (r2, st2)" by (cases "insert_or_park k (mk k) st1")
    then have "place k (mk k) (session_of st1) = (r2, session_of st2)" using place_eq 1 by simp
    with Ok a 1 p w show ?thesis
      by (cases r2) (auto simp: submit_def accept_def get_def and_then_def push_pending_eq ret_def)
  qed (use a 1 in \<open>simp_all add: submit_def accept_def and_then_def\<close>)
qed

lemma sim_commands:
  "sim (on_command_publish (C_Publish t p c))
     (accept (pub_qos p \<noteq> AtMostOnce) (pub_pkid p) (\<lambda>k. publish_op t (p\<lparr>pub_pkid := k\<rparr>) c))"
  "sim (on_command_subscribe (C_Subscribe t sub c)) (accept True (sub_pkid sub) (\<lambda>k. subscribe_op t (sub\<lparr>sub_pkid := k\<rparr>) c))"
  "sim (on_command_unsubscribe (C_Unsubscribe t u c)) (accept True (unsub_pkid u) (\<lambda>k. unsubscribe_op t (u\<lparr>unsub_pkid := k\<rparr>) c))"
proof -
  show "sim (on_command_publish (C_Publish t p c))
      (accept (pub_qos p \<noteq> AtMostOnce) (pub_pkid p) (\<lambda>k. publish_op t (p\<lparr>pub_pkid := k\<rparr>) c))"
    by (rule sim_by_ledger [OF ledger_on_command(1)]) (simp only: on_command_submit, rule accept_eq, simp_all)
  show "sim (on_command_subscribe (C_Subscribe t sub c)) (accept True (sub_pkid sub) (\<lambda>k. subscribe_op t (sub\<lparr>sub_pkid := k\<rparr>) c))"
    by (rule sim_by_ledger [OF ledger_on_command(2)]) (simp only: on_command_submit, rule accept_eq, simp_all)
  show "sim (on_command_unsubscribe (C_Unsubscribe t u c)) (accept True (unsub_pkid u) (\<lambda>k. unsubscribe_op t (u\<lparr>unsub_pkid := k\<rparr>) c))"
    by (rule sim_by_ledger [OF ledger_on_command(3)]) (simp only: on_command_submit, rule accept_eq, simp_all)
qed

lemma sim_send_now: "sim (send_if_some now pkt) (send_now now pkt)"
  by (rule sim_by_ledger [OF ledger_send_if_some])
    (simp add: send_if_some_def send_now_def note_outgoing_activity_def modify_def and_then_def ret_def
      split: option.split)

lemma sim_command: "sim (handle_command clock c) (session_command clock c)"
  by (cases c) (simp_all add: handle_command_def sim_and_then [OF sim_commands(1) sim_send_now]
      sim_and_then [OF sim_commands(2) sim_send_now] sim_and_then [OF sim_commands(3) sim_send_now] sim_ret)

subsection \<open>Acknowledgements\<close>

lemma session_of_released:
  assumes "state_inv st" and "slot_of (inflight st) k = Some op"
  shows "session_of (set_inflight st (released k (inflight st))) =
      (session_of st)\<lparr>se_held := (slot_of (inflight st))(k := None)\<rparr>"
    and "session_of (set_inflight st (promote_store k (released k (inflight st)))) =
      (case waiting_for k (session_of st) of
         None \<Rightarrow> (session_of st)\<lparr>se_held := (slot_of (inflight st))(k := None)\<rparr>
       | Some op' \<Rightarrow> (session_of st)\<lparr>se_held := (slot_of (inflight st))(k \<mapsto> op'), se_waiting := None\<rparr>)"
    and "promoted k (released k (inflight st)) =
      map_option (\<lambda>op'. mark_publish_dup (op_packet op')) (waiting_for k (session_of st))"
proof -
  note r = released_spec [OF assms]
  let ?s = "released k (inflight st)"
  have f: "flagged ?s = flagged (inflight st)" "outgoing_rel ?s = outgoing_rel (inflight st)"
    "incoming_pub ?s = incoming_pub (inflight st)" "store_max_inflight ?s = store_max_inflight (inflight st)"
    by (simp_all add: released_def)
  show "session_of (set_inflight st ?s) = (session_of st)\<lparr>se_held := (slot_of (inflight st))(k := None)\<rparr>"
    using r f by (simp add: session_of_def)
  show "promoted k ?s = map_option (\<lambda>op'. mark_publish_dup (op_packet op')) (waiting_for k (session_of st))"
    using r(7) by (simp add: promoted_def waiting_for_def split: option.split)
  have "slot_of (with_slot k x n (?s\<lparr>collision := c\<rparr>)) = (slot_of ?s)(k := x)" for x n c
    using slot_of_with_slot [of k "?s\<lparr>collision := c\<rparr>"] r(5) by simp
  then show "session_of (set_inflight st (promote_store k ?s)) =
      (case waiting_for k (session_of st) of
         None \<Rightarrow> (session_of st)\<lparr>se_held := (slot_of (inflight st))(k := None)\<rparr>
       | Some op' \<Rightarrow> (session_of st)\<lparr>se_held := (slot_of (inflight st))(k \<mapsto> op'), se_waiting := None\<rparr>)"
    using r f by (auto simp: session_of_def promote_store_def waiting_for_def split: option.split)
qed

lemma complete_ack_eq:
  "complete_ack now a st =
     (case ar_next_packet a of
        None \<Rightarrow> (Ok [A_CompleteFor (ar_client_id a) (ar_completion a)], st)
      | Some p \<Rightarrow> (Ok [A_CompleteFor (ar_client_id a) (ar_completion a), A_Send p], st\<lparr>last_outgoing := now\<rparr>))"
  by (simp add: complete_ack_def send_if_some_def note_outgoing_activity_def modify_def and_then_def ret_def
      split: option.split)

lemma acknowledge_eq:
  assumes "state_inv st" and "slot_of (inflight st) k = Some op"
  shows "acknowledge now done e k (session_of st) = map_prod id session_of
    (complete_ack now \<lparr>ar_client_id = op_client_id op, ar_completion = done (op_token_id op) k,
        ar_next_packet = promoted k (released k (inflight st))\<rparr>
      (set_inflight st (promote_store k (released k (inflight st)))))"
  using session_of_released [OF assms] assms(2)
  by (cases "waiting_for k (session_of st)") (simp_all add: acknowledge_def complete_ack_eq Let_def)

lemma sim_puback:
  "sim (and_then (on_puback_checked k) (complete_ack now)) (acknowledge now Done_PubAck (UnsolicitedAck k) k)"
proof (rule sim_by_ledger [OF ledger_and_then [OF ledger_on_puback ledger_complete_ack]])
  fix st assume st: "state_inv st"
  show "acknowledge now Done_PubAck (UnsolicitedAck k) k (session_of st) =
      map_prod id session_of (and_then (on_puback_checked k) (complete_ack now) st)"
  proof (cases "slot_of (inflight st) k")
    case None
    then show ?thesis by (simp add: on_puback_eq [OF st] acknowledge_def and_then_def)
  next
    case (Some op)
    then show ?thesis using acknowledge_eq [OF st Some] by (simp add: on_puback_eq [OF st] and_then_def Let_def)
  qed
qed

lemma sim_pubcomp:
  "sim (and_then (on_pubcomp_checked k) (complete_ack now))
     (ranged k (\<lambda>s.
       if k \<in> se_released s \<and> se_held s k \<noteq> None
       then acknowledge now Done_PubComp (UnsolicitedPubComp k) k (s\<lparr>se_released := se_released s - {k}\<rparr>)
       else (Err (UnsolicitedPubComp k), s)))"
proof (rule sim_by_ledger [OF ledger_and_then [OF ledger_on_pubcomp ledger_complete_ack]])
  fix st assume st: "state_inv st"
  let ?st = "set_inflight st (set_rel k False (inflight st))"
  have rel: "k \<in> se_released (session_of st) \<longleftrightarrow> outgoing_rel (inflight st) ! unat k" if "known_id k (inflight st)"
    using that by (simp add: session_of_def flagged_def)
  have i: "state_inv ?st" using st by simp
  note f = session_of_flags(1) [OF st, of k False]
  show "ranged k (\<lambda>s.
       if k \<in> se_released s \<and> se_held s k \<noteq> None
       then acknowledge now Done_PubComp (UnsolicitedPubComp k) k (s\<lparr>se_released := se_released s - {k}\<rparr>)
       else (Err (UnsolicitedPubComp k), s)) (session_of st) =
     map_prod id session_of (and_then (on_pubcomp_checked k) (complete_ack now) st)"
  proof (cases "known_id k (inflight st) \<and> k \<in> se_released (session_of st) \<and> slot_of (inflight st) k \<noteq> None")
    case True
    then obtain op where op: "slot_of (inflight st) k = Some op" by blast
    then have "slot_of (inflight ?st) k = Some op" by (simp add: set_rel_def)
    from acknowledge_eq [OF i this, of now Done_PubComp "UnsolicitedPubComp k"] True f rel op show ?thesis
      by (simp add: on_pubcomp_eq [OF st] ranged_def in_range_iff [OF st] and_then_def Let_def)
  qed (auto simp: on_pubcomp_eq [OF st] ranged_def in_range_iff [OF st] and_then_def rel)
qed

lemma ledger_reply: "ledger g (and_then (note_outgoing_activity now) (\<lambda>_. ret [A_Send q])) actions_owner"
  by (rule ledger_note_ret) simp

lemma sim_pubrec:
  "sim (and_then (on_pubrec_checked k) (\<lambda>rel. and_then (note_outgoing_activity now) (\<lambda>_. ret [A_Send rel])))
     (ranged k (\<lambda>s.
       if se_held s k = None then (Err (UnsolicitedPubRec k), s)
       else send_now now (Some (P_PubRel \<lparr>pubrel_pkid = k\<rparr>)) (s\<lparr>se_released := insert k (se_released s)\<rparr>)))"
  by (rule sim_by_ledger [OF ledger_and_then [OF ledger_on_pubrec ledger_reply]])
    (auto simp: on_pubrec_eq ranged_def in_range_iff and_then_def send_now_def
      note_outgoing_activity_def modify_def ret_def session_of_flags)

lemma sim_qos2:
  "sim (and_then (on_incoming_qos2_publish_checked k) (\<lambda>d. case d of
        FirstSeen pubrec \<Rightarrow> and_then (note_outgoing_activity now) (\<lambda>_. ret [A_Send pubrec])
      | Duplicate pubrec \<Rightarrow> and_then (note_outgoing_activity now) (\<lambda>_. ret [A_Send pubrec])))
     (ranged k (\<lambda>s. send_now now (Some (P_PubRec \<lparr>pubrec_pkid = k\<rparr>)) (s\<lparr>se_open := insert k (se_open s)\<rparr>)))"
proof (rule sim_by_ledger [OF ledger_and_then [OF ledger_on_incoming_qos2, where d' = actions_owner]])
  fix st assume st: "state_inv st"
  have "se_open (session_of st) = insert k (se_open (session_of st))"
    if "known_id k (inflight st)" "incoming_pub (inflight st) ! unat k"
    using that by (auto simp: session_of_def flagged_def)
  then have "(session_of st)\<lparr>se_open := insert k (se_open (session_of st))\<rparr> = session_of st"
    if "known_id k (inflight st)" "incoming_pub (inflight st) ! unat k" using that by simp
  then show "ranged k (\<lambda>s. send_now now (Some (P_PubRec \<lparr>pubrec_pkid = k\<rparr>)) (s\<lparr>se_open := insert k (se_open s)\<rparr>)) (session_of st) =
      map_prod id session_of (and_then (on_incoming_qos2_publish_checked k) (\<lambda>d. case d of
        FirstSeen pubrec \<Rightarrow> and_then (note_outgoing_activity now) (\<lambda>_. ret [A_Send pubrec])
      | Duplicate pubrec \<Rightarrow> and_then (note_outgoing_activity now) (\<lambda>_. ret [A_Send pubrec])) st)"
    using session_of_flags(2) [OF st, of k True]
    by (auto simp: on_incoming_qos2_eq [OF st] ranged_def in_range_iff [OF st] and_then_def send_now_def
        note_outgoing_activity_def modify_def ret_def)
qed (simp add: ledger_reply split: incoming_qos2_result.split)

lemma sim_pubrel:
  "sim (and_then (on_incoming_pubrel_checked k) (\<lambda>comp. and_then (note_outgoing_activity now) (\<lambda>_. ret [A_Send comp])))
     (ranged k (\<lambda>s.
       if k \<notin> se_open s then (Err (UnsolicitedPubRel k), s)
       else send_now now (Some (P_PubComp \<lparr>pubcomp_pkid = k\<rparr>)) (s\<lparr>se_open := se_open s - {k}\<rparr>)))"
proof (rule sim_by_ledger [OF ledger_and_then [OF ledger_on_incoming_pubrel ledger_reply]])
  fix st assume st: "state_inv st"
  have "k \<in> se_open (session_of st) \<longleftrightarrow> incoming_pub (inflight st) ! unat k" if "known_id k (inflight st)"
    using that by (simp add: session_of_def flagged_def)
  then show "ranged k (\<lambda>s.
       if k \<notin> se_open s then (Err (UnsolicitedPubRel k), s)
       else send_now now (Some (P_PubComp \<lparr>pubcomp_pkid = k\<rparr>)) (s\<lparr>se_open := se_open s - {k}\<rparr>)) (session_of st) =
     map_prod id session_of
       (and_then (on_incoming_pubrel_checked k) (\<lambda>comp. and_then (note_outgoing_activity now) (\<lambda>_. ret [A_Send comp])) st)"
    using session_of_flags(2) [OF st, of k False]
    by (auto simp: on_incoming_pubrel_eq [OF st] ranged_def in_range_iff [OF st] and_then_def send_now_def
        note_outgoing_activity_def modify_def ret_def)
qed

lemma sim_suback:
  "sim (and_then (on_suback_checked k) (\<lambda>ack.
      ret [A_SubscribeAckFor (sar_client_id ack) (sar_filters ack) (sar_completion ack)]))
     (release_held k (\<lambda>op. suback_report k (op_command op)))"
proof (rule sim_by_ledger [OF ledger_and_then [OF ledger_on_suback, where d' = no_owner]])
  fix st assume st: "state_inv st"
  show "release_held k (\<lambda>op. suback_report k (op_command op)) (session_of st) =
      map_prod id session_of (and_then (on_suback_checked k) (\<lambda>ack.
        ret [A_SubscribeAckFor (sar_client_id ack) (sar_filters ack) (sar_completion ack)]) st)"
    using session_of_released(1) [OF st]
    by (auto simp: on_suback_eq [OF st] release_held_def and_then_def ret_def split: option.split command.split)
qed (rule ledgerI, simp add: ret_def)

lemma sim_unsuback:
  "sim (and_then (on_unsuback_checked k) (\<lambda>ack.
      ret [A_UnsubscribeAckFor (uar_client_id ack) (uar_filters ack) (uar_completion ack)]))
     (release_held k (\<lambda>op. unsuback_report k (op_command op)))"
proof (rule sim_by_ledger [OF ledger_and_then [OF ledger_on_unsuback, where d' = no_owner]])
  fix st assume st: "state_inv st"
  show "release_held k (\<lambda>op. unsuback_report k (op_command op)) (session_of st) =
      map_prod id session_of (and_then (on_unsuback_checked k) (\<lambda>ack.
        ret [A_UnsubscribeAckFor (uar_client_id ack) (uar_filters ack) (uar_completion ack)]) st)"
    using session_of_released(1) [OF st]
    by (auto simp: on_unsuback_eq [OF st] release_held_def and_then_def ret_def split: option.split command.split)
qed (rule ledgerI, simp add: ret_def)

lemmas sim_packets = sim_puback sim_pubcomp sim_pubrec sim_qos2 sim_pubrel sim_suback sim_unsuback

lemma sim_packet:
  "sim (case packet of
       P_PingResp \<Rightarrow> and_then (on_pingresp now) (\<lambda>_. ret [])
     | P_PubAck p \<Rightarrow> and_then (on_puback_checked (puback_pkid p)) (complete_ack now)
     | P_PubRec p \<Rightarrow>
         and_then (on_pubrec_checked (pubrec_pkid p)) (\<lambda>rel.
         and_then (note_outgoing_activity now) (\<lambda>_. ret [A_Send rel]))
     | P_PubComp p \<Rightarrow> and_then (on_pubcomp_checked (pubcomp_pkid p)) (complete_ack now)
     | P_Publish p \<Rightarrow>
         if pub_qos p = ExactlyOnce then
           and_then (on_incoming_qos2_publish_checked (pub_pkid p)) (\<lambda>d.
           case d of
             FirstSeen pubrec \<Rightarrow> and_then (note_outgoing_activity now) (\<lambda>_. ret [A_Send pubrec])
           | Duplicate pubrec \<Rightarrow> and_then (note_outgoing_activity now) (\<lambda>_. ret [A_Send pubrec]))
         else ret []
     | P_PubRel p \<Rightarrow>
         and_then (on_incoming_pubrel_checked (pubrel_pkid p)) (\<lambda>comp.
         and_then (note_outgoing_activity now) (\<lambda>_. ret [A_Send comp]))
     | P_SubAck p \<Rightarrow>
         and_then (on_suback_checked (suback_pkid p)) (\<lambda>ack.
         ret [A_SubscribeAckFor (sar_client_id ack) (sar_filters ack) (sar_completion ack)])
     | P_UnsubAck p \<Rightarrow>
         and_then (on_unsuback_checked (unsuback_pkid p)) (\<lambda>ack.
         ret [A_UnsubscribeAckFor (uar_client_id ack) (uar_filters ack) (uar_completion ack)])
     | _ \<Rightarrow> ret []) (session_packet packet now)"
proof -
  have "sim (and_then (on_pingresp now) (\<lambda>_. ret ([] :: driver_action list)))
      (\<lambda>s. (Ok [], s\<lparr>se_pinging := False, se_last_in := now\<rparr>))"
    by (rule sim_by_ledger [OF ledger_and_then [OF ledger_on_pingresp, where d' = no_owner]])
      (simp_all add: ledger_def on_pingresp_def op_combinators)
  then show ?thesis by (cases packet) (simp_all add: sim_packets sim_ret Let_def del: not_None_eq)
qed

lemma sim_incoming: "sim (handle_incoming packet now) (session_incoming packet now)"
proof -
  have n: "sim (note_incoming_activity now) (\<lambda>s. (Ok (), s\<lparr>se_last_in := now\<rparr>))"
    by (rule sim_by_ledger [OF ledger_notes(1)]) (simp add: note_incoming_activity_def modify_def)
  have "session_incoming packet now = and_then (\<lambda>s. (Ok (), s\<lparr>se_last_in := now\<rparr>)) (\<lambda>_. session_packet packet now)"
    by (simp add: fun_eq_iff session_incoming_def and_then_def)
  then show ?thesis unfolding handle_incoming_def by (simp only: sim_and_then [OF n sim_packet])
qed

subsection \<open>The connection\<close>

lemma session_of_lost:
  assumes "state_inv st"
  shows "session_of (lost clean st) = go_offline clean (session_of st)"
proof -
  have s: "slot_of (lost_store clean (inflight st)) = (\<lambda>_. None)"
    by (simp add: fun_eq_iff slot_of_def get_mut_def lost_store_def Let_def)
  have n: "next_id ((pkid_pool st)\<lparr>last_pkid := 0\<rparr>) = 1"
    using state_invD(1) [OF assms] by (simp add: next_id_def pool_inv_def)
  have f: "flagged (lost_store clean (inflight st)) flags = flagged (inflight st) flags" for flags
    by (simp add: flagged_def known_id_def lost_store_def Let_def)
  have r: "flagged (inflight st) (replicate (length (outgoing (inflight st))) False) = {}"
    by (auto simp: flagged_def known_id_def)
  show ?thesis
    using s n f r store_lengths [OF assms] held_in_order_eq [OF assms]
    by (simp add: session_of_def go_offline_def lost_def Let_def)
      (simp add: lost_store_def Let_def split: option.split)
qed

lemma sim_lost: "sim (handle_connection_lost clean) (\<lambda>s. (Ok [A_TriggerReconnect], go_offline clean s))"
  by (rule simI) (auto simp: handle_connection_lost_def on_connection_lost_eq and_then_def ret_def
      state_inv_lost session_of_lost)

lemma sim_tick: "sim (handle_tick clean now) (session_tick clean now)"
  by (rule sim_by_ledger [OF ledger_handle_tick])
    (auto simp: handle_tick_def attempt_def on_tick_eq session_tick_def and_then_def ret_def
      on_connection_lost_eq session_of_lost note_outgoing_activity_def modify_def)

subsection \<open>Replay\<close>

lemma take_id_keeps: "take_id n k s = (r, s') \<Longrightarrow> se_last_out s' = se_last_out s \<and> se_online s' = se_online s \<and> r \<noteq> Panic"
  by (auto simp: take_id_def split: if_splits)

lemma accept_keeps_time: "accept tracked k0 mk s = (r, s') \<Longrightarrow> se_last_out s' = se_last_out s"
  by (auto simp: accept_def and_then_def place_def ret_def split: prod.splits outcome.splits if_splits
      dest!: take_id_keeps)

lemma resubmit_submit:
  assumes "active st"
  shows "resubmit tracked k0 mk wire out st =
    and_then (submit tracked k0 mk wire) (\<lambda>p. ret (case p of None \<Rightarrow> out | Some x \<Rightarrow> out @ [x])) st"
proof -
  obtain r st1 where a: "assign_pkid tracked k0 st = (r, st1)" by (cases "assign_pkid tracked k0 st")
  then have "active st1"
    using assms by (auto simp: assign_pkid_def in_pool_def on_field_def ret_def split: if_splits prod.splits)
  with a show ?thesis
    by (cases r) (auto simp: resubmit_def submit_def and_then_def get_def ret_def split: prod.split outcome.split)
qed

lemma replay_one_eq:
  assumes st: "state_inv st" "active st" and op: "op_ok op" and r: "resend_one op out st = (Ok out', st')"
  shows "\<exists>p. replay_one op (session_of st) = (Ok p, session_of st') \<and>
    out' = out @ (case p of None \<Rightarrow> [] | Some x \<Rightarrow> [x])"
proof -
  have resubmits: "\<exists>p. accept tracked k0 mk (session_of st) = (Ok p, session_of st') \<and>
      out' = out @ (case p of None \<Rightarrow> [] | Some x \<Rightarrow> [x])"
    if re: "resubmit tracked k0 mk wire out st = (Ok out', st')" and w: "\<And>k. wire k = op_packet (mk k)"
    for tracked k0 mk wire
  proof -
    obtain p st1 where "submit tracked k0 mk wire st = (Ok p, st1)" "st' = st1"
      "out' = (case p of None \<Rightarrow> out | Some x \<Rightarrow> out @ [x])"
      using re by (auto simp: resubmit_submit [OF st(2)] and_then_Ok_iff ret_Ok_iff)
    with accept_eq [OF st(1) w, of tracked k0] show ?thesis by (cases p) auto
  qed
  show ?thesis
  proof (cases "op_command op")
    case (C_Publish t p c)
    have a: "(if pub_qos p \<noteq> AtMostOnce then p\<lparr>pub_pkid := k, pub_dup := True\<rparr> else p) = again (p\<lparr>pub_pkid := k\<rparr>)"
      if "pub_qos p \<noteq> AtMostOnce \<or> k = pub_pkid p" for k
      using that by (auto simp: again_def)
    show ?thesis
    proof (cases "pub_qos p = AtMostOnce")
      case True
      with r st(2) show ?thesis
        by (auto simp: resend_one_resubmit(1) [OF C_Publish] resubmit_def assign_pkid_def and_then_def ret_def
            replay_one_def C_Publish accept_def take_id_def again_def)
    next
      case False
      with resubmits [OF r [unfolded resend_one_resubmit(1) [OF C_Publish]]] a C_Publish show ?thesis
        by (simp add: replay_one_def)
    qed
  next
    case (C_Subscribe t sub c)
    with resubmits [OF r [unfolded resend_one_resubmit(2) [OF C_Subscribe]]] show ?thesis
      by (simp add: replay_one_def)
  next
    case (C_Unsubscribe t u c)
    with resubmits [OF r [unfolded resend_one_resubmit(3) [OF C_Unsubscribe]]] show ?thesis
      by (simp add: replay_one_def)
  qed (use op in \<open>simp_all add: op_ok_def\<close>)
qed

lemma replay_eq:
  assumes "state_inv st" "active st" "list_all op_ok ops"
  shows "\<exists>pkts st'. resend_loop ops out st = (Ok (out @ pkts), st') \<and> state_inv st' \<and>
    replay ops (session_of st) = (Ok (map A_Send pkts), session_of st') \<and> last_outgoing st' = last_outgoing st"
  using assms
proof (induction ops arbitrary: st out)
  case (Cons op ops)
  then obtain out1 st1 where
    1: "resend_one op out st = (Ok out1, st1)" "state_inv st1" "active st1"
    using resend_one_spec [of st op out] by auto
  from replay_one_eq [OF Cons.prems(1,2) _ 1(1)] Cons.prems(3) obtain p where
    2: "replay_one op (session_of st) = (Ok p, session_of st1)" "out1 = out @ (case p of None \<Rightarrow> [] | Some x \<Rightarrow> [x])"
    by auto
  have "se_last_out (session_of st1) = se_last_out (session_of st)"
    using 2(1) accept_keeps_time by (auto simp: replay_one_def ret_def simp del: session_of_fields split: command.splits)
  then have t: "last_outgoing st1 = last_outgoing st" by simp
  from Cons.IH [OF 1(2,3), of out1] Cons.prems(3) obtain pkts st2 where
    3: "resend_loop ops out1 st1 = (Ok (out1 @ pkts), st2)" "state_inv st2" "last_outgoing st2 = last_outgoing st1"
    "replay ops (session_of st1) = (Ok (map A_Send pkts), session_of st2)" by auto
  show ?case
    by (rule exI [of _ "(case p of None \<Rightarrow> [] | Some x \<Rightarrow> [x]) @ pkts"], rule exI [of _ st2])
      (use 1 2 3 t in \<open>simp add: ret_def split: option.split\<close>)
qed (simp add: ret_def)

lemma send_all_now: "last_outgoing st = now \<Longrightarrow> send_all now pkts st = (Ok (map A_Send pkts), st)"
proof (induction pkts)
  case (Cons p pkts)
  then have same: "st\<lparr>last_outgoing := now\<rparr> = st" by (metis runtime_state.surjective runtime_state.update_convs(7))
  have "send_all now (p # pkts) st = and_then (send_all now pkts) (\<lambda>out. ret (A_Send p # out)) (st\<lparr>last_outgoing := now\<rparr>)"
    by (simp add: note_outgoing_activity_def modify_def and_then_def)
  with Cons show ?case unfolding same by (simp add: ret_def)
qed (simp add: ret_def)

lemma sim_restored: "sim (handle_connection_restored now) (session_restored now)"
proof (rule simI)
  fix st r st' assume st: "state_inv st" and r: "handle_connection_restored now st = (r, st')"
  let ?st = "st\<lparr>await_pingresp := False, last_incoming := now, last_outgoing := now, active := True,
    inflight := (inflight st)\<lparr>pending := []\<rparr>\<rparr>"
  have inv: "state_inv ?st" using st by (simp add: state_inv_def)
  from replay_eq [OF inv _ state_invD(8) [OF st], of "[]"] obtain pkts st1 where
    1: "resend_loop (pending (inflight st)) [] ?st = (Ok pkts, st1)" "state_inv st1"
      "replay (pending (inflight st)) (session_of ?st) = (Ok (map A_Send pkts), session_of st1)"
      "last_outgoing st1 = now" by auto
  have "r = Ok (map A_Send pkts)" "st' = st1"
    using r 1(1) send_all_now [OF 1(4)]
    by (simp_all add: handle_connection_restored_def set_active_def modify_def and_then_def on_connection_restored_eq)
  moreover have "session_of ?st = (session_of st)\<lparr>se_online := True, se_pinging := False, se_last_in := now,
      se_last_out := now, se_queue := []\<rparr>" by (simp add: session_of_def)
  ultimately show "state_inv st' \<and> session_restored now (session_of st) = (r, session_of st')"
    using 1(2,3) by (simp add: session_restored_def)
qed

section \<open>Simulation of runs\<close>

text \<open>
  The contract of a refinement: a step of the concrete machine is a step of the abstract one on the
  abstraction of the state, as long as the invariant holds, which every step keeps.  Then so is every
  run, with the same outcomes.
\<close>

locale machine_refinement =
  fixes step :: "'i \<Rightarrow> ('s, 'e, 'o list) op"
    and spec :: "'i \<Rightarrow> ('a, 'e, 'o list) op"
    and abstract :: "'s \<Rightarrow> 'a"
    and inv :: "'s \<Rightarrow> bool"
  assumes refines: "inv s \<Longrightarrow> step i s = (r, s') \<Longrightarrow> inv s' \<and> spec i (abstract s) = (r, abstract s')"
begin

lemma run_refines:
  "inv s \<Longrightarrow> run_machine step is s = (rs, s') \<Longrightarrow> inv s' \<and> run_machine spec is (abstract s) = (rs, abstract s')"
proof (induction "is" arbitrary: s rs s')
  case (Cons i "is")
  obtain r s1 where s1: "step i s = (r, s1)" by (cases "step i s")
  obtain rs1 s2 where s2: "run_machine step is s1 = (rs1, s2)" by (cases "run_machine step is s1")
  note 1 = refines [OF Cons.prems(1) s1]
  from Cons.IH [OF conjunct1 [OF 1] s2] 1 Cons.prems(2) show ?case by (simp add: s1 s2 Let_def)
qed simp

end

lemma handle_event_refines:
  assumes "state_inv (drv_state d)" and "handle_event clock e d = (r, d')"
  shows "state_inv (drv_state d') \<and> drv_clean_session d' = drv_clean_session d \<and>
    session_event (drv_clean_session d) clock e (session_of (drv_state d)) = (r, session_of (drv_state d'))"
proof -
  have "sim (case e of
        D_Tick now \<Rightarrow> handle_tick (drv_clean_session d) now
      | D_Command c \<Rightarrow> handle_command clock c
      | D_Incoming packet now \<Rightarrow> handle_incoming packet now
      | D_ConnectionLost clean \<Rightarrow> handle_connection_lost clean
      | D_ConnectionRestored now \<Rightarrow> handle_connection_restored now)
    (session_event (drv_clean_session d) clock e)"
    by (cases e) (simp_all add: sim_tick sim_command sim_incoming sim_lost sim_restored)
  from simD [OF this assms(1)] assms(2) show ?thesis by (auto simp: handle_event_eq split: prod.splits)
qed

interpretation session: machine_refinement
  "\<lambda>(clock, e). handle_event clock e" "\<lambda>(clock, e). session_event clean clock e"
  "\<lambda>d. session_of (drv_state d)" "\<lambda>d. state_inv (drv_state d) \<and> drv_clean_session d = clean" for clean
  by unfold_locales (auto dest!: handle_event_refines [rotated])

lemma session_of_new:
  assumes "new_with_keep_alive m limit t1 t2 = Ok st"
  shows "session_of st = start_session m limit t1 t2"
proof -
  have "0 < m" using assms by (auto simp: new_with_keep_alive_def new_pool_def split: if_splits)
  then have st: "st = \<lparr>pkid_pool = \<lparr>last_pkid = 0, pool_max_inflight = m\<rparr>, inflight = new_store m,
      active = False, keep_alive = limit, await_pingresp = False, last_incoming = t1,
      last_outgoing = t2, ping_retry_count = 0\<rparr>"
    using assms by (simp add: new_with_keep_alive_def new_pool_def)
  have "slot_of (new_store m) = (\<lambda>_. None)"
    by (auto simp: fun_eq_iff slot_of_def get_mut_def new_store_def Let_def simp del: replicate_Suc)
  then show ?thesis
    using \<open>0 < m\<close> by (simp add: st session_of_def start_session_def next_id_def)
      (auto simp: new_store_def Let_def flagged_def known_id_def simp del: replicate_Suc)
qed

text \<open>
  Claim C3 (refinement). The driver is the abstract session: over any sequence of events, in any order and
  with any packets from the broker, a new driver returns, event by event, exactly the actions and
  errors that the abstract session returns, and ends in a state that abstracts to the session's.  The
  vectors, the counter, the collision slot and the id arithmetic are thereby an implementation of a
  map from packet ids to operations, a queue, two sets of packet ids and a cyclic id.
\<close>
theorem driver_refines_session:
  assumes "new_with_keep_alive m limit t1 t2 = Ok st" and "m \<noteq> 0xFFFF"
    and "run_machine (\<lambda>(clock, e). handle_event clock e) es (new_driver st clean) = (rs, d)"
  shows "run_machine (\<lambda>(clock, e). session_event clean clock e) es (start_session m limit t1 t2) =
    (rs, session_of (drv_state d))"
  using session.run_refines [OF _ assms(3), of clean] state_inv_new [OF assms(1,2)] session_of_new [OF assms(1)]
  by (simp add: new_driver_def)

theorem driver_refines_session_witness:
  "let es = [(0, D_ConnectionRestored 0), (1, D_Command (C_Publish 7 (small_publish ExactlyOnce 0) 3)),
      (2, D_Incoming (P_PubRec \<lparr>pubrec_pkid = 1\<rparr>) 2), (3, D_ConnectionLost False)];
     (rs, s) = run_machine (\<lambda>(clock, e). session_event False clock e) es (start_session 2 30 0 0)
   in (rs, s) = (fst (run_small es), session_of (drv_state (snd (run_small es)))) \<and>
     last rs = Ok [A_TriggerReconnect] \<and> se_queue s = [publish_op 7 (small_publish ExactlyOnce 1) 3]"
proof -
  let ?es = "[(0, D_ConnectionRestored 0), (1, D_Command (C_Publish 7 (small_publish ExactlyOnce 0) 3)),
      (2, D_Incoming (P_PubRec \<lparr>pubrec_pkid = 1\<rparr>) 2), (3, D_ConnectionLost False)]"
  obtain rs d where r: "run_small ?es = (rs, d)" by (cases "run_small ?es")
  have "last (fst (run_small ?es)) = Ok [A_TriggerReconnect]"
    "pending (inflight (drv_state (snd (run_small ?es)))) = [publish_op 7 (small_publish ExactlyOnce 1) 3]"
    by (simp_all add: small_eval publish_op_def)
  with driver_refines_session [OF small_state_new _ r [unfolded run_small_def]] r show ?thesis
    by simp
qed

end
