(* ===== verification/Reconnect_Replay.thy ===== *)
theory Reconnect_Replay
  imports Reconnect_Properties Session_Refinement
begin

text \<open>
  Losing the connection and restoring it at once: what was in flight is sent again, in the order of the
  slots, and is in the same slots afterwards.
\<close>

section \<open>The operations in the slots\<close>

lemma held_op_slot:
  assumes "state_inv st"
  shows "op \<in> set (held_ops (outgoing (inflight st))) \<longleftrightarrow> (\<exists>k. slot_of (inflight st) k = Some op)"
proof -
  note i = state_invD(4) [OF assms]
  have "\<exists>k. slot_of (inflight st) k = Some op" if "j < length (outgoing (inflight st))" "outgoing (inflight st) ! j = Some op" for j
    using slot_of_nat [OF i that(1)] that(2) by auto
  moreover have "Some op \<in> set (outgoing (inflight st))" if "slot_of (inflight st) k = Some op" for k
    using that by (auto simp: slot_of_Some_iff in_set_conv_nth)
  ultimately show ?thesis by (auto simp: held_ops_def in_set_conv_nth image_iff) force
qed

lemma tracked_ids_slots:
  assumes "\<And>i op. i < n \<Longrightarrow> f i = Some op \<Longrightarrow> command_pkid (op_command op) = Some (word_of_nat i)"
  shows "tracked_ids (List.map_filter f [0 ..< n]) = map word_of_nat (filter (\<lambda>i. f i \<noteq> None) [0 ..< n])"
  using assms
proof (induction n)
  case (Suc n)
  have "tracked_ids (xs @ ys) = tracked_ids xs @ tracked_ids ys" for xs ys
    by (simp add: tracked_ids_def List.map_filter_def)
  moreover have "List.map_filter f [0 ..< Suc n] = List.map_filter f [0 ..< n] @ (case f n of Some op \<Rightarrow> [op] | None \<Rightarrow> [])"
    by (simp add: List.map_filter_def split: option.split)
  moreover have "tracked_ids (case f n of Some op \<Rightarrow> [op] | None \<Rightarrow> []) = (if f n = None then [] else [word_of_nat n])"
    using Suc.prems [OF lessI] by (cases "f n") simp_all
  moreover have "tracked_ids (List.map_filter f [0 ..< n]) = map word_of_nat (filter (\<lambda>i. f i \<noteq> None) [0 ..< n])"
    using Suc.prems by (intro Suc.IH) simp
  ultimately show ?case by simp
qed (simp add: List.map_filter_def)

lemma held_ids:
  assumes "state_inv st"
  shows "distinct (tracked_ids (held_ops (outgoing (inflight st))))"
    and "k \<in> set (tracked_ids (held_ops (outgoing (inflight st)))) \<longleftrightarrow> slot_of (inflight st) k \<noteq> None"
proof -
  let ?xs = "outgoing (inflight st)"
  note i = state_invD(4) [OF assms]
  have c: "command_pkid (op_command op) = Some (word_of_nat j)" if "j < length ?xs" "?xs ! j = Some op" for j op
    using state_invD(5) [OF assms, of "word_of_nat j" op] slot_of_nat [OF i that(1)] that(2)
    by (simp add: op_carries_def)
  have e: "tracked_ids (held_ops ?xs) = map word_of_nat (filter (\<lambda>j. ?xs ! j \<noteq> None) [0 ..< length ?xs])"
    unfolding held_ops_nth by (rule tracked_ids_slots) (rule c)
  have inj: "inj_on (word_of_nat :: nat \<Rightarrow> u16) {..< length ?xs}"
  proof (rule inj_onI)
    fix a b assume ab: "a \<in> {..< length ?xs}" "b \<in> {..< length ?xs}" and eq: "(word_of_nat a :: u16) = word_of_nat b"
    have "a < 65536" "b < 65536" using ab slots_bound [OF i] by simp_all
    then have "unat (word_of_nat a :: u16) = a" "unat (word_of_nat b :: u16) = b"
      by (intro unat_word_of_nat_u16; simp)+
    then show "a = b" using eq by metis
  qed
  then show "distinct (tracked_ids (held_ops ?xs))"
    unfolding e distinct_map by (intro conjI inj_on_subset [OF inj]) auto
  show "k \<in> set (tracked_ids (held_ops ?xs)) \<longleftrightarrow> slot_of (inflight st) k \<noteq> None"
  proof
    assume "k \<in> set (tracked_ids (held_ops ?xs))"
    then obtain j where "j < length ?xs" "?xs ! j \<noteq> None" "k = word_of_nat j" unfolding e by auto
    then show "slot_of (inflight st) k \<noteq> None" using slot_of_nat [OF i] by simp
  next
    assume "slot_of (inflight st) k \<noteq> None"
    then obtain op where o: "slot_of (inflight st) k = Some op" by auto
    then have "op \<in> set (held_ops ?xs)" using held_op_slot [OF assms] by blast
    moreover have "command_pkid (op_command op) = Some k"
      using state_invD(5) [OF assms o] by (simp add: op_carries_def)
    ultimately show "k \<in> set (tracked_ids (held_ops ?xs))" by (rule in_tracked_ids)
  qed
qed

section \<open>Lost and restored\<close>

text \<open>Restoring the connection turns the ping alarm off; seen on the abstract session.\<close>

lemma accept_pinging: "accept tracked k0 mk s = (r, s') \<Longrightarrow> se_pinging s' = se_pinging s"
  by (auto simp: accept_def and_then_def place_def ret_def take_id_def split: prod.splits outcome.splits if_splits)

lemma replay_pinging: "replay ops s = (r, s') \<Longrightarrow> se_pinging s' = se_pinging s"
proof (induction ops arbitrary: s r)
  case (Cons op ops)
  obtain x s1 where x: "replay_one op s = (x, s1)" by (cases "replay_one op s")
  then have "se_pinging s1 = se_pinging s"
    by (auto simp: replay_one_def ret_def split: command.splits dest: accept_pinging)
  then show ?case using Cons x by (auto simp: and_then_def ret_def split: prod.splits outcome.splits)
qed (simp add: ret_def)

lemma restored_not_pinging:
  assumes "state_inv st" and "handle_connection_restored now st = (r, st')"
  shows "\<not> await_pingresp st'"
proof -
  have "session_restored now (session_of st) = (r, session_of st')" using simD [OF sim_restored assms] by blast
  from replay_pinging [OF this [unfolded session_restored_def]] show ?thesis by simp
qed

abbreviation in_flight :: "runtime_state \<Rightarrow> outgoing_op list" where
  "in_flight st \<equiv> held_ops (outgoing (inflight st))"

lemma lost_restored:
  assumes "state_inv st" and "pending (inflight st) = []" and "collision (inflight st) = None"
  shows "\<exists>st'. handle_connection_restored now (lost clean st) =
      (Ok (map (\<lambda>op. A_Send (op_packet (replayed_op op))) (in_flight st)), st') \<and>
    state_inv st' \<and> active st' \<and> \<not> await_pingresp st' \<and> pending (inflight st') = [] \<and>
    collision (inflight st') = None \<and>
    (\<forall>k. slot_of (inflight st') k = map_option replayed_op (slot_of (inflight st) k))"
proof -
  let ?l = "lost clean st"
  note h = held_ids [OF assms(1)]
  have l: "state_inv ?l" "\<not> active ?l" "pending (inflight ?l) = in_flight st"
    using assms by (simp_all add: lost_parks state_inv_lost)
  have "known_id k (inflight ?l) = known_id k (inflight st)" for k
    by (simp add: known_id_def lost_def lost_store_def Let_def)
  then have k: "\<forall>k \<in> set (tracked_ids (pending (inflight ?l))). known_id k (inflight ?l)"
    unfolding l(3) using h(2) slot_known [OF assms(1)] by auto
  have d: "distinct (tracked_ids (pending (inflight ?l)))" unfolding l(3) by (rule h(1))
  from restored_free [OF l(1,2) d k, of now] obtain st' where
    r: "handle_connection_restored now ?l =
      (Ok (map (\<lambda>op. A_Send (op_packet (replayed_op op))) (in_flight st)), st')"
      "active st'" "pending (inflight st') = []" "collision (inflight st') = None"
      "\<forall>k. k \<notin> set (tracked_ids (in_flight st)) \<longrightarrow> slot_of (inflight st') k = None"
      "\<forall>op \<in> set (in_flight st). \<forall>k. command_pkid (op_command op) = Some k \<longrightarrow>
         slot_of (inflight st') k = Some (replayed_op op)"
    unfolding l(3) by (elim exE conjE)
  have "state_inv st'" "\<not> await_pingresp st'"
    using simD [OF sim_restored l(1) r(1)] restored_not_pinging [OF l(1) r(1)] by blast+
  moreover have "slot_of (inflight st') k = map_option replayed_op (slot_of (inflight st) k)" for k
  proof (cases "slot_of (inflight st) k")
    case None
    then show ?thesis using r(5) h(2) by simp
  next
    case (Some op)
    then have "op \<in> set (in_flight st)" using held_op_slot [OF assms(1)] by blast
    moreover have "command_pkid (op_command op) = Some k"
      using state_invD(5) [OF assms(1) Some] by (simp add: op_carries_def)
    ultimately show ?thesis using r(6) Some by simp
  qed
  ultimately show ?thesis using r by blast
qed

text \<open>The same as two events of the driver.\<close>

lemma reconnect_resends:
  assumes "state_inv (drv_state d)" and "pending (inflight (drv_state d)) = []"
    and "collision (inflight (drv_state d)) = None"
  obtains d1 d2 where "handle_event c1 (D_ConnectionLost clean) d = (Ok [A_TriggerReconnect], d1)"
    and "handle_event c2 (D_ConnectionRestored now) d1 =
      (Ok (map (\<lambda>op. A_Send (op_packet (replayed_op op))) (in_flight (drv_state d))), d2)"
    and "state_inv (drv_state d2)" and "active (drv_state d2)" and "pending (inflight (drv_state d2)) = []"
    and "collision (inflight (drv_state d2)) = None"
    and "\<And>k. slot_of (inflight (drv_state d2)) k = map_option replayed_op (slot_of (inflight (drv_state d)) k)"
proof -
  from lost_restored [OF assms, of now clean] obtain st' where
    r: "handle_connection_restored now (lost clean (drv_state d)) =
      (Ok (map (\<lambda>op. A_Send (op_packet (replayed_op op))) (in_flight (drv_state d))), st')"
    "state_inv st'" "active st'" "pending (inflight st') = []" "collision (inflight st') = None"
    "\<forall>k. slot_of (inflight st') k = map_option replayed_op (slot_of (inflight (drv_state d)) k)"
    by (elim exE conjE)
  show thesis
    by (rule that [of "d\<lparr>drv_state := lost clean (drv_state d)\<rparr>" "d\<lparr>drv_state := st'\<rparr>"])
      (use r in \<open>simp_all add: handle_event_eq handle_connection_lost_def on_connection_lost_eq and_then_def ret_def\<close>)
qed

end
