(* ===== verification/Task_Eval.thy ===== *)
theory Task_Eval
  imports Task_Properties
begin

text \<open>
  Evaluation of the task on concrete states by the simplifier: commands, frames and events are computed
  through all layers.  Used by the tests and the witnesses that run whole rounds.
\<close>

text \<open>Call by value: the continuation of \<open>and_then\<close> is left alone until its argument is there.\<close>

lemma and_then_strict: "and_then m f s = and_then m f s"
  by (rule refl)

text \<open>The read buffer keeps its name, so that its 4096 bytes are not written out.\<close>

definition read_buffer :: bytes where
  "read_buffer = replicate 4096 0"

lemma length_read_buffer [simp]: "length read_buffer = 4096"
  by (simp add: read_buffer_def)

lemma new_task_buffer:
  "new_task command_rx registry chs driver link tick_interval clock =
     \<lparr>tk_command_rx = command_rx, tk_registry = registry, tk_channels = chs, tk_driver = driver,
      tk_transport = link, tk_parser = new_parser, tk_read_buf = read_buffer,
      tk_tick_interval = tick_interval, tk_last_tick = shd clock, tk_router = default_router,
      tk_clock = stl clock\<rparr>"
  by (simp add: new_task_def read_buffer_def)

lemmas task_eval = new_task_buffer register_def default_registry_def default_router_def commands_arrive_def
  poll_command_def try_recv_cmd_def poll_incoming_def poll_tick_def read_one_packet_def drive_def instant_now_def
  handle_actions_eqs send_packet_def send_completion_to_def send_event_to_def on_channels_def
  registry_send_to_def send_event_def on_driver_state_def handle_incoming_publish_def fanout_publish_def
  fanout_loop.simps fake_read_def fake_write_all_def new_state_def

lemmas codec_more_eval = qos_try_from.simps qos_to_u8.simps
  from_utf8_def read_mqtt_string_def read_mqtt_bytes_def read_u8_def utf8_valid.simps
  decode_publish_def decode_subscribe_def decode_unsubscribe_def decode_suback_def decode_unsuback_def
  read_filters.simps read_filter_def read_topics.simps valid_suback_code_def
  encode_subscribe_def encode_unsubscribe_def encode_suback_def encode_unsuback_def encode_ping_def decode_ping_def
  next_packet_def next_frame_eq push_def new_parser_def

lemmas router_eval = total_def add_subscription_def remove_subscription_def matching_clients_def topic_matches_def
  match_loop.simps slash_def hash_def plus_def

lemmas round_eval = router_eval task_eval driver_eval codec_eval codec_more_eval publish_op_def subscribe_op_def
  unsubscribe_op_def

end
