(* ===== verification/Task_Keepalive.thy ===== *)
theory Task_Keepalive
  imports Task_Properties Reconnect_Replay Task_Eval
begin

text \<open>
  The keep-alive timer through the whole task: what rounds of the loop do when no client sends a command
  and the transport delivers nothing, down to the bytes written and the events the clients get.
\<close>

section \<open>A round without commands and bytes\<close>














section \<open>A broker that has gone silent\<close>





end
