(* ===== verification/Client_Host.thy ===== *)
theory Client_Host
  imports Task_Properties Reconnect_Properties
begin

text \<open>
  The client's side: ClientHandle of src/client.rs and RuntimeHost of src/runtime/host.rs.  The Sender
  of the command channel is shared with the task: the state of a client call is the handle and the
  command channel, with a flag that the task still holds the Receiver.
\<close>

section \<open>Client handles\<close>

record client_handle =
  hd_client_id :: nat
  hd_event_rx :: sender
  hd_next_token_id :: nat

record client_side =
  cs_handle :: client_handle
  cs_command_tx :: command_channel
  cs_task_alive :: bool

definition new_handle :: "nat \<Rightarrow> sender \<Rightarrow> client_handle" where
  "new_handle client_id event_rx =
     \<lparr>hd_client_id = client_id, hd_event_rx = event_rx, hd_next_token_id = 1\<rparr>"

type_synonym 'a client_op = "(client_side, command, 'a) op"

definition next_token_id :: "nat client_op" where
  "next_token_id =
     and_then (get (\<lambda>self. hd_next_token_id (cs_handle self))) (\<lambda>token.
     and_then (modify (\<lambda>self. self\<lparr>cs_handle := (cs_handle self)
       \<lparr>hd_next_token_id := hd_next_token_id (cs_handle self) + 1\<rparr>\<rparr>)) (\<lambda>_.
     ret token))"

text \<open>\<open>Sender::send\<close>: the SendError carries the command back.\<close>

definition send_command :: "command \<Rightarrow> unit client_op" where
  "send_command cmd =
     and_then (get cs_task_alive) (\<lambda>alive.
     if alive then
       modify (\<lambda>self. self\<lparr>cs_command_tx := (cs_command_tx self)\<lparr>cmd_queue := cmd_queue (cs_command_tx self) @ [cmd]\<rparr>\<rparr>)
     else throw cmd)"

definition client_publish :: "rstring \<Rightarrow> qos \<Rightarrow> bool \<Rightarrow> bytes \<Rightarrow> nat client_op" where
  "client_publish topic qos retain payload =
     and_then next_token_id (\<lambda>token_id.
     let publish = \<lparr>pub_dup = False, pub_qos = qos, pub_retain = retain, pub_topic = topic,
                    pub_pkid = 0, pub_payload = payload\<rparr> in
     and_then (get (\<lambda>self. hd_client_id (cs_handle self))) (\<lambda>client_id.
     and_then (send_command (C_Publish token_id publish client_id)) (\<lambda>_.
     ret token_id)))"

definition client_subscribe :: "rstring \<Rightarrow> qos \<Rightarrow> nat client_op" where
  "client_subscribe filt qos =
     and_then next_token_id (\<lambda>token_id.
     let subscribe = \<lparr>sub_pkid = 0, sub_filters = [\<lparr>filter_path = filt, filter_qos = qos\<rparr>]\<rparr> in
     and_then (get (\<lambda>self. hd_client_id (cs_handle self))) (\<lambda>client_id.
     and_then (send_command (C_Subscribe token_id subscribe client_id)) (\<lambda>_.
     ret token_id)))"

definition client_unsubscribe :: "rstring \<Rightarrow> nat client_op" where
  "client_unsubscribe filt =
     and_then next_token_id (\<lambda>token_id.
     let unsubscribe = \<lparr>unsub_pkid = 0, unsub_filters = [filt]\<rparr> in
     and_then (get (\<lambda>self. hd_client_id (cs_handle self))) (\<lambda>client_id.
     and_then (send_command (C_Unsubscribe token_id unsubscribe client_id)) (\<lambda>_.
     ret token_id)))"

text \<open>
  \<open>Receiver::recv\<close> takes the first event of the handle's channel.  On an empty channel it waits, which is
  None here, unless the Sender is gone; the only Sender of an event channel is the one in the registry,
  which host and task share.  That the whole registry is dropped, with host and task, is not modelled: the
  code answers RecvError then.
\<close>

definition recv_event ::
  "client_handle \<Rightarrow> 't runtime_task \<Rightarrow> ((unit, runtime_event) outcome \<times> 't runtime_task) option" where
  "recv_event self s =
     (let rx = hd_event_rx self; ch = tk_channels s rx in
      case ch_events ch of
        event # rest \<Rightarrow>
          Some (Ok event, s\<lparr>tk_channels := (tk_channels s)(rx := ch\<lparr>ch_events := rest\<rparr>)\<rparr>)
      | [] \<Rightarrow> if rx \<in> snd ` set (reg_event_txs (tk_registry s)) then None else Some (Err (), s))"

datatype client_request =
    Call_Publish rstring qos bool bytes
  | Call_Subscribe rstring qos
  | Call_Unsubscribe rstring

fun client_call :: "client_request \<Rightarrow> nat client_op" where
  "client_call (Call_Publish topic qos retain payload) = client_publish topic qos retain payload"
| "client_call (Call_Subscribe filt qos) = client_subscribe filt qos"
| "client_call (Call_Unsubscribe filt) = client_unsubscribe filt"

fun client_calls :: "client_request list \<Rightarrow> nat list client_op" where
  "client_calls [] = ret []"
| "client_calls (c # cs) =
     and_then (client_call c) (\<lambda>t. and_then (client_calls cs) (\<lambda>ts. ret (t # ts)))"

section \<open>The host\<close>

text \<open>
  \<open>RuntimeHost::new\<close>: the task it spawns, on the channel of commands and with the shared registry.  The
  ticks are nanoseconds; the tick interval is 100 milliseconds.
\<close>

definition new_host :: "'t \<Rightarrow> u16 \<Rightarrow> bool \<Rightarrow> channels \<Rightarrow> instant stream \<Rightarrow> (runtime_error, 't runtime_task) outcome" where
  "new_host link max_inflight clean_session chs clock =
     bind_outcome (new_state max_inflight (clock !! 0) (clock !! 1)) (\<lambda>state.
     let driver = new_driver state clean_session in
     Ok (new_task \<lparr>cmd_queue = [], cmd_sender_alive = True\<rparr> default_registry chs driver link
           (100 * 1000000) (sdrop 2 clock)))"

text \<open>\<open>channel()\<close> makes a new channel, number \<open>event_tx\<close> here, with nothing in it.\<close>

definition new_client :: "sender \<Rightarrow> 't runtime_task \<Rightarrow> client_handle \<times> 't runtime_task" where
  "new_client event_tx self =
     (let (client_id, reg) = register event_tx (tk_registry self)
      in (new_handle client_id event_tx,
          self\<lparr>tk_registry := reg,
               tk_channels := (tk_channels self)(event_tx := \<lparr>ch_events = [], ch_receiver_alive = True\<rparr>)\<rparr>))"

section \<open>Properties\<close>

lemma update_nonempty_append: "k \<notin> fst ` set al \<Longrightarrow> AList.update k v al = al @ [(k, v)]"
  by (induction al) auto

definition call_command :: "nat \<Rightarrow> nat \<Rightarrow> client_request \<Rightarrow> command" where
  "call_command client_id token c =
     (case c of
        Call_Publish topic qos retain payload \<Rightarrow>
          C_Publish token \<lparr>pub_dup = False, pub_qos = qos, pub_retain = retain, pub_topic = topic,
                           pub_pkid = 0, pub_payload = payload\<rparr> client_id
      | Call_Subscribe filt qos \<Rightarrow>
          C_Subscribe token \<lparr>sub_pkid = 0, sub_filters = [\<lparr>filter_path = filt, filter_qos = qos\<rparr>]\<rparr> client_id
      | Call_Unsubscribe filt \<Rightarrow> C_Unsubscribe token \<lparr>unsub_pkid = 0, unsub_filters = [filt]\<rparr> client_id)"

abbreviation after_call :: "client_request \<Rightarrow> client_side \<Rightarrow> client_side" where
  "after_call c s \<equiv> s\<lparr>cs_handle := (cs_handle s)\<lparr>hd_next_token_id := hd_next_token_id (cs_handle s) + 1\<rparr>,
     cs_command_tx := (cs_command_tx s)\<lparr>cmd_queue := cmd_queue (cs_command_tx s) @
       [call_command (hd_client_id (cs_handle s)) (hd_next_token_id (cs_handle s)) c]\<rparr>\<rparr>"

lemma client_call_eq:
  "cs_task_alive s \<Longrightarrow> client_call c s = (Ok (hd_next_token_id (cs_handle s)), after_call c s)"
  by (cases c) (simp_all add: client_publish_def client_subscribe_def client_unsubscribe_def
      next_token_id_def send_command_def call_command_def op_defs Let_def)

text \<open>
  Claim C34 (functional). A client's calls are numbered: while the task is alive, a sequence of publish,
  subscribe and unsubscribe calls on one handle returns consecutive token ids, no id twice, and
  appends to the command channel, in the order of the calls, one command each with the handle's client
  id, the returned token and no packet id yet.
\<close>
theorem client_calls_are_numbered:
  assumes "cs_task_alive s"
  shows "\<exists>s'. client_calls cs s =
      (Ok [hd_next_token_id (cs_handle s) ..< hd_next_token_id (cs_handle s) + length cs], s') \<and>
    cmd_queue (cs_command_tx s') = cmd_queue (cs_command_tx s) @
      map2 (call_command (hd_client_id (cs_handle s)))
        [hd_next_token_id (cs_handle s) ..< hd_next_token_id (cs_handle s) + length cs] cs"
  using assms
proof (induction cs arbitrary: s)
  case (Cons c cs)
  from Cons.IH [of "after_call c s"] Cons.prems obtain s' where
    "client_calls cs (after_call c s) =
       (Ok [Suc (hd_next_token_id (cs_handle s)) ..< Suc (hd_next_token_id (cs_handle s)) + length cs], s')"
    "cmd_queue (cs_command_tx s') = cmd_queue (cs_command_tx s) @
       call_command (hd_client_id (cs_handle s)) (hd_next_token_id (cs_handle s)) c #
       map2 (call_command (hd_client_id (cs_handle s)))
         [Suc (hd_next_token_id (cs_handle s)) ..< Suc (hd_next_token_id (cs_handle s)) + length cs] cs"
    by auto
  moreover have "[n ..< n + length (c # cs)] = n # [Suc n ..< Suc n + length cs]" for n
    by (simp add: upt_conv_Cons del: upt_Suc)
  ultimately show ?case
    using client_call_eq [OF Cons.prems, of c]
    by (simp add: and_then_def ret_def del: upt_Suc length_Cons)
qed (simp add: ret_def)

theorem client_calls_are_numbered_witness:
  "\<exists>s'. client_calls [Call_Subscribe (ascii ''a/+'') AtMostOnce, Call_Publish (ascii ''a/b'') AtLeastOnce False [1]]
      \<lparr>cs_handle = new_handle 3 0, cs_command_tx = \<lparr>cmd_queue = [], cmd_sender_alive = True\<rparr>, cs_task_alive = True\<rparr> =
    (Ok [1, 2], s')"
  using client_calls_are_numbered [of
      "\<lparr>cs_handle = new_handle 3 0, cs_command_tx = \<lparr>cmd_queue = [], cmd_sender_alive = True\<rparr>, cs_task_alive = True\<rparr>"
      "[Call_Subscribe (ascii ''a/+'') AtMostOnce, Call_Publish (ascii ''a/b'') AtLeastOnce False [1]]"]
  by (auto simp: new_handle_def upt_rec)

text \<open>
  Registration keeps clients apart: a new client gets an id no client has, its own
  event channel, empty and open, and the registry stays one where different clients have different
  channels; the other clients keep theirs.
\<close>
theorem new_client_is_separate:
  assumes "registry_inv (tk_registry s)" and "event_tx \<notin> snd ` set (reg_event_txs (tk_registry s))"
    and "new_client event_tx s = (h, s')"
  shows "registry_inv (tk_registry s') \<and> channel_of s (hd_client_id h) = None \<and>
    channel_of s' = (channel_of s)(hd_client_id h \<mapsto> event_tx) \<and> hd_event_rx h = event_tx \<and>
    hd_next_token_id h = 1 \<and> tk_channels s' event_tx = \<lparr>ch_events = [], ch_receiver_alive = True\<rparr> \<and>
    (\<forall>c tx. channel_of s c = Some tx \<longrightarrow> tk_channels s' tx = tk_channels s tx)"
proof -
  let ?reg = "tk_registry s" and ?id = "reg_next_id (tk_registry s) + 1"
  have "\<forall>(c, tx) \<in> set (reg_event_txs ?reg). c \<le> reg_next_id ?reg"
    using assms(1) by (simp add: registry_inv_def list_all_iff)
  then have f: "?id \<notin> fst ` set (reg_event_txs ?reg)" by auto
  then have u: "AList.update ?id event_tx (reg_event_txs ?reg) = reg_event_txs ?reg @ [(?id, event_tx)]"
    by (rule update_nonempty_append)
  have n: "map_of (reg_event_txs ?reg) ?id = None" using f by (simp add: map_of_eq_None_iff)
  have s': "h = new_handle ?id event_tx" "s' = s\<lparr>tk_registry := ?reg\<lparr>reg_next_id := ?id,
      reg_event_txs := reg_event_txs ?reg @ [(?id, event_tx)]\<rparr>,
      tk_channels := (tk_channels s)(event_tx := \<lparr>ch_events = [], ch_receiver_alive = True\<rparr>)\<rparr>"
    using assms(3) u by (simp_all add: new_client_def register_def Let_def)
  have "registry_inv (tk_registry s')"
    using assms(1,2) f by (auto simp: s' registry_inv_def list_all_iff)
  moreover have "channel_of s' = (channel_of s)(?id \<mapsto> event_tx)"
    using n by (auto simp: s' channel_of_def fun_eq_iff map_add_def split: option.split)
  moreover have "tk_channels s' tx = tk_channels s tx" if "channel_of s c = Some tx" for c tx
    using that assms(2) by (force simp: s' channel_of_def dest: map_of_SomeD)
  ultimately show ?thesis using n by (simp add: s' new_handle_def channel_of_def)
qed

theorem new_client_is_separate_witness:
  "\<exists>h s'. new_client 2 (demo_task (new_driver small_state False) []) = (h, s') \<and> hd_client_id h = 5 \<and>
    registry_inv (tk_registry s') \<and> channel_of s' 5 = Some 2 \<and> channel_of s' 3 = Some 0"
proof -
  let ?s = "demo_task (new_driver small_state False) []"
  obtain h s' where n: "new_client 2 ?s = (h, s')" by (cases "new_client 2 ?s")
  have i: "registry_inv (tk_registry ?s)" "2 \<notin> snd ` set (reg_event_txs (tk_registry ?s))"
    by (simp_all add: registry_inv_def)
  have "hd_client_id h = 5" using n by (auto simp: new_client_def register_def new_handle_def Let_def)
  with new_client_is_separate [OF i n] n show ?thesis
    by (intro exI [of _ h] exI [of _ s']) (simp add: channel_of_def)
qed

section \<open>The host never goes online\<close>

lemma keeps_active_fields [keeps_intros]:
  "keeps active (in_store m)" "keeps active (in_pool m')" "keeps active (idx k)"
  by (auto simp: keeps_def in_store_def in_pool_def on_field_def idx_eq split: prod.split)

lemma keeps_active_small [keeps_intros]:
  "keeps active (note_incoming_activity now)" "keeps active (note_outgoing_activity now)"
  "keeps active (on_pingresp now)" "keeps active (push_pending op)"
  unfolding note_incoming_activity_def note_outgoing_activity_def on_pingresp_def push_pending_def
  by (intro keeps_intros keeps_modify; simp)+

lemma keeps_active_acks [keeps_intros]:
  "keeps active (promote_collision k)" "keeps active (on_puback_checked k)" "keeps active (on_pubcomp_checked k)"
  "keeps active (on_pubrec_checked k)" "keeps active (on_incoming_qos2_publish_checked k)"
  "keeps active (on_incoming_pubrel_checked k)" "keeps active (on_suback_checked k)"
  "keeps active (on_unsuback_checked k)"
proof -
  show p: "keeps active (promote_collision k)" for k
    unfolding promote_collision_def by (auto intro!: keeps_intros simp: Let_def split: option.split)
  show "keeps active (on_puback_checked k)" "keeps active (on_pubcomp_checked k)"
    "keeps active (on_pubrec_checked k)" "keeps active (on_incoming_qos2_publish_checked k)"
    "keeps active (on_incoming_pubrel_checked k)"
    unfolding on_puback_checked_def on_pubcomp_checked_def on_pubrec_checked_def
      on_incoming_qos2_publish_checked_def on_incoming_pubrel_checked_def Let_def
    by (intro keeps_intros p)+
  show "keeps active (on_suback_checked k)" "keeps active (on_unsuback_checked k)"
    unfolding on_suback_checked_def on_unsuback_checked_def
    by (auto intro!: keeps_intros split: command.split)
qed

lemma keeps_active_submit [keeps_intros]: "keeps active (submit tracked k0 mk wire)"
  unfolding submit_def assign_pkid_def insert_or_park_def by (intro keeps_intros)

text \<open>Handling a command or a packet leaves the activity as it is and asks for no reconnect.\<close>

definition calm :: "driver_action list state_op \<Rightarrow> bool" where
  "calm m \<longleftrightarrow> (\<forall>st acts st'. m st = (Ok acts, st') \<longrightarrow> reconnects acts = 0)"

lemma calm_intros:
  "calm (ret [])" "calm (throw e)" "calm (ret [A_Send p])" "calm (ret [A_SubscribeAckFor c fs d])"
  "calm (ret [A_UnsubscribeAckFor c ts d])"
  by (simp_all add: calm_def ret_def throw_def reconnects_def)

lemma calm_and_then: "(\<And>x. calm (f x)) \<Longrightarrow> calm (and_then m f)"
  unfolding calm_def and_then_Ok_iff by blast

lemma calm_sends: "calm (send_if_some now p)" "calm (complete_ack now a)"
  unfolding send_if_some_def complete_ack_def
  by (auto simp: calm_def and_then_Ok_iff ret_Ok_iff reconnects_def split: option.splits)

lemma handle_command_calm: "keeps active (handle_command clock c)" "calm (handle_command clock c)"
proof -
  have s: "keeps active (send_if_some now p)" for now p
    unfolding send_if_some_def by (auto intro!: keeps_intros split: option.split)
  show "keeps active (handle_command clock c)"
    by (cases c) (auto simp: handle_command_def on_command_submit intro!: keeps_intros s)
  show "calm (handle_command clock c)"
    by (cases c) (auto simp: handle_command_def intro!: calm_and_then calm_sends calm_intros)
qed

lemma handle_incoming_calm: "keeps active (handle_incoming p now)" "calm (handle_incoming p now)"
proof -
  have a: "keeps active (complete_ack now x)" for x
    unfolding complete_ack_def send_if_some_def by (auto intro!: keeps_intros split: option.split)
  show "keeps active (handle_incoming p now)"
    unfolding handle_incoming_def
    by (auto intro!: keeps_intros a split: packet.split incoming_qos2_result.split)
  show "calm (handle_incoming p now)"
    unfolding handle_incoming_def
    by (auto intro!: calm_and_then calm_sends calm_intros split: packet.split incoming_qos2_result.split)
qed

definition offline :: "'t runtime_task \<Rightarrow> bool" where
  "offline s \<longleftrightarrow> \<not> active (drv_state (tk_driver s))"

text \<open>\<open>stays_offline m\<close>: from an inactive state the operation ends in one, whatever its outcome.\<close>

definition stays_offline :: "('t, 'io, 'a) task_op \<Rightarrow> bool" where
  "stays_offline m \<longleftrightarrow> (\<forall>s. offline s \<longrightarrow> offline (snd (m s)))"

lemma stays_keeps: "keeps offline m \<Longrightarrow> stays_offline m"
  by (simp add: stays_offline_def keeps_def)

lemma stays_and_then:
  fixes m :: "('t, 'io, 'a) task_op" and f :: "'a \<Rightarrow> ('t, 'io, 'b) task_op"
  assumes "stays_offline m" and "\<And>x s s'. offline s \<Longrightarrow> m s = (Ok x, s') \<Longrightarrow> stays_offline (f x)"
  shows "stays_offline (and_then m f)"
  unfolding stays_offline_def
proof (intro allI impI)
  fix s :: "'t runtime_task" assume s: "offline s"
  obtain r s' where m: "m s = (r, s')" by (cases "m s")
  then have o: "offline s'" using assms(1) s unfolding stays_offline_def by (metis snd_conv)
  show "offline (snd (and_then m f s))"
  proof (cases r)
    case (Ok x)
    then show ?thesis using m o assms(2) [OF s] by (simp add: stays_offline_def)
  qed (use m o in \<open>simp_all add: and_then_def\<close>)
qed

lemma offline_router [simp]: "offline (s\<lparr>tk_router := r\<rparr>) = offline s"
  by (simp add: offline_def)

lemma keeps_offline_fields [keeps_intros]:
  "keeps offline instant_now" "keeps offline (on_channels m)" "keeps offline (with_local t m')"
  "keeps offline (on_field tk_transport (\<lambda>t self. self\<lparr>tk_transport := t\<rparr>) m'')"
  "keeps offline (on_field tk_parser (\<lambda>t self. self\<lparr>tk_parser := t\<rparr>) m3)"
  by (auto simp: keeps_def instant_now_def op_combinators on_channels_def offline_def
      split: prod.split outcome.split)

lemma keeps_offline_driver [keeps_intros]:
  fixes m :: "'a state_op"
  assumes "keeps active m"
  shows "keeps offline (on_driver_state m :: ('t, 'io, 'a) task_op)"
  unfolding keeps_def
proof
  fix s :: "'t runtime_task"
  obtain r st where m: "m (drv_state (tk_driver s)) = (r, st)" by (cases "m (drv_state (tk_driver s))")
  then have a: "active st = active (drv_state (tk_driver s))" by (rule keepsD [OF assms])
  have "on_driver_state m s =
      ((map_err TE_Runtime r, s\<lparr>tk_driver := (tk_driver s)\<lparr>drv_state := st\<rparr>\<rparr>) ::
        ('io runtime_task_error, 'a) outcome \<times> 't runtime_task)"
    by (rule on_driver_state_run) (rule m)
  then show "offline (snd (on_driver_state m s :: ('io runtime_task_error, 'a) outcome \<times> 't runtime_task)) = offline s"
    using a by (simp add: offline_def)
qed

lemma keeps_offline_send [keeps_intros]: "keeps offline (send_packet w p)"
  unfolding send_packet_def by (intro keeps_intros)

lemma keeps_offline_events [keeps_intros]:
  "keeps offline (send_event_to c e)" "keeps offline (fanout_publish p)" "keeps offline (send_completion_to c d)"
proof -
  show e: "keeps offline (send_event_to c e)" for c e unfolding send_event_to_def by (intro keeps_intros)
  then show "keeps offline (send_completion_to c d)" by (simp add: send_completion_to_def)
  have "keeps offline (fanout_loop ids p)" for ids by (induction ids) (auto intro!: keeps_intros e)
  then show "keeps offline (fanout_publish p)" unfolding fanout_publish_def by (intro keeps_intros)
qed

lemma keeps_offline_actions: "reconnects as = 0 \<Longrightarrow> keeps offline (handle_actions w as)"
proof (induction as)
  case (Cons a as)
  then show ?case
    by (cases a) (auto simp: handle_actions_eqs reconnects_def intro!: keeps_intros keeps_modify)
qed (simp add: handle_actions_eqs keeps_basic)

lemma drive_offline:
  assumes "offline s" and "\<And>now clean. e \<noteq> D_ConnectionRestored now \<and> e \<noteq> D_ConnectionLost clean"
    and "drive e s = (r, s')"
  shows "offline s'" "r = Ok acts \<Longrightarrow> reconnects acts = 0"
proof -
  obtain r' d where h: "handle_event (shd (tk_clock s)) e (tk_driver s) = (r', d)"
    by (cases "handle_event (shd (tk_clock s)) e (tk_driver s)")
  have "\<not> active (drv_state d) \<and> (\<forall>acts. r' = Ok acts \<longrightarrow> reconnects acts = 0)"
  proof (cases e)
    case (D_Tick now)
    then show ?thesis using h assms(1)
      by (auto simp: tick_event_eq handle_tick_eq offline_def reconnects_def split: prod.splits)
  next
    case (D_Command c)
    then show ?thesis using h assms(1) handle_command_calm [of "shd (tk_clock s)" c]
      by (auto simp: command_event_eq offline_def calm_def keeps_def split: prod.splits)
  next
    case (D_Incoming p now)
    then show ?thesis using h assms(1) handle_incoming_calm [of p now]
      by (auto simp: incoming_eq offline_def calm_def keeps_def split: prod.splits)
  qed (use assms(2) in auto)
  then show "offline s'" "r = Ok acts \<Longrightarrow> reconnects acts = 0"
    using assms(3) h
    by (auto simp: drive_def instant_now_def op_combinators offline_def)
qed

lemma stays_drive:
  assumes "\<And>now clean. e \<noteq> D_ConnectionRestored now \<and> e \<noteq> D_ConnectionLost clean"
  shows "stays_offline (and_then (drive e) (handle_actions w))"
proof (rule stays_and_then)
  show "stays_offline (drive e)"
    unfolding stays_offline_def by (metis assms drive_offline(1) prod.collapse)
  show "stays_offline (handle_actions w x)" if "offline s" "drive e s = (Ok x, s')" for x s s'
    using drive_offline(2) [OF that(1) assms that(2)] by (intro stays_keeps keeps_offline_actions) simp
qed

lemma stays_leaves:
  "stays_offline (ret x)" "stays_offline (throw e)" "stays_offline (get g)" "stays_offline instant_now"
  by (intro stays_keeps keeps_intros)+

lemma stays_events:
  "stays_offline (and_then (drive (D_Command c)) (handle_actions w))"
  "stays_offline (and_then (drive (D_Incoming p now)) (handle_actions w))"
  "stays_offline (and_then (drive (D_Tick now)) (handle_actions w))"
  by (rule stays_drive; simp)+

lemma stays_then: "stays_offline m \<Longrightarrow> (\<And>x. stays_offline (f x)) \<Longrightarrow> stays_offline (and_then m f)"
  by (rule stays_and_then)

lemma stays_command: "stays_offline (poll_command write_all)"
proof -
  have "keeps offline try_recv_cmd"
    unfolding try_recv_cmd_def by (auto intro!: keeps_intros keeps_modify simp: offline_def split: list.split)
  then show ?thesis
    unfolding poll_command_def
    by (intro stays_then) (auto intro: stays_keeps stays_leaves stays_events split: try_recv.split)
qed

lemma stays_incoming: "stays_offline (poll_incoming read write_all)"
proof -
  have p: "keeps offline (handle_incoming_publish write_all p now)" for p now
    unfolding handle_incoming_publish_def
    by (auto intro!: keeps_intros split: qos.split incoming_qos2_result.split)
  have r: "keeps offline (read_one_packet read)"
    by (auto simp: read_one_packet_def keeps_def op_combinators offline_def split: prod.split outcome.split)
  have "stays_offline (and_then instant_now (\<lambda>now. case q of
      P_Publish publish \<Rightarrow> handle_incoming_publish write_all publish now
    | other \<Rightarrow> and_then (drive (D_Incoming other now)) (handle_actions write_all)))" for q
    by (rule stays_then [OF stays_leaves(4)]) (cases q; simp add: stays_events stays_keeps [OF p])
  then show ?thesis
    unfolding poll_incoming_def
    by (intro stays_then stays_keeps [OF r]) (simp add: stays_leaves split: option.split)
qed

lemma stays_last_tick: "stays_offline (modify (\<lambda>self. self\<lparr>tk_last_tick := now\<rparr>))"
  by (rule stays_keeps [OF keeps_modify]) (simp add: offline_def)

lemma stays_if: "stays_offline m \<Longrightarrow> stays_offline m' \<Longrightarrow> stays_offline (if c then m else m')"
  by simp

lemma stays_tick: "stays_offline (poll_tick write_all)"
  unfolding poll_tick_def by (intro stays_then stays_if stays_leaves stays_last_tick stays_events)

lemma stays_rounds: "stays_offline (run_rounds read write_all arrivals)"
proof (induction arrivals)
  case (Cons cmds arrivals)
  have "keeps offline (commands_arrive cmds)"
    unfolding commands_arrive_def by (rule keeps_modify) (simp add: offline_def)
  then show ?case
    unfolding run_rounds.simps poll_round_def
    by (intro stays_then stays_command stays_incoming stays_tick stays_keeps Cons)
qed (simp add: stays_leaves)

text \<open>
  Claim C40 (safety). A hosted client never goes online: from the state RuntimeHost::new starts its task
  in, whatever the clients send, the broker answers and the clock reads, and whatever the transport
  does, no number of rounds of the loop makes the runtime active: nothing in the crate raises the
  ConnectionRestored event except the reconnect that an active driver asks for.
\<close>
theorem host_never_goes_online:
  fixes read :: "('t, 'io) transport_read"
  assumes "new_host link max_inflight clean_session chs clock = Ok task"
  shows "\<not> active (drv_state (tk_driver (snd (run_rounds read write_all arrivals task))))"
proof -
  have "offline task"
    using assms by (auto simp: new_host_def bind_outcome_Ok_iff new_state_def new_with_keep_alive_def
        offline_def new_driver_def new_task_def Let_def)
  then show ?thesis using stays_rounds unfolding stays_offline_def offline_def by blast
qed

theorem host_never_goes_online_witness:
  "\<exists>task. new_host \<lparr>ft_reads = [[0x20, 2, 0, 0]], ft_writes = []\<rparr> 10 True (\<lambda>_. \<lparr>ch_events = [], ch_receiver_alive = True\<rparr>) (sconst 0) = Ok task \<and>
    \<not> active (drv_state (tk_driver (snd (run_rounds demo_read demo_write [[C_Publish 7 (small_publish AtLeastOnce 0) 1]] task))))"
proof -
  let ?h = "new_host \<lparr>ft_reads = [[0x20, 2, 0, 0]], ft_writes = []\<rparr> 10 True (\<lambda>_. \<lparr>ch_events = [], ch_receiver_alive = True\<rparr>) (sconst 0)"
  obtain task where t: "?h = Ok task"
    by (simp add: new_host_def new_state_def new_with_keep_alive_def new_pool_def Let_def)
  show ?thesis by (rule exI [of _ task]) (rule conjI [OF t host_never_goes_online [OF t]])
qed

end
