(* ===== verification/End_To_End.thy ===== *)
theory End_To_End
  imports Client_Host Codec_Properties
begin

text \<open>
  Properties that run through every layer: bytes on the wire, the frame parser, the driver, the
  session state, the router and the clients' channels.
\<close>

section \<open>One packet in\<close>

lemma next_packet_frame:
  assumes "legal_packet p" and "fits_packet p" and "length (wire_body p) \<le> MAX_REMAINING_LEN"
  shows "next_packet \<lparr>fp_buf = wire_frame p\<rparr> = (Ok (Some p), new_parser)"
proof -
  have "encode_packet p [] = (Ok (), wire_frame p)"
    using encode_packet_legal [OF assms(1), of "[]"] assms(3) by simp
  from parser_step_encoded [OF this assms(2)] show ?thesis
    by (cases "next_packet \<lparr>fp_buf = wire_frame p\<rparr>")
      (auto simp: parser_step_def new_parser_def split: if_splits)
qed

text \<open>The next read hands over exactly one frame, and keeps the length of the buffer.\<close>

definition delivers :: "('t, 'io) transport_read \<Rightarrow> packet \<Rightarrow> bytes \<Rightarrow> 't \<Rightarrow> 't \<Rightarrow> bool" where
  "delivers read p buf t t' \<longleftrightarrow>
     (\<exists>rest. read buf t = (Ok (length (wire_frame p)), wire_frame p @ rest, t') \<and>
        length (wire_frame p @ rest) = length buf)"

lemma read_one_packet_frame:
  fixes s :: "'t runtime_task" and read :: "('t, 'io) transport_read"
  assumes "legal_packet p" and "fits_packet p" and "length (wire_body p) \<le> MAX_REMAINING_LEN"
    and "tk_parser s = new_parser" and "delivers read p (tk_read_buf s) (tk_transport s) t'"
  shows "\<exists>buf. length buf = length (tk_read_buf s) \<and>
    read_one_packet read s = (Ok (Some p), s\<lparr>tk_read_buf := buf, tk_transport := t'\<rparr>)"
proof -
  obtain rest where r: "read (tk_read_buf s) (tk_transport s) = (Ok (length (wire_frame p)), wire_frame p @ rest, t')"
    and len: "length (wire_frame p @ rest) = length (tk_read_buf s)"
    using assms(5) by (auto simp: delivers_def)
  have n: "length (wire_frame p) \<noteq> 0" by (simp add: wire_frame_def)
  have pk: "next_packet \<lparr>fp_buf = wire_frame p\<rparr> = (Ok (Some p), \<lparr>fp_buf = []\<rparr>)"
    using next_packet_frame [OF assms(1-3)] by (simp add: new_parser_def)
  have "s\<lparr>tk_read_buf := wire_frame p @ rest, tk_transport := t', tk_parser := \<lparr>fp_buf = []\<rparr>\<rparr>
      = s\<lparr>tk_read_buf := wire_frame p @ rest, tk_transport := t'\<rparr>"
    using assms(4) by (cases s) (simp add: new_parser_def)
  then show ?thesis
    using r n pk assms(4) len
    by (intro exI [of _ "wire_frame p @ rest"])
      (simp add: read_one_packet_def op_combinators slice_def push_def new_parser_def)
qed

section \<open>A QoS 1 publish, from the command to the completion\<close>

lemma assign_new_pkid:
  assumes "state_inv st"
  shows "assign_pkid True 0 st =
    (Ok (next_id (pkid_pool st)), st\<lparr>pkid_pool := (pkid_pool st)\<lparr>last_pkid := next_id (pkid_pool st)\<rparr>\<rparr>)"
    "next_id (pkid_pool st) \<noteq> 0" "unat (next_id (pkid_pool st)) < length (outgoing (inflight st))"
    "state_inv (st\<lparr>pkid_pool := (pkid_pool st)\<lparr>last_pkid := next_id (pkid_pool st)\<rparr>\<rparr>)"
proof -
  note i = state_invD [OF assms]
  have "last_pkid (pkid_pool st) \<noteq> 0xFFFF"
    using i(1,2,3) u16_ge_FFFF [of "pool_max_inflight (pkid_pool st)"] by (auto simp: pool_inv_def)
  then show "assign_pkid True 0 st =
    (Ok (next_id (pkid_pool st)), st\<lparr>pkid_pool := (pkid_pool st)\<lparr>last_pkid := next_id (pkid_pool st)\<rparr>\<rparr>)"
    by (simp add: assign_pkid_def in_pool_def on_field_def next_candidate_eq)
  show "next_id (pkid_pool st) \<noteq> 0" using next_id_range(3) [OF i(1)] .
  show "unat (next_id (pkid_pool st)) < length (outgoing (inflight st))"
    using next_id_range(2) [OF i(1)] i(2,4) by (simp add: store_inv_def word_le_nat_alt)
  show "state_inv (st\<lparr>pkid_pool := (pkid_pool st)\<lparr>last_pkid := next_id (pkid_pool st)\<rparr>\<rparr>)"
    using assms next_id_inv [OF i(1)] by (simp add: state_inv_def)
qed

text \<open>The state after a publish has taken the next packet id and its slot.\<close>

definition publishing_state :: "nat \<Rightarrow> publish \<Rightarrow> nat \<Rightarrow> runtime_state \<Rightarrow> runtime_state" where
  "publishing_state t p c st =
     (let k = next_id (pkid_pool st) in
      st\<lparr>pkid_pool := (pkid_pool st)\<lparr>last_pkid := k\<rparr>,
         inflight := with_slot k (Some (publish_op t (p\<lparr>pub_pkid := k\<rparr>) c))
           (inflight_count (inflight st) + 1) (inflight st)\<rparr>)"

lemma publish_accepted:
  assumes "state_inv st" and "active st" and "pub_qos p \<noteq> AtMostOnce" and "pub_pkid p = 0"
    and "inflight_count (inflight st) < store_max_inflight (inflight st)"
    and "slot_of (inflight st) (next_id (pkid_pool st)) = None"
  defines "k \<equiv> next_id (pkid_pool st)"
  shows "handle_command clock (C_Publish t p c) st =
      (Ok [A_Send (P_Publish (p\<lparr>pub_pkid := k\<rparr>))], (publishing_state t p c st)\<lparr>last_outgoing := clock\<rparr>)"
    and "state_inv (publishing_state t p c st)"
    and "slot_of (inflight (publishing_state t p c st)) =
      (slot_of (inflight st))(k \<mapsto> publish_op t (p\<lparr>pub_pkid := k\<rparr>) c)"
proof -
  let ?op = "publish_op t (p\<lparr>pub_pkid := k\<rparr>) c" and ?st = "st\<lparr>pkid_pool := (pkid_pool st)\<lparr>last_pkid := k\<rparr>\<rparr>"
  note a = assign_new_pkid [OF assms(1), folded k_def]
  have i: "insert_or_park k ?op ?st = (Ok True, publishing_state t p c st)"
    using assms(5,6) a(3)
    by (simp add: insert_or_park_eq publishing_state_def Let_def linorder_not_le linorder_not_less k_def)
  show "handle_command clock (C_Publish t p c) st =
      (Ok [A_Send (P_Publish (p\<lparr>pub_pkid := k\<rparr>))], (publishing_state t p c st)\<lparr>last_outgoing := clock\<rparr>)"
    using assms(2-4) a(1) i
    by (simp add: handle_command_def on_command_submit submit_def and_then_def get_def ret_def)
  have "op_carries k ?op" using a(2) assms(3) by (simp add: ops_carry)
  from insert_or_park_spec [OF a(4) _ this] assms(2) i
  show "state_inv (publishing_state t p c st)" by auto
  show "slot_of (inflight (publishing_state t p c st)) = (slot_of (inflight st))(k \<mapsto> ?op)"
    using slot_of_with_slot [OF a(3)] by (simp add: publishing_state_def Let_def k_def)
qed

text \<open>A command whose handling sends one packet, and a packet read from the transport.\<close>

lemma poll_command_sends:
  fixes s :: "'t runtime_task" and write_all :: "('t, 'io) transport_write"
  assumes "cmd_queue (tk_command_rx s) = cmd # rest"
    and "handle_command (shd (tk_clock s)) cmd (drv_state (tk_driver s)) = (Ok [A_Send q], st)"
    and "legal_packet q" and "length (wire_body q) \<le> MAX_REMAINING_LEN"
    and "fst (write_all (wire_frame q) (tk_transport s)) = Ok ()"
  shows "poll_command write_all s = (Ok (), s\<lparr>tk_command_rx := (tk_command_rx s)\<lparr>cmd_queue := rest\<rparr>,
    tk_clock := stl (stl (tk_clock s)), tk_transport := snd (write_all (wire_frame q) (tk_transport s)),
    tk_driver := (tk_driver s)\<lparr>drv_state := st\<lparr>last_outgoing := shd (stl (tk_clock s))\<rparr>\<rparr>\<rparr>)"
proof -
  let ?s = "s\<lparr>tk_command_rx := (tk_command_rx s)\<lparr>cmd_queue := rest\<rparr>, tk_clock := stl (tk_clock s),
    tk_driver := (tk_driver s)\<lparr>drv_state := st\<rparr>\<rparr>"
  have "write_all (wire_frame q) (tk_transport ?s) = (Ok (), snd (write_all (wire_frame q) (tk_transport s)))"
    using assms(5) by (cases "write_all (wire_frame q) (tk_transport s)") simp
  from send_packet_ok [OF assms(3,4), of write_all ?s, OF this] assms(1,2) show ?thesis
    by (simp add: poll_command_def try_recv_cmd_def drive_def instant_now_def op_defs command_event_eq
        handle_actions_eqs)
qed

lemma poll_incoming_acts:
  fixes s :: "'t runtime_task" and read :: "('t, 'io) transport_read"
  assumes "legal_packet p" and "fits_packet p" and "length (wire_body p) \<le> MAX_REMAINING_LEN"
    and "tk_parser s = new_parser" and "delivers read p (tk_read_buf s) (tk_transport s) t'"
    and "\<And>pub. p \<noteq> P_Publish pub"
    and "handle_incoming p (shd (tk_clock s)) (drv_state (tk_driver s)) = (Ok acts, st)"
  shows "\<exists>buf. length buf = length (tk_read_buf s) \<and> poll_incoming read write_all s = handle_actions write_all acts
    (s\<lparr>tk_read_buf := buf, tk_transport := t', tk_clock := stl (stl (tk_clock s)),
       tk_driver := (tk_driver s)\<lparr>drv_state := st\<rparr>\<rparr>)"
proof -
  from read_one_packet_frame [OF assms(1-5)] obtain buf where
    b: "length buf = length (tk_read_buf s)"
    and r: "read_one_packet read s = (Ok (Some p), s\<lparr>tk_read_buf := buf, tk_transport := t'\<rparr>)" by blast
  have "(case p of P_Publish pub \<Rightarrow> f pub | _ \<Rightarrow> g) = g" for f :: "publish \<Rightarrow> 'x" and g
    using assms(6) by (cases p) auto
  then have "poll_incoming read write_all s =
      and_then instant_now (\<lambda>now. and_then (drive (D_Incoming p now)) (handle_actions write_all))
        (s\<lparr>tk_read_buf := buf, tk_transport := t'\<rparr>)"
    using r by (cases p) (simp_all add: poll_incoming_def and_then_def)
  then show ?thesis
    using assms(7) b
    by (intro exI [of _ buf]) (simp add: drive_def instant_now_def op_defs incoming_eq)
qed

lemma puback_fits:
  "k \<noteq> 0 \<Longrightarrow> legal_packet (P_PubAck \<lparr>puback_pkid = k\<rparr>)" "fits_packet (P_PubAck \<lparr>puback_pkid = k\<rparr>)"
  "length (wire_body (P_PubAck \<lparr>puback_pkid = k\<rparr>)) \<le> MAX_REMAINING_LEN"
  by (simp_all add: MAX_REMAINING_LEN_def)

text \<open>A client that receives n times; None when one of the calls would block.\<close>

primrec recv_events ::
  "nat \<Rightarrow> client_handle \<Rightarrow> 't runtime_task \<Rightarrow> ((unit, runtime_event) outcome list \<times> 't runtime_task) option" where
  "recv_events 0 self s = Some ([], s)"
| "recv_events (Suc n) self s =
     (case recv_event self s of
        None \<Rightarrow> None
      | Some (r, s1) \<Rightarrow> map_option (\<lambda>(rs, s2). (r # rs, s2)) (recv_events n self s1))"

lemma recv_events_queued:
  "ch_events (tk_channels s (hd_event_rx h)) = es @ rest \<Longrightarrow>
     map_option fst (recv_events (length es) h s) = Some (map Ok es)"
proof (induction es arbitrary: s)
  case (Cons e es)
  let ?rx = "hd_event_rx h"
  let ?s = "s\<lparr>tk_channels := (tk_channels s)(?rx := (tk_channels s ?rx)\<lparr>ch_events := es @ rest\<rparr>)\<rparr>"
  have "recv_event h s = Some (Ok e, ?s)" using Cons.prems by (simp add: recv_event_def Let_def)
  moreover have "map_option fst (recv_events (length es) h ?s) = Some (map Ok es)" by (rule Cons.IH) simp
  ultimately show ?case by (auto split: option.splits)
qed simp

text \<open>
  Claim C10 (functional). A QoS 1 publish, end to end.  The session is online and satisfies its invariant,
  the window has room, the next packet id is free and no operation waits for it; the publish has no id
  of its own yet and fits a frame.  Then one poll of the command queue hands the
  transport the frame of the publish under that id, and, the write succeeding, holds the operation in
  its slot.  When the next read delivers the PUBACK for it, whole and with nothing of an earlier frame
  left in the parser, one poll of the transport appends the completion, with the command's token and
  packet id, to the event channel of the client that asked, whose receiver is alive, and the client
  receives the events that were there before, in order, and then the completion; no other channel
  changes and the slot is free again.
\<close>
theorem qos1_publish_end_to_end:
  fixes s :: "'t runtime_task" and read :: "('t, 'io) transport_read" and write_all :: "('t, 'io) transport_write"
  assumes "state_inv (drv_state (tk_driver s))" and "active (drv_state (tk_driver s))"
    and "\<forall>op'. collision (inflight (drv_state (tk_driver s))) \<noteq> Some (k, op')"
    and "inflight_count (inflight (drv_state (tk_driver s))) < store_max_inflight (inflight (drv_state (tk_driver s)))"
    and "k = next_id (pkid_pool (drv_state (tk_driver s)))"
    and "slot_of (inflight (drv_state (tk_driver s))) k = None"
    and "cmd_queue (tk_command_rx s) = C_Publish t p c # rest" and "pub_qos p = AtLeastOnce" and "pub_pkid p = 0"
    and "q = p\<lparr>pub_pkid := k\<rparr>" and "length (wire_body (P_Publish q)) \<le> MAX_REMAINING_LEN"
    and "fst (write_all (wire_frame (P_Publish q)) (tk_transport s)) = Ok ()"
    and "channel_of s c = Some tx" and "ch_receiver_alive (tk_channels s tx)"
    and "hd_event_rx h = tx" and "tk_parser s = new_parser"
    and "delivers read (P_PubAck \<lparr>puback_pkid = k\<rparr>) (tk_read_buf s)
      (snd (write_all (wire_frame (P_Publish q)) (tk_transport s))) tr"
  shows "\<exists>s1 s2. poll_command write_all s = (Ok (), s1) \<and>
    tk_transport s1 = snd (write_all (wire_frame (P_Publish q)) (tk_transport s)) \<and>
    slot_of (inflight (drv_state (tk_driver s1))) k = Some (publish_op t q c) \<and> tk_channels s1 = tk_channels s \<and>
    poll_incoming read write_all s1 = (Ok (), s2) \<and>
    slot_of (inflight (drv_state (tk_driver s2))) = slot_of (inflight (drv_state (tk_driver s))) \<and>
    tk_channels s2 = (tk_channels s)(tx := appended (RE_Completion (Done_PubAck t k)) (tk_channels s tx)) \<and>
    map_option fst (recv_events (Suc (length (ch_events (tk_channels s tx)))) h s2) =
      Some (map Ok (ch_events (tk_channels s tx) @ [RE_Completion (Done_PubAck t k)]))"
proof -
  let ?st = "drv_state (tk_driver s)" and ?op = "publish_op t q c" and ?pa = "P_PubAck \<lparr>puback_pkid = k\<rparr>"
  let ?st1 = "(publishing_state t p c ?st)\<lparr>last_outgoing := shd (stl (tk_clock s))\<rparr>"
  let ?t1 = "snd (write_all (wire_frame (P_Publish q)) (tk_transport s))"
  have tr: "pub_qos p \<noteq> AtMostOnce" using assms(8) by simp
  note a = publish_accepted [OF assms(1,2) tr assms(9) assms(4) assms(6) [unfolded assms(5)],
      folded assms(5), folded assms(10)]
  have k: "k \<noteq> 0" using assign_new_pkid(2) [OF assms(1)] assms(5) by simp
  have lq: "legal_packet (P_Publish q)" using k assms(8,10) by simp
  note w = assms(12)
  obtain s1 where s1: "poll_command write_all s = (Ok (), s1)"
    "tk_transport s1 = ?t1" "drv_state (tk_driver s1) = ?st1" "tk_channels s1 = tk_channels s"
    "tk_parser s1 = new_parser" "tk_registry s1 = tk_registry s" "tk_read_buf s1 = tk_read_buf s"
    using poll_command_sends [OF assms(7) a(1) [of "shd (tk_clock s)" t c] lq assms(11), of write_all, OF w] assms(16)
    by simp
  have i1: "state_inv (?st1\<lparr>last_incoming := n\<rparr>)" for n using a(2) [of t c] by simp
  have sl: "slot_of (inflight ?st1) k = Some ?op" using a(3) [of t c] by simp
  have co: "\<forall>op'. collision (inflight ?st1) \<noteq> Some (k, op')"
    using assms(3) by (simp add: publishing_state_def Let_def)
  let ?now = "shd (tk_clock s1)"
  let ?st2 = "set_inflight (?st1\<lparr>last_incoming := ?now\<rparr>) (released k (inflight ?st1))"
  have h: "handle_incoming ?pa ?now (drv_state (tk_driver s1)) =
      (Ok [A_CompleteFor c (Done_PubAck t k)], ?st2)"
    unfolding s1(3) using handle_puback_eq [of ?st1] a(2) [of t c] sl no_promotion [OF co]
    by (simp add: Let_def publish_op_def new_op_def)
  have "delivers read ?pa (tk_read_buf s1) (tk_transport s1) tr" using assms(17) s1(2,7) by simp
  from poll_incoming_acts [OF puback_fits(1) [OF k] puback_fits(2,3) s1(5) this _ h, of write_all] obtain buf where
    p2: "poll_incoming read write_all s1 = handle_actions write_all [A_CompleteFor c (Done_PubAck t k)]
      (s1\<lparr>tk_read_buf := buf, tk_transport := tr, tk_clock := stl (stl (tk_clock s1)),
         tk_driver := (tk_driver s1)\<lparr>drv_state := ?st2\<rparr>\<rparr>)" by auto
  let ?s2 = "s1\<lparr>tk_read_buf := buf, tk_transport := tr, tk_clock := stl (stl (tk_clock s1)),
     tk_driver := (tk_driver s1)\<lparr>drv_state := ?st2\<rparr>,
     tk_channels := (tk_channels s)(tx := appended (RE_Completion (Done_PubAck t k)) (tk_channels s tx))\<rparr>"
  have "poll_incoming read write_all s1 = (Ok (), ?s2)"
    using assms(13,14) s1(4,6)
    by (simp add: p2 handle_actions_eqs send_completion_to_def send_event_to_eq channel_of_def and_then_def
        ret_def)
  moreover have "slot_of (inflight (drv_state (tk_driver ?s2))) = slot_of (inflight ?st)"
    using slot_of_released [OF sl] a(3) [of t c] assms(6) by (simp add: fun_upd_idem)
  moreover have "map_option fst (recv_events (Suc (length (ch_events (tk_channels s tx)))) h ?s2) =
      Some (map Ok (ch_events (tk_channels s tx) @ [RE_Completion (Done_PubAck t k)]))"
    using recv_events_queued [of ?s2 h "ch_events (tk_channels s tx) @ [RE_Completion (Done_PubAck t k)]" "[]"] assms(15)
    by (simp del: recv_events.simps)
  ultimately show ?thesis
    using s1 sl by (intro exI [of _ s1] exI [of _ ?s2] conjI) simp_all
qed

lemma demo_task_read [simp]:
  "tk_read_buf (demo_task d reads) = replicate 4096 0" "tk_parser (demo_task d reads) = new_parser"
  by (simp_all add: demo_task_def new_task_def)

lemma fake_delivers:
  assumes "ft_reads t = wire_frame p # rest" and "length (wire_frame p) \<le> length buf"
  shows "delivers demo_read p buf t (t\<lparr>ft_reads := rest\<rparr>)"
  using assms by (simp add: delivers_def fake_read_def Let_def min_def)

abbreviation demo_publishing :: "fake_transport runtime_task" where
  "demo_publishing \<equiv> (demo_task (snd (run_small [(0, D_ConnectionRestored 0)])) [[0x40, 2, 0, 1]])
     \<lparr>tk_command_rx := \<lparr>cmd_queue = [C_Publish 7 (small_publish AtLeastOnce 0) 3], cmd_sender_alive = True\<rparr>,
      tk_channels := (\<lambda>_. \<lparr>ch_events = [RE_Reconnected], ch_receiver_alive = True\<rparr>)\<rparr>"

theorem qos1_publish_end_to_end_witness:
  "\<exists>s1 s2. poll_command demo_write demo_publishing = (Ok (), s1) \<and>
    tk_transport s1 = \<lparr>ft_reads = [[0x40, 2, 0, 1]], ft_writes = [[0x32, 6, 0, 1, 116, 0, 1, 1]]\<rparr> \<and>
    poll_incoming demo_read demo_write s1 = (Ok (), s2) \<and>
    map_option fst (recv_events 2 (new_handle 3 0) s2) =
      Some [Ok RE_Reconnected, Ok (RE_Completion (Done_PubAck 7 1))]"
proof -
  let ?s = demo_publishing and ?q = "small_publish AtLeastOnce 1"
  have i: "state_inv (drv_state (tk_driver ?s))" using small_inv by simp
  have st: "active (drv_state (tk_driver ?s))" "\<forall>op'. collision (inflight (drv_state (tk_driver ?s))) \<noteq> Some (1, op')"
    "inflight_count (inflight (drv_state (tk_driver ?s))) < store_max_inflight (inflight (drv_state (tk_driver ?s)))"
    "1 = next_id (pkid_pool (drv_state (tk_driver ?s)))" "slot_of (inflight (drv_state (tk_driver ?s))) 1 = None"
    by (simp_all add: small_eval)
  have q: "?q = (small_publish AtLeastOnce 0)\<lparr>pub_pkid := 1\<rparr>" by (simp add: small_publish_def)
  have f: "wire_frame (P_Publish ?q) = [0x32, 6, 0, 1, 116, 0, 1, 1]"
    "wire_frame (P_PubAck \<lparr>puback_pkid = 1\<rparr>) = [0x40, 2, 0, 1]"
    by (simp_all add: wire_frame_def wire_byte1_def publish_flags_def small_publish_def codec_eval)
  let ?t = "snd (demo_write (wire_frame (P_Publish ?q)) (tk_transport ?s))"
  have d: "delivers demo_read (P_PubAck \<lparr>puback_pkid = 1\<rparr>) (tk_read_buf ?s) ?t (?t\<lparr>ft_reads := []\<rparr>)"
    by (rule fake_delivers) (simp_all add: f fake_write_all_def)
  have c: "cmd_queue (tk_command_rx ?s) = C_Publish 7 (small_publish AtLeastOnce 0) 3 # []"
    "pub_qos (small_publish AtLeastOnce 0) = AtLeastOnce" "pub_pkid (small_publish AtLeastOnce 0) = 0"
    by (simp_all add: small_publish_def)
  have l: "length (wire_body (P_Publish ?q)) \<le> MAX_REMAINING_LEN"
    by (simp add: small_publish_def codec_eval)
  have w: "fst (demo_write (wire_frame (P_Publish ?q)) (tk_transport ?s)) = Ok ()" by (simp add: fake_write_all_def)
  have ch: "channel_of ?s 3 = Some 0" "ch_receiver_alive (tk_channels ?s 0)"
    "hd_event_rx (new_handle 3 0) = 0" "tk_parser ?s = new_parser"
    by (simp_all add: channel_of_def new_handle_def)
  have n: "Suc (length (ch_events (tk_channels ?s 0))) = 2"
    "map Ok (ch_events (tk_channels ?s 0) @ [RE_Completion (Done_PubAck 7 1)]) =
      [Ok RE_Reconnected, Ok (RE_Completion (Done_PubAck 7 1)) :: (unit, runtime_event) outcome]" by simp_all
  have t: "?t = \<lparr>ft_reads = [[0x40, 2, 0, 1]], ft_writes = [[0x32, 6, 0, 1, 116, 0, 1, 1]]\<rparr>"
    by (simp add: f fake_write_all_def)
  show ?thesis
    using qos1_publish_end_to_end [of ?s 1 7 _ 3 "[]" ?q demo_write 0 "new_handle 3 0" demo_read, OF i st c q l w ch d]
    unfolding t n by blast
qed

section \<open>A subscription, from the SUBACK to a delivered message\<close>

lemma handle_suback_eq:
  assumes "state_inv st" and "slot_of (inflight st) (suback_pkid a) = Some op"
    and "op_command op = C_Subscribe t sub c"
  shows "handle_incoming (P_SubAck a) now st =
    (Ok [A_SubscribeAckFor c (sub_filters sub) (Done_SubAck t (suback_pkid a))],
     (set_inflight st (released (suback_pkid a) (inflight st)))\<lparr>last_incoming := now\<rparr>)"
  using on_suback_eq [of "st\<lparr>last_incoming := now\<rparr>" "suback_pkid a"] assms
  by (simp add: handle_incoming_def and_then_def note_simps ret_def)

lemma poll_incoming_qos0:
  fixes s :: "'t runtime_task" and read :: "('t, 'io) transport_read"
  assumes "fits_packet (P_Publish p)" and "length (wire_body (P_Publish p)) \<le> MAX_REMAINING_LEN"
    and "pub_qos p = AtMostOnce" and "\<not> pub_dup p" and "pub_pkid p = 0"
    and "tk_parser s = new_parser" and "delivers read (P_Publish p) (tk_read_buf s) (tk_transport s) t'"
  shows "\<exists>buf. poll_incoming read write_all s = fanout_publish p
    (s\<lparr>tk_read_buf := buf, tk_transport := t', tk_clock := stl (tk_clock s),
       tk_driver := (tk_driver s)\<lparr>drv_state := (drv_state (tk_driver s))\<lparr>last_incoming := shd (tk_clock s)\<rparr>\<rparr>\<rparr>)"
proof -
  have "legal_packet (P_Publish p)" using assms(3-5) by simp
  from read_one_packet_frame [OF this assms(1,2,6,7)] obtain buf where
    r: "read_one_packet read s = (Ok (Some (P_Publish p)), s\<lparr>tk_read_buf := buf, tk_transport := t'\<rparr>)" by blast
  show ?thesis
    using r assms(3)
    by (intro exI [of _ buf])
      (simp add: poll_incoming_def handle_incoming_publish_def instant_now_def op_defs
        on_driver_state_def on_state_def note_incoming_activity_def)
qed

text \<open>
  Claim C14 (functional). A subscription, end to end: on a task whose parser is empty and whose registered
  clients all have living receivers, when a read delivers the SUBACK for a subscription in flight and
  the next read a QoS 0 publish on a topic one of its filters matches, two polls of the transport put
  the completion and then the message, once, on the channel of the client that subscribed.
\<close>
theorem subscribe_then_receive:
  fixes s :: "'t runtime_task" and read :: "('t, 'io) transport_read" and write_all :: "('t, 'io) transport_write"
  assumes "state_inv (drv_state (tk_driver s))" and "registry_inv (tk_registry s)"
    and "\<forall>c tx. channel_of s c = Some tx \<longrightarrow> ch_receiver_alive (tk_channels s tx)"
    and "slot_of (inflight (drv_state (tk_driver s))) (suback_pkid a) = Some op"
    and "op_command op = C_Subscribe t sub c" and "channel_of s c = Some tx"
    and "f \<in> set (sub_filters sub)"
    and "filter_matches (split_on slash (filter_path f)) (split_on slash (pub_topic p))"
    and "legal_packet (P_SubAck a)" and "length (wire_body (P_SubAck a)) \<le> MAX_REMAINING_LEN"
    and "pub_qos p = AtMostOnce" and "\<not> pub_dup p" and "pub_pkid p = 0"
    and "fits_packet (P_Publish p)" and "length (wire_body (P_Publish p)) \<le> MAX_REMAINING_LEN"
    and "tk_parser s = new_parser" and "delivers read (P_SubAck a) (tk_read_buf s) (tk_transport s) t1"
    and "\<forall>buf. length buf = length (tk_read_buf s) \<longrightarrow> delivers read (P_Publish p) buf t1 t2"
  shows "\<exists>s1 s2. poll_incoming read write_all s = (Ok (), s1) \<and> poll_incoming read write_all s1 = (Ok (), s2) \<and>
    ch_events (tk_channels s2 tx) = ch_events (tk_channels s tx) @
      [RE_Completion (Done_SubAck t (suback_pkid a)), RE_IncomingPublish p] \<and>
    slot_of (inflight (drv_state (tk_driver s2))) (suback_pkid a) = None"
proof -
  let ?st = "drv_state (tk_driver s)" and ?k = "suback_pkid a" and ?e = "RE_Completion (Done_SubAck t (suback_pkid a))"
  let ?st1 = "(set_inflight ?st (released ?k (inflight ?st)))\<lparr>last_incoming := shd (tk_clock s)\<rparr>"
  have "fits_packet (P_SubAck a)" "\<And>pub. P_SubAck a \<noteq> P_Publish pub" by simp_all
  from poll_incoming_acts [OF assms(9) this(1) assms(10,16,17) this(2)
      handle_suback_eq [OF assms(1,4,5)], of write_all]
  obtain buf where b: "length buf = length (tk_read_buf s)" and
    p1: "poll_incoming read write_all s = handle_actions write_all [A_SubscribeAckFor c (sub_filters sub) (Done_SubAck t ?k)]
      (s\<lparr>tk_read_buf := buf, tk_transport := t1, tk_clock := stl (stl (tk_clock s)),
         tk_driver := (tk_driver s)\<lparr>drv_state := ?st1\<rparr>\<rparr>)" by blast
  let ?s1 = "s\<lparr>tk_read_buf := buf, tk_transport := t1, tk_clock := stl (stl (tk_clock s)),
     tk_driver := (tk_driver s)\<lparr>drv_state := ?st1\<rparr>, tk_router := add_routes c (sub_filters sub) (tk_router s),
     tk_channels := (tk_channels s)(tx := appended ?e (tk_channels s tx))\<rparr>"
  have p1: "poll_incoming read write_all s = (Ok (), ?s1)"
    using assms(3,6)
    by (simp add: p1 handle_actions_eqs send_completion_to_def send_event_to_eq channel_of_def op_defs)
  have ch: "channel_of ?s1 = channel_of s" by (simp add: channel_of_def fun_eq_iff)
  have "delivers read (P_Publish p) (tk_read_buf ?s1) (tk_transport ?s1) t2" using assms(18) b by simp
  from poll_incoming_qos0 [OF assms(14,15,11,12,13) _ this, of write_all] assms(16)
  obtain buf' where p2: "poll_incoming read write_all ?s1 = fanout_publish p (?s1\<lparr>tk_read_buf := buf', tk_transport := t2,
       tk_clock := stl (tk_clock ?s1), tk_driver := (tk_driver ?s1)\<lparr>drv_state := ?st1\<lparr>last_incoming := shd (tk_clock ?s1)\<rparr>\<rparr>\<rparr>)"
    by auto
  let ?s2 = "?s1\<lparr>tk_read_buf := buf', tk_transport := t2, tk_clock := stl (tk_clock ?s1),
     tk_driver := (tk_driver ?s1)\<lparr>drv_state := ?st1\<lparr>last_incoming := shd (tk_clock ?s1)\<rparr>\<rparr>\<rparr>"
  have ch2: "channel_of ?s2 = channel_of s" by (simp add: channel_of_def fun_eq_iff)
  have inv: "registry_inv (tk_registry ?s2)" "\<forall>c tx. channel_of ?s2 c = Some tx \<longrightarrow> ch_receiver_alive (tk_channels ?s2 tx)"
    using assms(2,3) unfolding ch2 by simp_all
  have m: "\<exists>f. (f, c) \<in> entry_subs (entries (tk_router ?s2)) \<and>
      filter_matches (split_on slash f) (split_on slash (pub_topic p))"
    using assms(7,8) by (auto simp: add_routes_subs)
  from fanout_publish_spec [OF inv, of p, where ?'io = 'io] obtain chs where
    f: "(fanout_publish p ?s2 :: ('io runtime_task_error, unit) outcome \<times> 't runtime_task) = (Ok (), ?s2\<lparr>tk_channels := chs\<rparr>)"
    and g: "\<forall>c tx. channel_of ?s2 c = Some tx \<longrightarrow> ch_events (chs tx) = ch_events (tk_channels ?s2 tx) @
      (if \<exists>f. (f, c) \<in> entry_subs (entries (tk_router ?s2)) \<and>
          filter_matches (split_on slash f) (split_on slash (pub_topic p)) then [RE_IncomingPublish p] else [])"
    by (elim exE conjE)
  have "channel_of ?s2 c = Some tx" unfolding ch2 by (rule assms(6))
  from g [rule_format, OF this] have g: "ch_events (chs tx) = ch_events (tk_channels ?s2 tx) @ [RE_IncomingPublish p]"
    unfolding if_P [OF m] .
  show ?thesis
    using p1 p2 f g slot_of_released [OF assms(4)]
    by (intro exI [of _ ?s1] exI [of _ "?s2\<lparr>tk_channels := chs\<rparr>"]) simp
qed

abbreviation demo_sub :: "u16 \<Rightarrow> subscribe" where
  "demo_sub k \<equiv> \<lparr>sub_pkid = k, sub_filters = [\<lparr>filter_path = ascii ''+'', filter_qos = AtMostOnce\<rparr>]\<rparr>"

abbreviation demo_subscribing :: "fake_transport runtime_task" where
  "demo_subscribing \<equiv> demo_task (snd (run_small
     [(0, D_ConnectionRestored 0), (2, D_Command (C_Subscribe 7 (demo_sub 0) 3))]))
     [[0x90, 3, 0, 1, 0], [0x30, 4, 0, 1, 116, 1]]"

theorem subscribe_then_receive_witness:
  "\<exists>s1 s2. poll_incoming demo_read demo_write demo_subscribing = (Ok (), s1) \<and>
    poll_incoming demo_read demo_write s1 = (Ok (), s2) \<and>
    ch_events (tk_channels s2 0) =
      [RE_Completion (Done_SubAck 7 1), RE_IncomingPublish (small_publish AtMostOnce 0)]"
proof -
  let ?s = demo_subscribing and ?p = "small_publish AtMostOnce 0"
  let ?a = "\<lparr>suback_pkid = 1, suback_return_codes = [0]\<rparr>" and ?f = "\<lparr>filter_path = ascii ''+'', filter_qos = AtMostOnce\<rparr>"
  have i: "state_inv (drv_state (tk_driver ?s))" using small_inv by simp
  have r: "registry_inv (tk_registry ?s)" "\<forall>c tx. channel_of ?s c = Some tx \<longrightarrow> ch_receiver_alive (tk_channels ?s tx)"
    by (simp_all add: registry_inv_def)
  have "\<exists>op. slot_of (inflight (drv_state (tk_driver ?s))) 1 = Some op \<and> op_command op = C_Subscribe 7 (demo_sub 1) 3"
    by (simp add: small_eval)
  then obtain op where o: "slot_of (inflight (drv_state (tk_driver ?s))) (suback_pkid ?a) = Some op"
    "op_command op = C_Subscribe 7 (demo_sub 1) 3" by auto
  have c: "channel_of ?s 3 = Some 0" "?f \<in> set (sub_filters (demo_sub 1))"
    "filter_matches (split_on slash (filter_path ?f)) (split_on slash (pub_topic ?p))"
    by (simp_all add: channel_of_def small_publish_def ascii_def slash_def plus_def hash_def filter_matches_rec
        filter_matches.both_end)
  have a: "legal_packet (P_SubAck ?a)" "length (wire_body (P_SubAck ?a)) \<le> MAX_REMAINING_LEN"
    by (simp_all add: codec_eval valid_suback_code_def)
  have p: "pub_qos ?p = AtMostOnce" "\<not> pub_dup ?p" "pub_pkid ?p = 0" "fits_packet (P_Publish ?p)"
    "length (wire_body (P_Publish ?p)) \<le> MAX_REMAINING_LEN"
    by (simp_all add: small_publish_def codec_eval fits_string_def)
  have w: "wire_frame (P_SubAck ?a) = [0x90, 3, 0, 1, 0]" "wire_frame (P_Publish ?p) = [0x30, 4, 0, 1, 116, 1]"
    by (simp_all add: wire_frame_def wire_byte1_def publish_flags_def small_publish_def codec_eval)
  let ?t = "tk_transport ?s" let ?t1 = "?t\<lparr>ft_reads := [[0x30, 4, 0, 1, 116, 1]]\<rparr>"
  have d: "delivers demo_read (P_SubAck ?a) (tk_read_buf ?s) ?t ?t1"
    by (rule fake_delivers) (simp_all add: w)
  have d2: "\<forall>buf. length buf = length (tk_read_buf ?s) \<longrightarrow> delivers demo_read (P_Publish ?p) buf ?t1 (?t1\<lparr>ft_reads := []\<rparr>)"
    by (intro allI impI fake_delivers) (simp_all add: w)
  from subscribe_then_receive [OF i r o c a p _ d d2, of demo_write] show ?thesis by fastforce
qed

end
