(* ===== verification/Link_Frames.thy ===== *)
theory Link_Frames
  imports End_To_End
begin

text \<open>
  A link that delivers frames in pieces: what polling any transport does when each frame of a
  sequence arrives cut into chunks, one chunk per read, with reads in between that find nothing.
\<close>

section \<open>What a transport delivers\<close>

text \<open>
  \<open>gives read chunk t t'\<close>: the next read of the transport hands over exactly the chunk, possibly nothing,
  and keeps the length of the task's buffer.
\<close>

definition gives :: "('t, 'io) transport_read \<Rightarrow> bytes \<Rightarrow> 't \<Rightarrow> 't \<Rightarrow> bool" where
  "gives read chunk t t' \<longleftrightarrow>
     (\<forall>buf. length buf = 4096 \<longrightarrow>
        (\<exists>rest. read buf t = (Ok (length chunk), chunk @ rest, t') \<and> length (chunk @ rest) = 4096))"

primrec reads :: "('t, 'io) transport_read \<Rightarrow> bytes list \<Rightarrow> 't \<Rightarrow> 't \<Rightarrow> bool" where
  "reads read [] t t' \<longleftrightarrow> t' = t"
| "reads read (c # cs) t t' \<longleftrightarrow> (\<exists>t1. gives read c t t1 \<and> reads read cs t1 t')"

text \<open>The chunks of one frame: the last of them completes it.\<close>

definition cut_of :: "packet \<Rightarrow> bytes list \<Rightarrow> bool" where
  "cut_of p cs \<longleftrightarrow> concat cs = wire_frame p \<and> last cs \<noteq> []"

primrec polls :: "nat \<Rightarrow> ('t, 'io) transport_read \<Rightarrow> ('t, 'io) transport_write \<Rightarrow> ('t, 'io, unit) task_op" where
  "polls 0 read write_all = ret ()"
| "polls (Suc n) read write_all =
     and_then (poll_incoming read write_all) (\<lambda>_. polls n read write_all)"

lemma polls_append:
  "polls (m + n) read write_all = and_then (polls m read write_all) (\<lambda>_. polls n read write_all)"
  by (induction m) (auto simp: and_then_def ret_def fun_eq_iff split: prod.split outcome.split)

text \<open>What \<open>poll_incoming\<close> does with a packet it has read.\<close>

definition take_in :: "('t, 'io) transport_write \<Rightarrow> packet \<Rightarrow> ('t, 'io, unit) task_op" where
  "take_in write_all p =
     and_then instant_now (\<lambda>now.
     case p of
       P_Publish pub \<Rightarrow> handle_incoming_publish write_all pub now
     | other \<Rightarrow> and_then (drive (D_Incoming other now)) (handle_actions write_all))"

section \<open>A piece of a frame\<close>

lemma next_packet_piece:
  assumes "legal_packet p" and "fits_packet p" and "length (wire_body p) \<le> MAX_REMAINING_LEN"
    and "pre @ suf = wire_frame p" and "suf \<noteq> []"
  shows "next_packet \<lparr>fp_buf = pre\<rparr> = (Ok None, \<lparr>fp_buf = pre\<rparr>)"
proof -
  have "encode_packet p [] = (Ok (), wire_frame p)"
    using encode_packet_legal [OF assms(1), of "[]"] assms(3) by simp
  from parser_step_encoded [OF this assms(2)] have whole: "parser_step (pre @ suf) = Some (Ok (Some p), [])"
    using assms(4) by simp
  have none: "parser_step pre = None"
  proof (rule ccontr)
    assume "parser_step pre \<noteq> None"
    then obtain r b where "parser_step pre = Some (r, b)" by auto
    from frames.step_append [OF this, of suf] whole assms(5) show False by simp
  qed
  show ?thesis
  proof (cases "parse_fixed_header pre")
    case (Ok fh)
    then show ?thesis
      using none by (auto simp: parser_step_eq next_packet_eq next_frame_eq split: if_splits)
  next
    case (Err e)
    have "e \<noteq> MalformedRemainingLength"
    proof
      assume "e = MalformedRemainingLength"
      then have "parse_fixed_header (pre @ suf) = Err MalformedRemainingLength"
        using Err by (intro parse_fixed_header_malformed_append) simp
      then show False using whole by (simp add: parser_step_eq)
    qed
    then show ?thesis using Err by (simp add: next_packet_eq next_frame_eq)
  qed simp
qed

lemma read_one_chunk:
  fixes s :: "'t runtime_task" and read :: "('t, 'io) transport_read"
  assumes "gives read c (tk_transport s) t'" and "length (tk_read_buf s) = 4096" and "c \<noteq> []"
    and "next_packet \<lparr>fp_buf = fp_buf (tk_parser s) @ c\<rparr> = (Ok r, ps)"
  shows "\<exists>buf. length buf = 4096 \<and>
    read_one_packet read s = (Ok r, s\<lparr>tk_read_buf := buf, tk_transport := t', tk_parser := ps\<rparr>)"
proof -
  obtain rest where g: "read (tk_read_buf s) (tk_transport s) = (Ok (length c), c @ rest, t')"
    and l: "length (c @ rest) = 4096" using assms(1,2) by (auto simp: gives_def)
  have "(tk_parser s)\<lparr>fp_buf := fp_buf (tk_parser s) @ c\<rparr> = \<lparr>fp_buf = fp_buf (tk_parser s) @ c\<rparr>"
    by (cases "tk_parser s") simp
  then have "next_packet ((tk_parser s)\<lparr>fp_buf := fp_buf (tk_parser s) @ c\<rparr>) = (Ok r, ps)"
    using assms(4) by metis
  then show ?thesis
    using g assms(3) l
    by (intro exI [of _ "c @ rest"]) (simp add: read_one_packet_def op_combinators slice_def push_def)
qed

lemma read_nothing:
  fixes s :: "'t runtime_task" and read :: "('t, 'io) transport_read"
  assumes "gives read [] (tk_transport s) t'" and "length (tk_read_buf s) = 4096"
  shows "\<exists>buf. length buf = 4096 \<and> read_one_packet read s = (Ok None, s\<lparr>tk_read_buf := buf, tk_transport := t'\<rparr>)"
proof -
  obtain rest where "read (tk_read_buf s) (tk_transport s) = (Ok 0, rest, t')" "length rest = 4096"
    using assms by (auto simp: gives_def)
  then show ?thesis by (intro exI [of _ rest]) (simp add: read_one_packet_def op_combinators)
qed

lemma poll_piece:
  fixes s :: "'t runtime_task" and read :: "('t, 'io) transport_read"
  assumes "legal_packet p" and "fits_packet p" and "length (wire_body p) \<le> MAX_REMAINING_LEN"
    and "gives read c (tk_transport s) t'" and "length (tk_read_buf s) = 4096"
    and "fp_buf (tk_parser s) @ c @ suf = wire_frame p" and "suf \<noteq> []"
  shows "\<exists>buf. length buf = 4096 \<and> poll_incoming read write_all s =
    (Ok (), s\<lparr>tk_read_buf := buf, tk_transport := t', tk_parser := \<lparr>fp_buf = fp_buf (tk_parser s) @ c\<rparr>\<rparr>)"
proof (cases "c = []")
  case True
  from read_nothing [OF assms(4) [unfolded True] assms(5)] obtain buf where b: "length buf = 4096"
    and r: "read_one_packet read s = (Ok None, s\<lparr>tk_read_buf := buf, tk_transport := t'\<rparr>)" by blast
  have "s\<lparr>tk_read_buf := buf, tk_transport := t', tk_parser := \<lparr>fp_buf = fp_buf (tk_parser s) @ []\<rparr>\<rparr> =
      s\<lparr>tk_read_buf := buf, tk_transport := t'\<rparr>" by (cases s; cases "tk_parser s") simp
  then show ?thesis using r b True by (intro exI [of _ buf]) (simp add: poll_incoming_def and_then_def ret_def)
next
  case False
  have "(fp_buf (tk_parser s) @ c) @ suf = wire_frame p" using assms(6) by simp
  from read_one_chunk [OF assms(4,5) False next_packet_piece [OF assms(1-3) this assms(7)]]
  obtain buf where "length buf = 4096" "read_one_packet read s =
    (Ok None, s\<lparr>tk_read_buf := buf, tk_transport := t', tk_parser := \<lparr>fp_buf = fp_buf (tk_parser s) @ c\<rparr>\<rparr>)" by blast
  then show ?thesis by (intro exI [of _ buf]) (simp add: poll_incoming_def and_then_def ret_def)
qed

lemma poll_last_piece:
  fixes s :: "'t runtime_task" and read :: "('t, 'io) transport_read"
  assumes "legal_packet p" and "fits_packet p" and "length (wire_body p) \<le> MAX_REMAINING_LEN"
    and "gives read c (tk_transport s) t'" and "length (tk_read_buf s) = 4096"
    and "fp_buf (tk_parser s) @ c = wire_frame p" and "c \<noteq> []"
  shows "\<exists>buf. length buf = 4096 \<and> poll_incoming read write_all s =
    take_in write_all p (s\<lparr>tk_read_buf := buf, tk_transport := t', tk_parser := new_parser\<rparr>)"
proof -
  have "next_packet \<lparr>fp_buf = fp_buf (tk_parser s) @ c\<rparr> = (Ok (Some p), new_parser)"
    using next_packet_frame [OF assms(1-3)] assms(6) by simp
  from read_one_chunk [OF assms(4,5,7) this] obtain buf where "length buf = 4096"
    "read_one_packet read s = (Ok (Some p), s\<lparr>tk_read_buf := buf, tk_transport := t', tk_parser := new_parser\<rparr>)"
    by blast
  then show ?thesis
    by (intro exI [of _ buf]) (simp add: poll_incoming_def take_in_def and_then_def)
qed

section \<open>A whole frame\<close>

lemma polls_pieces:
  fixes s :: "'t runtime_task" and read :: "('t, 'io) transport_read"
  assumes "legal_packet p" and "fits_packet p" and "length (wire_body p) \<le> MAX_REMAINING_LEN"
    and "reads read cs (tk_transport s) t'" and "length (tk_read_buf s) = 4096"
    and "fp_buf (tk_parser s) @ concat cs = wire_frame p" and "last cs \<noteq> []" and "cs \<noteq> []"
  shows "\<exists>buf. length buf = 4096 \<and> polls (length cs) read write_all s =
    take_in write_all p (s\<lparr>tk_read_buf := buf, tk_transport := t', tk_parser := new_parser\<rparr>)"
  using assms(4-8)
proof (induction cs arbitrary: s)
  case (Cons c cs)
  from Cons.prems(1) obtain t1 where g: "gives read c (tk_transport s) t1" "reads read cs t1 t'" by auto
  show ?case
  proof (cases "cs = []")
    case True
    have unit: "and_then m ret = m" for m :: "('t, 'io, unit) task_op"
      by (auto simp: and_then_def ret_def fun_eq_iff split: prod.split outcome.split)
    have e: "polls (length (c # cs)) read write_all s = poll_incoming read write_all s" using True by (simp add: unit)
    have t: "t' = t1" using True g(2) by simp
    have "fp_buf (tk_parser s) @ c = wire_frame p" "c \<noteq> []" using True Cons.prems(3,4) by simp_all
    then show ?thesis unfolding e t by (rule poll_last_piece [OF assms(1-3) g(1) Cons.prems(2)])
  next
    case False
    then have "concat cs \<noteq> []" using Cons.prems(4) by (auto dest: last_in_set)
    moreover have "fp_buf (tk_parser s) @ c @ concat cs = wire_frame p" using Cons.prems(3) by simp
    ultimately obtain buf where b: "length buf = 4096" and 1: "poll_incoming read write_all s =
      (Ok (), s\<lparr>tk_read_buf := buf, tk_transport := t1, tk_parser := \<lparr>fp_buf = fp_buf (tk_parser s) @ c\<rparr>\<rparr>)"
      using poll_piece [OF assms(1-3) g(1) Cons.prems(2), of "concat cs" write_all] by blast
    let ?s = "s\<lparr>tk_read_buf := buf, tk_transport := t1, tk_parser := \<lparr>fp_buf = fp_buf (tk_parser s) @ c\<rparr>\<rparr>"
    have "reads read cs (tk_transport ?s) t'" "length (tk_read_buf ?s) = 4096"
      "fp_buf (tk_parser ?s) @ concat cs = wire_frame p" "last cs \<noteq> []"
      using g(2) b Cons.prems(3,4) False by simp_all
    from Cons.IH [OF this False] obtain buf' where "length buf' = 4096" "polls (length cs) read write_all ?s =
      take_in write_all p (?s\<lparr>tk_read_buf := buf', tk_transport := t', tk_parser := new_parser\<rparr>)" by blast
    then show ?thesis using 1 by (intro exI [of _ buf']) (simp add: and_then_def)
  qed
qed simp

lemma polls_frame:
  fixes s :: "'t runtime_task" and read :: "('t, 'io) transport_read"
  assumes "legal_packet p" and "fits_packet p" and "length (wire_body p) \<le> MAX_REMAINING_LEN"
    and "cut_of p cs" and "reads read cs (tk_transport s) t'" and "length (tk_read_buf s) = 4096"
    and "tk_parser s = new_parser"
  shows "\<exists>buf. length buf = 4096 \<and> polls (length cs) read write_all s =
    take_in write_all p (s\<lparr>tk_read_buf := buf, tk_transport := t'\<rparr>)"
proof -
  have c: "concat cs = wire_frame p" "last cs \<noteq> []" using assms(4) by (simp_all add: cut_of_def)
  then have "cs \<noteq> []" by (auto simp: wire_frame_def)
  moreover have "fp_buf (tk_parser s) @ concat cs = wire_frame p" using c(1) assms(7) by (simp add: new_parser_def)
  moreover have "s\<lparr>tk_read_buf := buf, tk_transport := t', tk_parser := new_parser\<rparr> =
      s\<lparr>tk_read_buf := buf, tk_transport := t'\<rparr>" for buf using assms(7) by (cases s) simp
  ultimately show ?thesis using polls_pieces [OF assms(1-3,5,6) _ c(2), of write_all] by simp
qed

text \<open>The FakeTransport of the tests hands over one scripted chunk per read.\<close>

lemma fake_gives:
  assumes "ft_reads t = c # rest" and "length c \<le> 4096"
  shows "gives demo_read c t (t\<lparr>ft_reads := rest\<rparr>)"
  using assms by (auto simp: gives_def fake_read_def Let_def min_def)

lemma fake_reads:
  "ft_reads t = cs @ rest \<Longrightarrow> list_all (\<lambda>c. length c \<le> 4096) cs \<Longrightarrow> reads demo_read cs t (t\<lparr>ft_reads := rest\<rparr>)"
proof (induction cs arbitrary: t)
  case (Cons c cs)
  then have "gives demo_read c t (t\<lparr>ft_reads := cs @ rest\<rparr>)" by (intro fake_gives) simp_all
  moreover have "reads demo_read cs (t\<lparr>ft_reads := cs @ rest\<rparr>) (t\<lparr>ft_reads := rest\<rparr>)"
    using Cons.IH [of "t\<lparr>ft_reads := cs @ rest\<rparr>"] Cons.prems(2) by simp
  ultimately show ?case by auto
qed simp

end
