(* ===== verification/Qos2_Link.thy ===== *)
theory Qos2_Link
  imports Link_Frames Runtime_Deviations
begin

text \<open>
  QoS 2 over a link, byte by byte, on any transport: what a receiving task delivers to its clients and
  writes back for any sequence of PUBLISH and PUBREL frames, however they are cut into reads.
\<close>

section \<open>The abstract receiver\<close>

text \<open>
  The messages a receiver delivers: a publish whose id is not among those received and not released.
\<close>

fun first_seen :: "u16 set \<Rightarrow> packet list \<Rightarrow> publish list" where
  "first_seen S [] = []"
| "first_seen S (P_Publish p # ps) =
     (if pub_pkid p \<in> S then first_seen S ps else p # first_seen (insert (pub_pkid p) S) ps)"
| "first_seen S (P_PubRel r # ps) = first_seen (S - {pubrel_pkid r}) ps"
| "first_seen S (_ # ps) = first_seen S ps"

fun open_ids :: "u16 set \<Rightarrow> packet list \<Rightarrow> u16 set" where
  "open_ids S [] = S"
| "open_ids S (P_Publish p # ps) = open_ids (insert (pub_pkid p) S) ps"
| "open_ids S (P_PubRel r # ps) = open_ids (S - {pubrel_pkid r}) ps"
| "open_ids S (_ # ps) = open_ids S ps"

fun reply :: "packet \<Rightarrow> bytes" where
  "reply (P_Publish p) = wire_frame (P_PubRec \<lparr>pubrec_pkid = pub_pkid p\<rparr>)"
| "reply (P_PubRel r) = wire_frame (P_PubComp \<lparr>pubcomp_pkid = pubrel_pkid r\<rparr>)"
| "reply _ = []"

text \<open>
  What an honest peer sends: QoS 2 publishes with ids in the window that fit a frame, and PUBREL for open
  ids only.
\<close>

fun honest_peer :: "u16 \<Rightarrow> u16 set \<Rightarrow> packet list \<Rightarrow> bool" where
  "honest_peer m S [] = True"
| "honest_peer m S (P_Publish p # ps) \<longleftrightarrow>
     pub_qos p = ExactlyOnce \<and> 0 < pub_pkid p \<and> pub_pkid p \<le> m \<and> fits_packet (P_Publish p) \<and>
     length (wire_body (P_Publish p)) \<le> MAX_REMAINING_LEN \<and> honest_peer m (insert (pub_pkid p) S) ps"
| "honest_peer m S (P_PubRel r # ps) \<longleftrightarrow> pubrel_pkid r \<in> S \<and> honest_peer m (S - {pubrel_pkid r}) ps"
| "honest_peer m S (_ # ps) \<longleftrightarrow> False"

text \<open>
  The link: for each packet of the script the transport hands over the chunks of its frame, read by read,
  and then takes the reply; \<open>t'\<close> is its state after exactly these reads and writes.
\<close>

primrec peer_link ::
  "('t, 'io) transport_read \<Rightarrow> ('t, 'io) transport_write \<Rightarrow> (packet \<times> bytes list) list \<Rightarrow> 't \<Rightarrow> 't \<Rightarrow> bool" where
  "peer_link read write_all [] t t' \<longleftrightarrow> t' = t"
| "peer_link read write_all (x # xs) t t' \<longleftrightarrow> cut_of (fst x) (snd x) \<and>
     (\<exists>t1 t2. reads read (snd x) t t1 \<and> write_all (reply (fst x)) t1 = (Ok (), t2) \<and>
        peer_link read write_all xs t2 t')"

text \<open>Packets of a script, and the reads it takes.\<close>

abbreviation packets :: "(packet \<times> bytes list) list \<Rightarrow> packet list" where
  "packets script \<equiv> map fst script"

abbreviation read_count :: "(packet \<times> bytes list) list \<Rightarrow> nat" where
  "read_count script \<equiv> sum_list (map (\<lambda>x. length (snd x)) script)"

definition subscribed :: "'t runtime_task \<Rightarrow> nat \<Rightarrow> publish \<Rightarrow> bool" where
  "subscribed s c p \<longleftrightarrow> (\<exists>f. (f, c) \<in> entry_subs (entries (tk_router s)) \<and>
     filter_matches (split_on slash f) (split_on slash (pub_topic p)))"

section \<open>One frame\<close>

lemma known_id_window:
  assumes "state_inv st" and "0 < k" and "k \<le> store_max_inflight (inflight st)"
  shows "known_id k (inflight st)"
  using assms(2,3) state_invD(4) [OF assms(1)] by (auto simp: known_id_def store_inv_def word_le_nat_alt)

text \<open>
  The receiving task: the session invariant, a registry with living receivers, nothing left in the
  parser, and the buffer of the task.
\<close>

definition link_inv :: "'t runtime_task \<Rightarrow> bool" where
  "link_inv s \<longleftrightarrow> state_inv (drv_state (tk_driver s)) \<and> registry_inv (tk_registry s) \<and>
     (\<forall>c tx. channel_of s c = Some tx \<longrightarrow> ch_receiver_alive (tk_channels s tx)) \<and>
     tk_parser s = new_parser \<and> length (tk_read_buf s) = 4096"

abbreviation window_of :: "'t runtime_task \<Rightarrow> u16" where
  "window_of s \<equiv> store_max_inflight (inflight (drv_state (tk_driver s)))"

abbreviation seen_of :: "'t runtime_task \<Rightarrow> u16 set" where
  "seen_of s \<equiv> seen_ids (drv_state (tk_driver s))"

text \<open>
  \<open>received s ds s'\<close>: between the two states the task has kept its invariant, its window and its
  subscriptions, and has delivered the messages ds to their subscribers.
\<close>

definition received :: "'t runtime_task \<Rightarrow> publish list \<Rightarrow> 't runtime_task \<Rightarrow> bool" where
  "received s ds s' \<longleftrightarrow> link_inv s' \<and> window_of s' = window_of s \<and>
     tk_registry s' = tk_registry s \<and> tk_router s' = tk_router s \<and>
     (\<forall>c tx. channel_of s c = Some tx \<longrightarrow> ch_events (tk_channels s' tx) =
        ch_events (tk_channels s tx) @ map RE_IncomingPublish (filter (subscribed s c) ds))"

lemma received_nil: "link_inv s \<Longrightarrow> received s [] s"
  by (simp add: received_def)

lemma received_append:
  assumes "received s ds s1" and "received s1 es s2"
  shows "received s (ds @ es) s2"
proof -
  have "channel_of s1 = channel_of s" "subscribed s1 = subscribed s"
    using assms(1) by (simp_all add: received_def channel_of_def subscribed_def fun_eq_iff)
  then show ?thesis using assms by (simp add: received_def)
qed

lemma store_max_set_seen [simp]: "store_max_inflight (set_seen k b s) = store_max_inflight s"
  by (simp add: set_seen_def)

text \<open>The state after the PUBREC of an incoming QoS 2 publish.\<close>

definition after_pubrec :: "bytes \<Rightarrow> 't \<Rightarrow> u16 \<Rightarrow> 't runtime_task \<Rightarrow> 't runtime_task" where
  "after_pubrec buf t k s =
     (let st = (drv_state (tk_driver s))\<lparr>last_incoming := shd (tk_clock s)\<rparr>
      in s\<lparr>tk_read_buf := buf, tk_transport := t, tk_clock := stl (stl (tk_clock s)),
           tk_driver := sent_at (shd (stl (tk_clock s)))
             ((tk_driver s)\<lparr>drv_state := set_inflight st (set_seen k True (inflight st))\<rparr>)\<rparr>)"

lemma receive_publish_step:
  fixes s :: "'t runtime_task" and write_all :: "('t, 'io) transport_write"
  assumes "link_inv s" and "honest_peer (window_of s) (seen_of s) [P_Publish p]"
    and "write_all (reply (P_Publish p)) t1 = (Ok (), t2)"
  shows "take_in write_all (P_Publish p) (s\<lparr>tk_read_buf := buf, tk_transport := t1\<rparr>) =
      (let s1 = after_pubrec buf t2 (pub_pkid p) s
       in if pub_pkid p \<in> seen_of s then (Ok (), s1) else fanout_publish p s1)"
    and "state_inv (drv_state (tk_driver (after_pubrec buf t2 (pub_pkid p) s)))"
    and "seen_of (after_pubrec buf t2 (pub_pkid p) s) = insert (pub_pkid p) (seen_of s)"
proof -
  let ?k = "pub_pkid p"
  have q: "pub_qos p = ExactlyOnce" "0 < ?k" "?k \<le> window_of s" using assms(2) by simp_all
  have i: "state_inv (drv_state (tk_driver s))" using assms(1) by (simp add: link_inv_def)
  let ?s0 = "s\<lparr>tk_read_buf := buf, tk_transport := t1, tk_clock := stl (tk_clock s)\<rparr>"
  let ?st = "(drv_state (tk_driver s))\<lparr>last_incoming := shd (tk_clock s)\<rparr>"
  have kn: "known_id ?k (inflight ?st)" using known_id_window [OF i q(2,3)] by simp
  have inv: "state_inv ?st" using i by simp
  have w: "fst (write_all (pubrec_frame ?k) (tk_transport ?s0)) = Ok ()"
    "snd (write_all (pubrec_frame ?k) t1) = t2" using assms(3) by simp_all
  have "take_in write_all (P_Publish p) (s\<lparr>tk_read_buf := buf, tk_transport := t1\<rparr>) =
      handle_incoming_publish write_all p (shd (tk_clock s)) ?s0"
    by (simp add: take_in_def instant_now_def op_defs)
  then show "take_in write_all (P_Publish p) (s\<lparr>tk_read_buf := buf, tk_transport := t1\<rparr>) =
      (let s1 = after_pubrec buf t2 ?k s in if ?k \<in> seen_of s then (Ok (), s1) else fanout_publish p s1)"
    using incoming_qos2_step [of ?s0 p ?k write_all "shd (tk_clock s)"] i q(1) kn w
    by (simp add: after_pubrec_def Let_def)
  show "seen_of (after_pubrec buf t2 ?k s) = insert ?k (seen_of s)"
    using seen_ids_set_seen [OF inv kn, of True] by (simp add: after_pubrec_def Let_def)
  show "state_inv (drv_state (tk_driver (after_pubrec buf t2 ?k s)))"
    using state_inv_flags(2) [OF inv] by (simp add: after_pubrec_def Let_def)
qed

lemma receive_publish:
  fixes s :: "'t runtime_task" and write_all :: "('t, 'io) transport_write"
  assumes "link_inv s" and "honest_peer (window_of s) (seen_of s) [P_Publish p]"
    and "write_all (reply (P_Publish p)) t1 = (Ok (), t2)" and "length buf = 4096"
  shows "\<exists>s'. take_in write_all (P_Publish p) (s\<lparr>tk_read_buf := buf, tk_transport := t1\<rparr>) = (Ok (), s') \<and>
    received s (first_seen (seen_of s) [P_Publish p]) s' \<and> tk_transport s' = t2 \<and>
    seen_of s' = insert (pub_pkid p) (seen_of s)"
proof -
  let ?k = "pub_pkid p" and ?s0 = "s\<lparr>tk_read_buf := buf, tk_transport := t1\<rparr>"
  let ?s1 = "after_pubrec buf t2 ?k s"
  note step = receive_publish_step(1) [where buf = buf and write_all = write_all, OF assms(1-3)]
  note st1 = receive_publish_step(2) [where buf = buf and write_all = write_all, OF assms(1-3)]
  note seen = receive_publish_step(3) [where buf = buf and write_all = write_all, OF assms(1-3)]
  note f1 = after_pubrec_def [of buf t2 ?k s]
  have i: "registry_inv (tk_registry s)" "tk_parser s = new_parser"
    and al: "\<forall>c tx. channel_of s c = Some tx \<longrightarrow> ch_receiver_alive (tk_channels s tx)"
    using assms(1) by (simp_all add: link_inv_def)
  have ch: "channel_of ?s1 = channel_of s" by (simp add: f1 channel_of_def fun_eq_iff Let_def)
  show ?thesis
  proof (cases "?k \<in> seen_of s")
    case True
    then have "take_in write_all (P_Publish p) ?s0 = (Ok (), ?s1)" by (simp add: step)
    moreover have "received s [] ?s1"
      using st1 i assms(4) al ch unfolding received_def link_inv_def by (simp add: f1 Let_def)
    ultimately show ?thesis using True seen by (intro exI [of _ ?s1]) (simp add: f1 Let_def)
  next
    case False
    have r: "registry_inv (tk_registry ?s1)" using i(1) by (simp add: f1 Let_def)
    have a: "\<forall>c tx. channel_of ?s1 c = Some tx \<longrightarrow> ch_receiver_alive (tk_channels ?s1 tx)"
      using al unfolding ch by (simp add: f1 Let_def)
    from fanout_publish_spec [OF r a, of p, where ?'io = 'io] obtain chs where
      f: "(fanout_publish p ?s1 :: ('io runtime_task_error, unit) outcome \<times> 't runtime_task) =
        (Ok (), ?s1\<lparr>tk_channels := chs\<rparr>)"
      and g: "\<forall>tx. ch_receiver_alive (chs tx) = ch_receiver_alive (tk_channels ?s1 tx)"
      and h: "\<forall>c tx. channel_of ?s1 c = Some tx \<longrightarrow> ch_events (chs tx) = ch_events (tk_channels ?s1 tx) @
        (if \<exists>f. (f, c) \<in> entry_subs (entries (tk_router ?s1)) \<and>
            filter_matches (split_on slash f) (split_on slash (pub_topic p)) then [RE_IncomingPublish p] else [])"
      by (elim exE conjE)
    let ?s2 = "?s1\<lparr>tk_channels := chs\<rparr>"
    have "take_in write_all (P_Publish p) ?s0 = (Ok (), ?s2)" using False f by (simp add: step)
    moreover have "link_inv ?s2"
      using st1 i assms(4) al g ch unfolding link_inv_def by (simp add: f1 channel_of_def Let_def)
    moreover have "ch_events (chs tx) = ch_events (tk_channels s tx) @ map RE_IncomingPublish (filter (subscribed s c) [p])"
      if "channel_of s c = Some tx" for c tx
      using h [rule_format, of c tx] that unfolding ch by (simp add: f1 subscribed_def Let_def)
    ultimately show ?thesis
      using False seen by (intro exI [of _ ?s2]) (simp add: received_def f1 Let_def)
  qed
qed

lemma pkid_frames:
  "k \<noteq> 0 \<Longrightarrow> legal_packet (P_PubRel \<lparr>pubrel_pkid = k\<rparr>)" "k \<noteq> 0 \<Longrightarrow> legal_packet (P_PubComp \<lparr>pubcomp_pkid = k\<rparr>)"
  "fits_packet (P_PubRel \<lparr>pubrel_pkid = k\<rparr>)"
  "length (wire_body (P_PubRel \<lparr>pubrel_pkid = k\<rparr>)) \<le> MAX_REMAINING_LEN"
  "length (wire_body (P_PubComp \<lparr>pubcomp_pkid = k\<rparr>)) \<le> MAX_REMAINING_LEN"
  by (simp_all add: MAX_REMAINING_LEN_def)

lemma receive_pubrel:
  fixes s :: "'t runtime_task" and write_all :: "('t, 'io) transport_write"
  assumes "link_inv s" and "k \<in> seen_of s"
    and "write_all (reply (P_PubRel \<lparr>pubrel_pkid = k\<rparr>)) t1 = (Ok (), t2)" and "length buf = 4096"
  shows "\<exists>s'. take_in write_all (P_PubRel \<lparr>pubrel_pkid = k\<rparr>) (s\<lparr>tk_read_buf := buf, tk_transport := t1\<rparr>) = (Ok (), s') \<and>
    received s [] s' \<and> tk_transport s' = t2 \<and> seen_of s' = seen_of s - {k}"
proof -
  let ?p = "P_PubRel \<lparr>pubrel_pkid = k\<rparr>" and ?c = "P_PubComp \<lparr>pubcomp_pkid = k\<rparr>"
  have i: "state_inv (drv_state (tk_driver s))" using assms(1) by (simp add: link_inv_def)
  have kn: "known_id k (inflight (drv_state (tk_driver s)))" "incoming_pub (inflight (drv_state (tk_driver s))) ! unat k"
    using assms(2) by (simp_all add: seen_ids_def)
  then have k: "k \<noteq> 0" by (simp add: known_id_def)
  let ?st = "(drv_state (tk_driver s))\<lparr>last_incoming := shd (tk_clock s)\<rparr>"
  let ?st' = "(set_inflight ?st (set_seen k False (inflight ?st)))\<lparr>last_outgoing := shd (tk_clock s)\<rparr>"
  have h: "handle_incoming ?p (shd (tk_clock s)) (drv_state (tk_driver s)) = (Ok [A_Send ?c], ?st')"
    using kn by (simp add: handle_pubrel_eq [OF i] Let_def)
  let ?s0 = "s\<lparr>tk_read_buf := buf, tk_transport := t1, tk_clock := stl (stl (tk_clock s)),
     tk_driver := (tk_driver s)\<lparr>drv_state := ?st'\<rparr>\<rparr>"
  let ?s1 = "?s0\<lparr>tk_transport := t2, tk_clock := stl (tk_clock ?s0), tk_driver := sent_at (shd (tk_clock ?s0)) (tk_driver ?s0)\<rparr>"
  have p: "take_in write_all ?p (s\<lparr>tk_read_buf := buf, tk_transport := t1\<rparr>) = handle_actions write_all [A_Send ?c] ?s0"
    using h by (simp add: take_in_def drive_def instant_now_def op_defs incoming_eq)
  have "write_all (wire_frame ?c) (tk_transport ?s0) = (Ok (), t2)" using assms(3) by simp
  from send_packet_ok [OF pkid_frames(2) [OF k] pkid_frames(5), of write_all ?s0, OF this]
  have s1: "take_in write_all ?p (s\<lparr>tk_read_buf := buf, tk_transport := t1\<rparr>) = (Ok (), ?s1)"
    by (simp add: p handle_actions_eqs and_then_def ret_def)
  have inv: "state_inv ?st" using i by simp
  have "seen_of ?s1 = seen_of s - {k}"
    using seen_ids_set_seen [OF inv, of k False] kn(1) by simp
  moreover have "state_inv (drv_state (tk_driver ?s1))" using state_inv_flags(2) [OF inv] by simp
  then have "received s [] ?s1"
    using assms(1,4) unfolding received_def link_inv_def by (simp add: channel_of_def)
  ultimately show ?thesis using s1 by (intro exI [of _ ?s1]) simp
qed

section \<open>A whole exchange\<close>

lemma first_seen_Cons: "first_seen S (p # ps) = first_seen S [p] @ first_seen (open_ids S [p]) ps"
  by (cases p) (auto simp: insert_absorb)

lemma honest_Cons: "honest_peer m S (p # ps) \<longleftrightarrow> honest_peer m S [p] \<and> honest_peer m (open_ids S [p]) ps"
  by (cases p) auto

lemma honest_frame:
  assumes "state_inv st" and "honest_peer m (seen_ids st) [p]"
  shows "legal_packet p" "fits_packet p" "length (wire_body p) \<le> MAX_REMAINING_LEN"
proof -
  have "k \<noteq> 0" if "k \<in> seen_ids st" for k using that by (simp add: seen_ids_def known_id_def)
  then show "legal_packet p" "fits_packet p" "length (wire_body p) \<le> MAX_REMAINING_LEN"
    using assms(2) by (cases p; auto simp: MAX_REMAINING_LEN_def)+
qed

lemma receive_one:
  fixes s :: "'t runtime_task" and read :: "('t, 'io) transport_read" and write_all :: "('t, 'io) transport_write"
  assumes "link_inv s" and "honest_peer (window_of s) (seen_of s) [p]" and "cut_of p cs"
    and "reads read cs (tk_transport s) t1" and "write_all (reply p) t1 = (Ok (), t2)"
  shows "\<exists>s'. polls (length cs) read write_all s = (Ok (), s') \<and>
    received s (first_seen (seen_of s) [p]) s' \<and> tk_transport s' = t2 \<and> seen_of s' = open_ids (seen_of s) [p]"
proof -
  have i: "state_inv (drv_state (tk_driver s))" "tk_parser s = new_parser" "length (tk_read_buf s) = 4096"
    using assms(1) by (simp_all add: link_inv_def)
  from polls_frame [OF honest_frame [OF i(1) assms(2)] assms(3,4) i(3,2), of write_all] obtain buf where
    b: "length buf = 4096" and e: "polls (length cs) read write_all s =
      take_in write_all p (s\<lparr>tk_read_buf := buf, tk_transport := t1\<rparr>)" by blast
  show ?thesis
  proof (cases p)
    case (P_Publish pub)
    from receive_publish [where write_all = write_all, OF assms(1) assms(2) [unfolded P_Publish]
        assms(5) [unfolded P_Publish] b] show ?thesis unfolding e P_Publish by simp
  next
    case (P_PubRel r)
    then show ?thesis
      using receive_pubrel [OF assms(1) _ _ b, of "pubrel_pkid r" write_all t1 t2] assms(2,5) unfolding e
      by (cases r) simp
  qed (use assms(2) in simp_all)
qed

lemma receive_all:
  fixes s :: "'t runtime_task" and read :: "('t, 'io) transport_read" and write_all :: "('t, 'io) transport_write"
  assumes "link_inv s" and "honest_peer (window_of s) (seen_of s) (packets script)"
    and "peer_link read write_all script (tk_transport s) t'"
  shows "\<exists>s'. polls (read_count script) read write_all s = (Ok (), s') \<and> tk_transport s' = t' \<and>
    received s (first_seen (seen_of s) (packets script)) s' \<and> seen_of s' = open_ids (seen_of s) (packets script)"
  using assms
proof (induction script arbitrary: s)
  case Nil
  then show ?case by (simp add: ret_def received_nil)
next
  case (Cons x script)
  obtain p cs where x: "x = (p, cs)" by (cases x)
  from Cons.prems(2) x have h: "honest_peer (window_of s) (seen_of s) [p]"
    "honest_peer (window_of s) (open_ids (seen_of s) [p]) (packets script)"
    using honest_Cons [of "window_of s" "seen_of s" p "packets script"] by simp_all
  from Cons.prems(3) x obtain t1 t2 where l: "cut_of p cs" "reads read cs (tk_transport s) t1"
    "write_all (reply p) t1 = (Ok (), t2)" "peer_link read write_all script t2 t'" by auto
  from receive_one [where write_all = write_all, OF Cons.prems(1) h(1) l(1-3)] obtain s1 where
    1: "polls (length cs) read write_all s = (Ok (), s1)" "received s (first_seen (seen_of s) [p]) s1"
      "tk_transport s1 = t2" "seen_of s1 = open_ids (seen_of s) [p]" by (elim exE conjE)
  have "link_inv s1" "honest_peer (window_of s1) (seen_of s1) (packets script)"
    "peer_link read write_all script (tk_transport s1) t'"
    using 1 h(2) l(4) by (simp_all add: received_def)
  from Cons.IH [OF this] obtain s2 where
    2: "polls (read_count script) read write_all s1 = (Ok (), s2)" "tk_transport s2 = t'"
      "received s1 (first_seen (seen_of s1) (packets script)) s2"
      "seen_of s2 = open_ids (seen_of s1) (packets script)" by (elim exE conjE)
  have "received s (first_seen (seen_of s) (packets (x # script))) s2"
    using received_append [OF 1(2) 2(3)] 1(4) x first_seen_Cons [of "seen_of s" p "packets script"] by simp
  moreover have "open_ids (seen_of s) (packets (x # script)) = open_ids (seen_of s1) (packets script)"
    using 1(4) x by (cases p) simp_all
  moreover have "polls (read_count (x # script)) read write_all s = (Ok (), s2)"
    using 1(1) 2(1) x polls_append [of "length cs" "read_count script" read write_all] by (simp add: and_then_def)
  ultimately show ?case using 2(2,4) by (intro exI [of _ s2]) simp
qed

text \<open>
  Claim C12 (refinement). Exactly-once delivery over whole exchanges, on any transport: let an honest peer
  send any sequence of QoS 2 PUBLISH and PUBREL frames, repetitions included (publishes that fit a frame,
  with ids in the window; PUBREL for open ids only), each cut into chunks in any
  way, one chunk per read and any reads that find nothing in between, and let the transport take the
  replies.  A task with the session invariant, an empty parser and living receivers, polled once per
  read, does exactly these reads and, after each frame, the write of its PUBREC or PUBCOMP, without an
  error; it delivers to every client exactly the messages it subscribes to among those the abstract
  receiver (the set of open packet ids) takes for new; the open ids afterwards are those of the
  abstract receiver.
\<close>
theorem qos2_exchange_refines:
  fixes s :: "'t runtime_task" and read :: "('t, 'io) transport_read" and write_all :: "('t, 'io) transport_write"
  assumes "link_inv s" and "honest_peer (window_of s) (seen_of s) (packets script)"
    and "peer_link read write_all script (tk_transport s) t'"
  shows "\<exists>s'. polls (read_count script) read write_all s = (Ok (), s') \<and> tk_transport s' = t' \<and>
    seen_of s' = open_ids (seen_of s) (packets script) \<and>
    (\<forall>c tx. channel_of s c = Some tx \<longrightarrow> ch_events (tk_channels s' tx) = ch_events (tk_channels s tx) @
       map RE_IncomingPublish (filter (subscribed s c) (first_seen (seen_of s) (packets script))))"
  using receive_all [OF assms] by (auto simp: received_def)

text \<open>On the FakeTransport the chunks are the scripted reads, and the replies the recorded writes.\<close>

lemma fake_peer_link:
  assumes "list_all (\<lambda>x. cut_of (fst x) (snd x) \<and> list_all (\<lambda>c. length c \<le> 4096) (snd x)) script"
    and "ft_reads t = concat (map snd script)"
  shows "peer_link demo_read demo_write script t
    \<lparr>ft_reads = [], ft_writes = ft_writes t @ map reply (packets script)\<rparr>"
  using assms
proof (induction script arbitrary: t)
  case (Cons x script)
  let ?t1 = "t\<lparr>ft_reads := concat (map snd script)\<rparr>"
  let ?t2 = "?t1\<lparr>ft_writes := ft_writes t @ [reply (fst x)]\<rparr>"
  have "reads demo_read (snd x) t ?t1" using Cons.prems by (intro fake_reads) simp_all
  moreover have "demo_write (reply (fst x)) ?t1 = (Ok (), ?t2)" by (simp add: fake_write_all_def)
  moreover have "peer_link demo_read demo_write script ?t2
      \<lparr>ft_reads = [], ft_writes = ft_writes ?t2 @ map reply (packets script)\<rparr>"
    using Cons.prems by (intro Cons.IH) simp_all
  ultimately show ?case using Cons.prems(1) by auto
qed simp

text \<open>A receiving task with one subscriber, client 3, to every topic.\<close>

definition demo_receiver :: "bytes list \<Rightarrow> fake_transport runtime_task" where
  "demo_receiver chunks =
     (demo_task (snd (run_small [(0, D_ConnectionRestored 0)])) chunks)
       \<lparr>tk_router := add_subscription 3 (ascii ''#'') default_router\<rparr>"

lemma hash_matches: "filter_matches (split_on slash (ascii ''#'')) ts"
  by (cases ts) (simp_all add: ascii_def slash_def hash_def filter_matches_rec)

lemma demo_receiver_facts:
  "link_inv (demo_receiver cs)" "window_of (demo_receiver cs) = 2" "seen_of (demo_receiver cs) = {}"
  "tk_transport (demo_receiver cs) = \<lparr>ft_reads = cs, ft_writes = []\<rparr>"
  "channel_of (demo_receiver cs) 3 = Some 0" "tk_channels (demo_receiver cs) 0 = \<lparr>ch_events = [], ch_receiver_alive = True\<rparr>"
  "subscribed (demo_receiver cs) 3 p"
proof -
  show "link_inv (demo_receiver cs)"
    using small_inv by (simp add: demo_receiver_def link_inv_def registry_inv_def)
  have "incoming_pub (inflight (drv_state (snd (run_small [(0, D_ConnectionRestored 0)])))) = [False, False, False]"
    "length (outgoing (inflight (drv_state (snd (run_small [(0, D_ConnectionRestored 0)]))))) = 3"
    by (simp_all add: small_eval)
  then show "seen_of (demo_receiver cs) = {}"
    by (auto simp: demo_receiver_def seen_ids_def known_id_def nth_Cons' split: if_splits)
  have "(ascii ''#'', 3) \<in> entry_subs (entries (tk_router (demo_receiver cs)))"
    by (simp add: demo_receiver_def add_subscription_def add_entry_subs default_router_def)
  then show "subscribed (demo_receiver cs) 3 p"
    unfolding subscribed_def using hash_matches by blast
qed (simp_all add: demo_receiver_def channel_of_def small_eval)

lemma demo_frames:
  "wire_frame (P_Publish (small_publish ExactlyOnce 1)) = [0x34, 6, 0, 1, 116, 0, 1, 1]"
  "wire_frame (P_Publish ((small_publish ExactlyOnce 1)\<lparr>pub_dup := True\<rparr>)) = [0x3C, 6, 0, 1, 116, 0, 1, 1]"
  "wire_frame (P_PubRel \<lparr>pubrel_pkid = 1\<rparr>) = [0x62, 2, 0, 1]"
  "wire_frame (P_PubRec \<lparr>pubrec_pkid = 1\<rparr>) = [0x50, 2, 0, 1]"
  "wire_frame (P_PubComp \<lparr>pubcomp_pkid = 1\<rparr>) = [0x70, 2, 0, 1]"
  by (simp_all add: wire_frame_def wire_byte1_def publish_flags_def small_publish_def codec_eval)

lemma small_publish_honest:
  "fits_packet (P_Publish ((small_publish ExactlyOnce 1)\<lparr>pub_dup := b\<rparr>))"
  "length (wire_body (P_Publish ((small_publish ExactlyOnce 1)\<lparr>pub_dup := b\<rparr>))) \<le> MAX_REMAINING_LEN"
  by (simp_all add: small_publish_def codec_eval fits_string_def)

text \<open>A publish in three reads, one of them empty, its repetition in two, and the PUBREL in one.\<close>

definition demo_script :: "(packet \<times> bytes list) list" where
  "demo_script =
     [(P_Publish (small_publish ExactlyOnce 1), [[0x34], [], [6, 0, 1, 116, 0, 1, 1]]),
      (P_Publish ((small_publish ExactlyOnce 1)\<lparr>pub_dup := True\<rparr>), [[0x3C, 6, 0, 1], [116, 0, 1, 1]]),
      (P_PubRel \<lparr>pubrel_pkid = 1\<rparr>, [[0x62, 2, 0, 1]])]"

theorem qos2_exchange_refines_witness:
  "\<exists>s'. polls 6 demo_read demo_write (demo_receiver (concat (map snd demo_script))) = (Ok (), s') \<and>
    ft_writes (tk_transport s') = [[0x50, 2, 0, 1], [0x50, 2, 0, 1], [0x70, 2, 0, 1]] \<and>
    ch_events (tk_channels s' 0) = [RE_IncomingPublish (small_publish ExactlyOnce 1)]"
proof -
  let ?p = "small_publish ExactlyOnce 1" and ?cs = "concat (map snd demo_script)"
  note f = demo_receiver_facts [of ?cs]
  have q: "pub_qos ?p = ExactlyOnce" "pub_pkid ?p = 1" "?p\<lparr>pub_dup := False\<rparr> = ?p" by (simp_all add: small_publish_def)
  have ps: "packets demo_script = [P_Publish ?p, P_Publish (?p\<lparr>pub_dup := True\<rparr>), P_PubRel \<lparr>pubrel_pkid = 1\<rparr>]"
    "read_count demo_script = 6" by (simp_all add: demo_script_def)
  have h: "honest_peer (window_of (demo_receiver ?cs)) (seen_of (demo_receiver ?cs)) (packets demo_script)"
    unfolding f(2,3) ps using q small_publish_honest [of True] small_publish_honest [of False] by simp
  have "list_all (\<lambda>x. cut_of (fst x) (snd x) \<and> list_all (\<lambda>c. length c \<le> 4096) (snd x)) demo_script"
    by (simp add: demo_script_def cut_of_def demo_frames)
  from fake_peer_link [OF this, of "tk_transport (demo_receiver ?cs)"]
  have l: "peer_link demo_read demo_write demo_script (tk_transport (demo_receiver ?cs))
      \<lparr>ft_reads = [], ft_writes = map reply (packets demo_script)\<rparr>" unfolding f(4) by simp
  have r: "map reply (packets demo_script) = [[0x50, 2, 0, 1], [0x50, 2, 0, 1], [0x70, 2, 0, 1]]"
    unfolding ps using q by (simp add: demo_frames)
  have n: "first_seen {} (packets demo_script) = [?p]" unfolding ps using q by simp
  from qos2_exchange_refines [OF f(1) h l] show ?thesis
    unfolding ps(2) r f(3) n using f(5,6,7) by fastforce
qed

end
