(* ===== verification/Qos2_Reconnect.thy ===== *)
theory Qos2_Reconnect
  imports Qos2_Link Reconnect_Replay
begin

text \<open>
  What becomes of exactly-once delivery when the connection breaks between two halves of this code: the
  sending side from any state in which one QoS 2 publish is in flight, the receiving side in any state
  and over any transport.
\<close>

section \<open>The sender\<close>

definition packets_sent :: "driver_action list \<Rightarrow> packet list" where
  "packets_sent acts = concat (map (\<lambda>a. case a of A_Send p \<Rightarrow> [p] | _ \<Rightarrow> []) acts)"

text \<open>PUBREC, a broken and restored connection, and the acknowledgements of the second attempt.\<close>

definition broken_handshake :: "u16 \<Rightarrow> (nat \<Rightarrow> instant) \<Rightarrow> (instant \<times> driver_event) list" where
  "broken_handshake k now =
     [(now 0, D_Incoming (P_PubRec \<lparr>pubrec_pkid = k\<rparr>) (now 1)),
      (now 2, D_ConnectionLost False), (now 3, D_ConnectionRestored (now 4)),
      (now 5, D_Incoming (P_PubRec \<lparr>pubrec_pkid = k\<rparr>) (now 6)),
      (now 7, D_Incoming (P_PubComp \<lparr>pubcomp_pkid = k\<rparr>) (now 8))]"

lemma pubrec_keeps_rest:
  assumes "state_inv (drv_state d)"
    and "handle_event c (D_Incoming (P_PubRec p) t) d = (r, d')"
  shows "outgoing (inflight (drv_state d')) = outgoing (inflight (drv_state d))"
    "pending (inflight (drv_state d')) = pending (inflight (drv_state d))"
  using assms(2) by (auto simp: incoming_eq handle_pubrec_eq [OF assms(1)] Let_def split: if_splits)

lemma publish_slot:
  assumes "state_inv st" and "in_flight st = [publish_op t q c]" and "pub_qos q = ExactlyOnce" and "pub_pkid q = k"
  shows "slot_of (inflight st) k = Some (publish_op t q c)" "k \<noteq> 0"
proof -
  obtain j where j: "slot_of (inflight st) j = Some (publish_op t q c)"
    using held_op_slot [OF assms(1), of "publish_op t q c"] assms(2) by auto
  note o = state_invD(5) [OF assms(1) j]
  have "j = k" using o assms(3,4) by (simp add: op_carries_def publish_op_def new_op_def)
  then show "slot_of (inflight st) k = Some (publish_op t q c)" "k \<noteq> 0"
    using j op_carries_nonzero [OF o] by simp_all
qed

lemma sender_starts_over:
  assumes "state_inv (drv_state d)" and "pending (inflight (drv_state d)) = []"
    and "collision (inflight (drv_state d)) = None"
    and "in_flight (drv_state d) = [publish_op t q c]" and "pub_qos q = ExactlyOnce" and "pub_pkid q = k"
  shows "\<exists>d'. run_machine (\<lambda>(clock, e). handle_event clock e) (broken_handshake k now) d =
      ([Ok [A_Send (P_PubRel \<lparr>pubrel_pkid = k\<rparr>)], Ok [A_TriggerReconnect],
        Ok [A_Send (P_Publish (q\<lparr>pub_dup := True\<rparr>))], Ok [A_Send (P_PubRel \<lparr>pubrel_pkid = k\<rparr>)],
        Ok [A_CompleteFor c (Done_PubComp t k)]], d') \<and>
    slot_of (inflight (drv_state d')) k = None"
proof -
  let ?op = "publish_op t q c" and ?op' = "publish_op t (q\<lparr>pub_dup := True\<rparr>) c"
  note sl = publish_slot(1) [OF assms(1,4-6)]
  obtain d1 where 1: "handle_event (now 0) (D_Incoming (P_PubRec \<lparr>pubrec_pkid = k\<rparr>) (now 1)) d =
      (Ok [A_Send (P_PubRel \<lparr>pubrel_pkid = k\<rparr>)], d1)" "state_inv (drv_state d1)"
      "slot_of (inflight (drv_state d1)) = slot_of (inflight (drv_state d))"
      "collision (inflight (drv_state d1)) = collision (inflight (drv_state d))"
    using pubrec_step [OF assms(1) sl] by metis
  note r = pubrec_keeps_rest [OF assms(1) 1(1)]
  have op': "replayed_op ?op = ?op'" "op_packet ?op' = P_Publish (q\<lparr>pub_dup := True\<rparr>)"
    using assms(5) by (simp_all add: replayed_op_def publish_op_def new_op_def)
  have p1: "pending (inflight (drv_state d1)) = []" "collision (inflight (drv_state d1)) = None"
    using r(2) 1(4) assms(2,3) by simp_all
  obtain d2 d3 where 2: "handle_event (now 2) (D_ConnectionLost False) d1 = (Ok [A_TriggerReconnect], d2)"
    "handle_event (now 3) (D_ConnectionRestored (now 4)) d2 =
      (Ok (map (\<lambda>op. A_Send (op_packet (replayed_op op))) (in_flight (drv_state d1))), d3)"
    "state_inv (drv_state d3)" "collision (inflight (drv_state d3)) = None"
    "slot_of (inflight (drv_state d3)) k = map_option replayed_op (slot_of (inflight (drv_state d1)) k)"
    by (rule reconnect_resends [OF 1(2) p1, of "now 2" False "now 3" "now 4"]) (use that in blast)
  have e: "map (\<lambda>op. A_Send (op_packet (replayed_op op))) (in_flight (drv_state d1)) =
      [A_Send (P_Publish (q\<lparr>pub_dup := True\<rparr>))]" using r(1) assms(4) op' by simp
  have s3: "slot_of (inflight (drv_state d3)) k = Some ?op'" using 2(5) 1(3) sl op' by simp
  obtain d4 where 4: "handle_event (now 5) (D_Incoming (P_PubRec \<lparr>pubrec_pkid = k\<rparr>) (now 6)) d3 =
      (Ok [A_Send (P_PubRel \<lparr>pubrel_pkid = k\<rparr>)], d4)" "state_inv (drv_state d4)"
      "half_done k ?op' (inflight (drv_state d4))"
      "collision (inflight (drv_state d4)) = collision (inflight (drv_state d3))"
    using pubrec_step [OF 2(3) s3] by metis
  have w: "waiting_op k (inflight (drv_state d4)) = None" using 4(4) 2(4) by (simp add: waiting_op_def)
  obtain d5 where 5: "handle_event (now 7) (D_Incoming (P_PubComp \<lparr>pubcomp_pkid = k\<rparr>) (now 8)) d4 =
      (Ok [A_CompleteFor c (Done_PubComp t k)], d5)" "slot_of (inflight (drv_state d5)) k = None"
    by (rule pubcomp_step [OF 4(2,3), of "now 7" "now 8"]) (use w in \<open>simp add: publish_op_def new_op_def\<close>)
  show ?thesis
    using 1(1) 2(1,2) e 4(1) 5 by (intro exI [of _ d5]) (simp add: broken_handshake_def)
qed

section \<open>Two halves\<close>

lemma dup_frame [simp]:
  "fits_packet (P_Publish (q\<lparr>pub_dup := b\<rparr>)) = fits_packet (P_Publish q)"
  "wire_body (P_Publish (q\<lparr>pub_dup := b\<rparr>)) = wire_body (P_Publish q)"
  by simp_all

text \<open>
  Claim C38 (error). Exactly-once delivery does not survive a lost PUBCOMP.  Sender: in any online state of the
  invariant with one QoS 2 publish in flight, one that fits a frame, no collision and nothing pending, it has its PUBREC and sends PUBREL; the
  connection of a persistent session breaks and is restored, and it starts over with PUBLISH, now with
  the DUP flag, where MQTT 3.1.1 (section 4.3.3) asks for PUBREL; a second handshake completes the
  command, once.  Receiver: the receiving half of this code, with its invariant, in whose window the id
  is and not open, over any transport that delivers what the sender has sent, in any pieces, and takes
  the replies.  It hands the message to every subscriber a second time.
\<close>
theorem reconnect_delivers_twice:
  fixes s :: "'t runtime_task" and read :: "('t, 'io) transport_read" and write_all :: "('t, 'io) transport_write"
  assumes "state_inv (drv_state d)" and "active (drv_state d)" and "pending (inflight (drv_state d)) = []"
    and "collision (inflight (drv_state d)) = None"
    and "in_flight (drv_state d) = [publish_op t q c]" and "pub_qos q = ExactlyOnce" and "pub_pkid q = k"
    and "fits_packet (P_Publish q)" and "length (wire_body (P_Publish q)) \<le> MAX_REMAINING_LEN"
    and "link_inv s" and "k \<le> window_of s" and "k \<notin> seen_of s"
    and "packets script = [P_Publish q, P_PubRel \<lparr>pubrel_pkid = k\<rparr>, P_Publish (q\<lparr>pub_dup := True\<rparr>), P_PubRel \<lparr>pubrel_pkid = k\<rparr>]"
    and "peer_link read write_all script (tk_transport s) t'"
  shows "\<exists>rs d' s'. run_machine (\<lambda>(clock, e). handle_event clock e) (broken_handshake k now) d = (rs, d') \<and>
    packets script = P_Publish q # packets_sent (outputs rs) \<and>
    [a \<leftarrow> outputs rs. \<exists>c done. a = A_CompleteFor c done] = [A_CompleteFor c (Done_PubComp t k)] \<and>
    slot_of (inflight (drv_state d')) k = None \<and>
    polls (read_count script) read write_all s = (Ok (), s') \<and> tk_transport s' = t' \<and>
    (\<forall>c' tx. channel_of s c' = Some tx \<longrightarrow> subscribed s c' q \<longrightarrow>
       ch_events (tk_channels s' tx) = ch_events (tk_channels s tx) @
         [RE_IncomingPublish q, RE_IncomingPublish (q\<lparr>pub_dup := True\<rparr>)])"
proof -
  let ?q = "q\<lparr>pub_dup := True\<rparr>"
  from sender_starts_over [OF assms(1,3-7), of now] obtain d' where
    1: "run_machine (\<lambda>(clock, e). handle_event clock e) (broken_handshake k now) d =
      ([Ok [A_Send (P_PubRel \<lparr>pubrel_pkid = k\<rparr>)], Ok [A_TriggerReconnect],
        Ok [A_Send (P_Publish ?q)], Ok [A_Send (P_PubRel \<lparr>pubrel_pkid = k\<rparr>)],
        Ok [A_CompleteFor c (Done_PubComp t k)]], d')" "slot_of (inflight (drv_state d')) k = None"
    by (elim exE conjE)
  have k: "0 < k" using publish_slot(2) [OF assms(1,5-7)] by (simp add: word_neq_0_conv)
  have h: "honest_peer (window_of s) (seen_of s) (packets script)"
    unfolding assms(13) using assms(6-9,11) k by simp
  have f: "first_seen (seen_of s) (packets script) = [q, ?q]"
    unfolding assms(13) using assms(7,12) by simp
  have sub: "subscribed s c' ?q = subscribed s c' q" for c' by (simp add: subscribed_def)
  from receive_all [where write_all = write_all, OF assms(10) h assms(14)] obtain s' where
    2: "polls (read_count script) read write_all s = (Ok (), s')" "tk_transport s' = t'" "received s [q, ?q] s'"
    unfolding f by (elim exE conjE)
  show ?thesis
    using 1 2 sub assms(13)
    by (intro exI [of _ "[Ok [A_Send (P_PubRel \<lparr>pubrel_pkid = k\<rparr>)], Ok [A_TriggerReconnect],
        Ok [A_Send (P_Publish ?q)], Ok [A_Send (P_PubRel \<lparr>pubrel_pkid = k\<rparr>)],
        Ok [A_CompleteFor c (Done_PubComp t k)]]"] exI [of _ d'] exI [of _ s'] conjI)
      (simp_all add: packets_sent_def received_def)
qed

text \<open>The second publish arrives on the new connection in two pieces.\<close>

definition reconnect_script :: "(packet \<times> bytes list) list" where
  "reconnect_script =
     [(P_Publish (small_publish ExactlyOnce 1), [[0x34, 6, 0, 1, 116, 0, 1, 1]]),
      (P_PubRel \<lparr>pubrel_pkid = 1\<rparr>, [[0x62, 2, 0, 1]]),
      (P_Publish ((small_publish ExactlyOnce 1)\<lparr>pub_dup := True\<rparr>), [[0x3C, 6, 0], [1, 116, 0, 1, 1]]),
      (P_PubRel \<lparr>pubrel_pkid = 1\<rparr>, [[0x62, 2, 0, 1]])]"

theorem reconnect_delivers_twice_witness:
  "\<exists>s'. polls 5 demo_read demo_write (demo_receiver (concat (map snd reconnect_script))) = (Ok (), s') \<and>
    ch_events (tk_channels s' 0) = [RE_IncomingPublish (small_publish ExactlyOnce 1),
      RE_IncomingPublish ((small_publish ExactlyOnce 1)\<lparr>pub_dup := True\<rparr>)]"
proof -
  let ?p = "small_publish ExactlyOnce 1" and ?cs = "concat (map snd reconnect_script)" and ?d = "publishing ExactlyOnce"
  note f = demo_receiver_facts [of ?cs]
  have d: "active (drv_state ?d)" "pending (inflight (drv_state ?d)) = []" "collision (inflight (drv_state ?d)) = None"
    "in_flight (drv_state ?d) = [publish_op 7 ?p 3]"
    by (simp_all add: small_eval publish_op_def held_ops_def)
  have q: "pub_qos ?p = ExactlyOnce" "pub_pkid ?p = 1" by (simp_all add: small_publish_def)
  have p: "?p\<lparr>pub_dup := False\<rparr> = ?p" by (simp add: small_publish_def)
  have h: "fits_packet (P_Publish ?p)" "length (wire_body (P_Publish ?p)) \<le> MAX_REMAINING_LEN"
    using small_publish_honest [of False, unfolded p] .
  have r: "1 \<le> window_of (demo_receiver ?cs)" "1 \<notin> seen_of (demo_receiver ?cs)"
    unfolding f(2,3) by (simp_all add: word_le_nat_alt)
  have ps: "packets reconnect_script = [P_Publish ?p, P_PubRel \<lparr>pubrel_pkid = 1\<rparr>,
      P_Publish (?p\<lparr>pub_dup := True\<rparr>), P_PubRel \<lparr>pubrel_pkid = 1\<rparr>]" "read_count reconnect_script = 5"
    by (simp_all add: reconnect_script_def)
  have "list_all (\<lambda>x. cut_of (fst x) (snd x) \<and> list_all (\<lambda>c. length c \<le> 4096) (snd x)) reconnect_script"
    by (simp add: reconnect_script_def cut_of_def demo_frames)
  from fake_peer_link [OF this, of "tk_transport (demo_receiver ?cs)"]
  have l: "peer_link demo_read demo_write reconnect_script (tk_transport (demo_receiver ?cs))
      \<lparr>ft_reads = [], ft_writes = map reply (packets reconnect_script)\<rparr>" unfolding f(4) by simp
  from reconnect_delivers_twice [OF small_inv d q h f(1) r ps(1) l, of "\<lambda>_. 5"] show ?thesis
    unfolding ps(2) using f(5,6,7) by fastforce
qed

end
