(* ===== verification/Task_Ledger.thy ===== *)
theory Task_Ledger
  imports Client_Host
begin

text \<open>
  The ledger of the whole task: every (client, token) pair is in the command queue, held by the
  session, or told to its client.  No step of the loop makes one up or tells one twice.
\<close>

section \<open>What clients have been told\<close>

fun told_event :: "nat \<Rightarrow> runtime_event \<Rightarrow> owner_bag" where
  "told_event c (RE_Completion d) = {#(c, completion_token d)#}"
| "told_event c _ = {#}"

definition told_channel :: "nat \<Rightarrow> event_channel \<Rightarrow> owner_bag" where
  "told_channel c ch = sum_list (map (told_event c) (ch_events ch))"

definition told :: "'t runtime_task \<Rightarrow> owner_bag" where
  "told s = sum_list (map (\<lambda>(c, tx). told_channel c (tk_channels s tx)) (reg_event_txs (tk_registry s)))"

definition queued :: "command list \<Rightarrow> owner_bag" where
  "queued cmds = sum_list (map command_owner cmds)"

definition total_owners :: "'t runtime_task \<Rightarrow> owner_bag" where
  "total_owners s = queued (cmd_queue (tk_command_rx s)) + owners (drv_state (tk_driver s)) + told s"

lemma queued_simps [simp]:
  "queued [] = {#}" "queued (c # cs) = command_owner c + queued cs" "queued (cs @ ds) = queued cs + queued ds"
  by (simp_all add: queued_def)

lemma told_channel_appended [simp]: "told_channel c (appended e ch) = told_channel c ch + told_event c e"
  by (simp add: told_channel_def)

lemma told_other:
  "tx \<notin> snd ` set zs \<Longrightarrow>
     sum_list (map (\<lambda>(c, tx'). told_channel c (if tx' = tx then ch else chs tx')) zs) =
     sum_list (map (\<lambda>(c, tx'). told_channel c (chs tx')) zs)"
  by (induction zs) auto

lemma told_sent:
  assumes "registry_inv (tk_registry s)" and "channel_of s c = Some tx"
  shows "told (s\<lparr>tk_channels := (tk_channels s)(tx := appended e (tk_channels s tx))\<rparr>) = told s + told_event c e"
proof -
  have "(c, tx) \<in> set (reg_event_txs (tk_registry s))"
    using assms(2) by (auto simp: channel_of_def dest: map_of_SomeD)
  then obtain xs ys where r: "reg_event_txs (tk_registry s) = xs @ (c, tx) # ys" by (meson split_list)
  then have "tx \<notin> snd ` set xs" "tx \<notin> snd ` set ys" using assms(1) by (auto simp: registry_inv_def)
  then show ?thesis unfolding told_def by (simp add: r told_other)
qed

section \<open>The ledger logic of the task\<close>

definition ledger_inv :: "'t runtime_task \<Rightarrow> bool" where
  "ledger_inv s \<longleftrightarrow> state_inv (drv_state (tk_driver s)) \<and> registry_inv (tk_registry s)"

definition task_ledger :: "owner_bag \<Rightarrow> ('t, 'io, 'a) task_op \<Rightarrow> ('a \<Rightarrow> owner_bag) \<Rightarrow> bool" where
  "task_ledger g m d \<longleftrightarrow> (\<forall>s r s'. ledger_inv s \<longrightarrow> m s = (r, s') \<longrightarrow>
     ledger_inv s' \<and> total_owners s' + reported d r \<subseteq># total_owners s + g)"

lemma task_ledgerI:
  assumes "\<And>s r s'. ledger_inv s \<Longrightarrow> m s = (r, s') \<Longrightarrow>
    ledger_inv s' \<and> total_owners s' + reported d r \<subseteq># total_owners s + g"
  shows "task_ledger g m d"
  using assms unfolding task_ledger_def by blast

lemma task_ledgerD:
  assumes "task_ledger g m d" "ledger_inv s" "m s = (r, s')"
  shows "ledger_inv s'" "total_owners s' + reported d r \<subseteq># total_owners s + g"
  using assms unfolding task_ledger_def by blast+

lemma task_ledger_and_then:
  assumes m: "task_ledger g m d" and f: "\<And>x s s'. m s = (Ok x, s') \<Longrightarrow> task_ledger (d x) (f x) d'"
  shows "task_ledger g (and_then m f) d'"
proof (rule task_ledgerI)
  fix s r s' assume s: "ledger_inv s" and r: "and_then m f s = (r, s')"
  obtain r1 s1 where m1: "m s = (r1, s1)" by (cases "m s")
  note 1 = task_ledgerD [OF m s m1]
  show "ledger_inv s' \<and> total_owners s' + reported d' r \<subseteq># total_owners s + g"
  proof (cases r1)
    case (Ok x)
    then have "f x s1 = (r, s')" using r m1 by simp
    note 2 = task_ledgerD [OF f [OF m1 [unfolded Ok]] 1(1) this]
    then show ?thesis using 1(2) Ok by (metis reported_simps(1) subset_mset.order_trans)
  qed (use 1 r m1 in \<open>auto simp: and_then_def\<close>)
qed

text \<open>A step that touches neither queue, session, registry nor channels.\<close>

definition books :: "'t runtime_task \<Rightarrow> command_channel \<times> runtime_driver \<times> client_registry \<times> channels" where
  "books s = (tk_command_rx s, tk_driver s, tk_registry s, tk_channels s)"

lemma task_ledger_keeps: "keeps books m \<Longrightarrow> task_ledger g m (\<lambda>_. {#})"
proof (rule task_ledgerI)
  fix s r s' assume k: "keeps books m" and i: "ledger_inv s" and m: "m s = (r, s')"
  have "books s' = books s" by (rule keepsD [OF k m])
  with i show "ledger_inv s' \<and> total_owners s' + reported (\<lambda>_. {#}) r \<subseteq># total_owners s + g"
    by (cases r) (simp_all add: books_def ledger_inv_def total_owners_def told_def)
qed

lemma task_ledger_done: "task_ledger g (ret x) (\<lambda>_. {#})" "task_ledger g (throw e) d"
  "d x \<subseteq># g \<Longrightarrow> task_ledger g (ret x) d"
  by (auto simp: task_ledger_def ret_def throw_def subset_mset.add_left_mono)

section \<open>The steps of the task\<close>

lemma books_field:
  "keeps books (on_field tk_transport (\<lambda>d self. self\<lparr>tk_transport := d\<rparr>) m)"
  "keeps books (on_field tk_parser (\<lambda>d self. self\<lparr>tk_parser := d\<rparr>) m')"
  "keeps books (with_local t m'')" "keeps books instant_now"
  by (auto simp: keeps_def on_field_def books_def instant_now_def with_local_def op_combinators
      split: prod.split outcome.split)

lemma ledger_drive: "task_ledger (event_owner e) (drive e) actions_owner"
proof (rule task_ledgerI)
  fix s r s' assume i: "ledger_inv s" and r: "drive e s = (r, s')"
  obtain r1 d where h: "handle_event (shd (tk_clock s)) e (tk_driver s) = (r1, d)"
    by (cases "handle_event (shd (tk_clock s)) e (tk_driver s)")
  have s': "r = map_err TE_Runtime r1" "s' = s\<lparr>tk_clock := stl (tk_clock s), tk_driver := d\<rparr>"
    using r h by (simp_all add: drive_def instant_now_def op_defs)
  have "state_inv (drv_state (tk_driver s))" using i by (simp add: ledger_inv_def)
  note l = handle_event_ledger [OF this h]
  have "reported actions_owner r = reported actions_owner r1" using s'(1) by (cases r1) simp_all
  moreover have "told s' = told s" using s'(2) by (simp add: told_def)
  ultimately show "ledger_inv s' \<and> total_owners s' + reported actions_owner r \<subseteq># total_owners s + event_owner e"
    using l i s'(2)
    by (simp add: ledger_inv_def total_owners_def ac_simps)
qed

lemma ledger_on_driver_state:
  fixes m :: "'a state_op"
  assumes "ledger {#} m d"
  shows "task_ledger {#} (on_driver_state m) (\<lambda>_. {#})"
proof (rule task_ledgerI)
  fix s r s' assume i: "ledger_inv s" and r: "on_driver_state m s = (r, s')"
  obtain r1 st where h: "m (drv_state (tk_driver s)) = (r1, st)" by (cases "m (drv_state (tk_driver s))")
  have s': "s' = s\<lparr>tk_driver := (tk_driver s)\<lparr>drv_state := st\<rparr>\<rparr>"
    using r h by (simp add: on_driver_state_def on_state_def map_err_op_def on_field_def)
  have "state_inv (drv_state (tk_driver s))" using i by (simp add: ledger_inv_def)
  note l = ledgerD [OF assms this h]
  have "owners st \<subseteq># owners (drv_state (tk_driver s))"
    using l(3) by (metis add.right_neutral mset_subset_eq_add_left subset_mset.order_trans)
  moreover have "told s' = told s" using s' by (simp add: told_def)
  ultimately show "ledger_inv s' \<and> total_owners s' + reported (\<lambda>_. {#}) r \<subseteq># total_owners s + {#}"
    using l(2) i s' by (cases r) (simp_all add: ledger_inv_def total_owners_def)
qed

lemma ledger_send_event: "task_ledger (told_event c e) (send_event_to c e) (\<lambda>_. {#})"
proof (rule task_ledgerI)
  fix s r s' assume i: "ledger_inv s" and r: "send_event_to c e s = (r, s')"
  have reg: "registry_inv (tk_registry s)" using i by (simp add: ledger_inv_def)
  show "ledger_inv s' \<and> total_owners s' + reported (\<lambda>_. {#}) r \<subseteq># total_owners s + told_event c e"
  proof (cases "\<exists>tx. channel_of s c = Some tx \<and> ch_receiver_alive (tk_channels s tx)")
    case True
    then obtain tx where tx: "channel_of s c = Some tx" "ch_receiver_alive (tk_channels s tx)" by blast
    then have "r = Ok ()" "s' = s\<lparr>tk_channels := (tk_channels s)(tx := appended e (tk_channels s tx))\<rparr>"
      using r by (simp_all add: send_event_to_eq)
    then show ?thesis using told_sent [OF reg tx(1), of e] i by (simp add: ledger_inv_def total_owners_def)
  next
    case False
    then have "s' = s" "\<And>d. reported (\<lambda>_. {#}) r = {#}"
      using r by (auto simp: send_event_to_eq split: option.splits if_splits)
    then show ?thesis using i by simp
  qed
qed

section \<open>Performing actions\<close>

lemma ledger_instant_now: "task_ledger {#} instant_now (\<lambda>_. {#})"
  by (rule task_ledger_keeps [OF books_field(4)])

lemma ledger_send_packet: "task_ledger {#} (send_packet w p) (\<lambda>_. {#})"
  unfolding send_packet_def
  by (intro task_ledger_and_then [where d = "\<lambda>_. {#}"] ledger_instant_now task_ledger_keeps
      keeps_map_err_op books_field ledger_on_driver_state [OF ledger_notes(2)])

lemma ledger_send_completion: "task_ledger {#(c, completion_token d)#} (send_completion_to c d) (\<lambda>_. {#})"
  using ledger_send_event [of c "RE_Completion d"] by (simp add: send_completion_to_def)

lemma told_broadcast:
  assumes "\<And>c. told_event c e = {#}"
  shows "told_channel c (if P then appended e ch else ch) = told_channel c ch"
  using assms by simp

lemma ledger_broadcast:
  assumes "\<And>c. told_event c e = {#}"
  shows "task_ledger {#} (broadcast_event e) (\<lambda>_. {#})"
proof (rule task_ledgerI)
  fix s r s' assume i: "ledger_inv s" and r: "broadcast_event e s = (r, s')"
  have s': "r = Ok ()" "s' = s\<lparr>tk_channels := \<lambda>tx.
      if tx \<in> snd ` set (reg_event_txs (tk_registry s)) \<and> ch_receiver_alive (tk_channels s tx)
      then appended e (tk_channels s tx) else tk_channels s tx\<rparr>"
    using r i by (simp_all add: ledger_inv_def broadcast_event_eq)
  then have "told s' = told s" by (simp add: told_def told_broadcast [OF assms])
  then show "ledger_inv s' \<and> total_owners s' + reported (\<lambda>_. {#}) r \<subseteq># total_owners s + {#}"
    using i s' by (simp add: ledger_inv_def total_owners_def)
qed

lemma ledger_broadcasts:
  "task_ledger {#} (broadcast_event RE_Reconnected) (\<lambda>_. {#})"
  "task_ledger {#} (broadcast_event RE_Disconnected) (\<lambda>_. {#})"
  by (simp_all add: ledger_broadcast)

lemma ledger_router: "task_ledger {#} (modify (\<lambda>self. self\<lparr>tk_router := f (tk_router self)\<rparr>)) (\<lambda>_. {#})"
  by (rule task_ledger_keeps [OF keeps_modify]) (simp add: books_def)

lemma task_ledger_frame: "task_ledger g m d \<Longrightarrow> task_ledger (g + h) m (\<lambda>x. d x + h)"
proof (rule task_ledgerI)
  fix s r s' assume m: "task_ledger g m d" and s: "ledger_inv s" and r: "m s = (r, s')"
  note l = task_ledgerD [OF m s r]
  have "total_owners s' + reported (\<lambda>x. d x + h) r \<subseteq># total_owners s' + reported d r + h"
    by (cases r) simp_all
  also have "\<dots> \<subseteq># total_owners s + g + h" using l(2) by (rule subset_mset.add_right_mono)
  finally show "ledger_inv s' \<and> total_owners s' + reported (\<lambda>x. d x + h) r \<subseteq># total_owners s + (g + h)"
    using l(1) by (simp add: ac_simps)
qed

lemma task_ledger_seq:
  assumes "task_ledger g m (\<lambda>_. {#})" and "\<And>x. task_ledger h (f x) d"
  shows "task_ledger (g + h) (and_then m f) d"
  using task_ledger_frame [OF assms(1), of h] assms(2) by (intro task_ledger_and_then) simp_all

lemma sends_own_nothing: "list_all is_send as \<Longrightarrow> actions_owner as = {#}"
proof (induction as)
  case (Cons a as)
  then show ?case by (cases a) simp_all
qed simp

lemma ledger_handle_sends: "list_all is_send as \<Longrightarrow> task_ledger {#} (handle_actions w as) (\<lambda>_. {#})"
proof (induction as)
  case (Cons a as)
  then show ?case
    using task_ledger_seq [OF ledger_send_packet, of "{#}"] by (cases a) (simp_all add: handle_actions_eqs)
qed (simp add: handle_actions_eqs task_ledger_done)

lemma ledger_begin_reconnect: "task_ledger {#} begin_reconnect actions_owner"
proof -
  have "task_ledger {#} (drive (D_ConnectionRestored now)) actions_owner" for now
    using ledger_drive [of "D_ConnectionRestored now"] by simp
  then show ?thesis
    unfolding begin_reconnect_def by (intro task_ledger_and_then [OF ledger_instant_now])
qed

lemma ledger_reconnect: "task_ledger {#} (reconnect w) (\<lambda>_. {#})"
proof -
  note b = ledger_begin_reconnect
  show ?thesis
    unfolding reconnect_def
  proof (rule task_ledger_and_then [OF b])
    fix x and s s' :: "'a runtime_task"
    assume "begin_reconnect s = (Ok x, s')"
    then have "list_all is_send x" by (rule begin_reconnect_sends)
    then show "task_ledger (actions_owner x) (and_then (handle_actions w x) (\<lambda>_. broadcast_event RE_Reconnected)) (\<lambda>_. {#})"
      using task_ledger_seq [OF ledger_handle_sends ledger_broadcasts(1)] by (simp add: sends_own_nothing)
  qed
qed

lemma ledger_handle_actions: "task_ledger (actions_owner as) (handle_actions w as) (\<lambda>_. {#})"
proof (induction as)
  case (Cons a as)
  note seq = task_ledger_seq [OF _ Cons.IH]
  show ?case
  proof (cases a)
    case (A_Send p)
    then show ?thesis using seq [OF ledger_send_packet] by (simp add: handle_actions_eqs)
  next
    case (A_CompleteFor c d)
    then show ?thesis using seq [OF ledger_send_completion] by (simp add: handle_actions_eqs)
  next
    case (A_SubscribeAckFor c fs d)
    then show ?thesis
      using task_ledger_seq [OF ledger_router seq [OF ledger_send_completion]] by (simp add: handle_actions_eqs)
  next
    case (A_UnsubscribeAckFor c ts d)
    then show ?thesis
      using task_ledger_seq [OF ledger_router seq [OF ledger_send_completion]] by (simp add: handle_actions_eqs)
  next
    case A_TriggerReconnect
    then show ?thesis
      using task_ledger_seq [OF ledger_broadcasts(2) seq [OF ledger_reconnect]] by (simp add: handle_actions_reconnect)
  qed
qed (simp add: handle_actions_eqs task_ledger_done)

lemma ledger_drive_and_act:
  "task_ledger (event_owner e) (and_then (drive e) (handle_actions w)) (\<lambda>_. {#})"
  by (rule task_ledger_and_then [OF ledger_drive ledger_handle_actions])

section \<open>One round\<close>

lemma ledger_basic: "task_ledger {#} (get f) (\<lambda>_. {#})" "task_ledger {#} (lift r) (\<lambda>_. {#})"
  by (rule task_ledger_keeps, intro keeps_intros)+

lemma ledger_fanout: "task_ledger {#} (fanout_publish p) (\<lambda>_. {#})"
proof -
  have one: "task_ledger {#} (send_event_to c (RE_IncomingPublish p)) (\<lambda>_. {#})" for c
    using ledger_send_event [of c "RE_IncomingPublish p"] by simp
  have "task_ledger {#} (fanout_loop ids p) (\<lambda>_. {#})" for ids
    by (induction ids) (auto intro!: task_ledger_and_then [OF one] task_ledger_done)
  then show ?thesis
    unfolding fanout_publish_def by (intro task_ledger_and_then [OF ledger_basic(1)] task_ledger_and_then [OF ledger_basic(2)])
qed

lemma ledger_handle_incoming_publish: "task_ledger {#} (handle_incoming_publish w p now) (\<lambda>_. {#})"
proof -
  note driver_notes = ledger_on_driver_state [OF ledger_notes(1)] ledger_on_driver_state [OF ledger_on_incoming_qos2]
  show ?thesis
    unfolding handle_incoming_publish_def
    by (auto intro!: task_ledger_and_then [where d = "\<lambda>_. {#}"] driver_notes ledger_fanout ledger_send_packet
        split: qos.split incoming_qos2_result.split)
qed

lemma keeps_books_read_one_packet: "keeps books (read_one_packet read)"
proof -
  have "keeps books (\<lambda>self. case read (tk_read_buf self) (tk_transport self) of
      (r, buf, t) \<Rightarrow> (map_err TE_Io r, self\<lparr>tk_read_buf := buf, tk_transport := t\<rparr>))"
    by (auto simp: keeps_def books_def split: prod.split)
  then show ?thesis
    unfolding read_one_packet_def by (auto intro!: keeps_intros books_field)
qed

lemma ledger_poll_incoming: "task_ledger {#} (poll_incoming read w) (\<lambda>_. {#})"
proof -
  have act: "task_ledger {#} (and_then (drive (D_Incoming p now)) (handle_actions w)) (\<lambda>_. {#})" for p now
    using ledger_drive_and_act [of "D_Incoming p now"] by simp
  show ?thesis
    unfolding poll_incoming_def
    by (auto intro!: task_ledger_and_then [OF task_ledger_keeps [OF keeps_books_read_one_packet]] task_ledger_done
        task_ledger_and_then [OF ledger_instant_now] ledger_handle_incoming_publish act
        split: option.split packet.split)
qed

fun received_owner :: "try_recv \<Rightarrow> owner_bag" where
  "received_owner (TR_Command c) = command_owner c"
| "received_owner _ = {#}"

lemma ledger_try_recv: "task_ledger {#} try_recv_cmd received_owner"
  by (rule task_ledgerI)
    (auto simp: try_recv_cmd_def op_combinators total_owners_def ledger_inv_def told_def split: list.splits if_splits)

lemma ledger_poll_command: "task_ledger {#} (poll_command w) (\<lambda>_. {#})"
  unfolding poll_command_def
proof (rule task_ledger_and_then [OF ledger_try_recv])
  fix x
  show "task_ledger (received_owner x) (case x of
       TR_Command cmd \<Rightarrow> and_then (drive (D_Command cmd)) (handle_actions w)
     | TR_Empty \<Rightarrow> ret ()
     | TR_Disconnected \<Rightarrow> throw TE_CommandChannelClosed) (\<lambda>_. {#})"
    using ledger_drive_and_act [of "D_Command c" for c]
    by (cases x) (simp_all add: task_ledger_done)
qed

lemma ledger_poll_tick: "task_ledger {#} (poll_tick w) (\<lambda>_. {#})"
proof -
  have act: "task_ledger {#} (and_then (drive (D_Tick now)) (handle_actions w)) (\<lambda>_. {#})" for now
    using ledger_drive_and_act [of "D_Tick now"] by simp
  have "task_ledger {#} (modify (\<lambda>self. self\<lparr>tk_last_tick := now\<rparr>)) (\<lambda>_. {#})" for now
    by (rule task_ledger_keeps [OF keeps_modify]) (simp add: books_def)
  then show ?thesis
    unfolding poll_tick_def
    by (auto intro!: task_ledger_and_then [where d = "\<lambda>_. {#}"] ledger_instant_now ledger_basic task_ledger_done act)
qed

lemma ledger_poll_round: "task_ledger {#} (poll_round read w) (\<lambda>_. {#})"
  unfolding poll_round_def
  by (intro task_ledger_and_then [OF ledger_poll_command] task_ledger_and_then [OF ledger_poll_incoming] ledger_poll_tick)

end
