(* ===== verification/Task_Run.thy ===== *)
theory Task_Run
  imports Task_Properties
begin

text \<open>
  The loop of the task, \<open>RuntimeTask::run\<close> in src/runtime/task.rs, as a partial function: None is a loop
  that never returns.  It returns exactly when one of its rounds fails, and it always does once every
  Sender of the command channel is gone.
\<close>

section \<open>The loop\<close>

text \<open>
  Between two rounds the clients may send commands, and the last Sender may go; after that nothing
  arrives.
\<close>

type_synonym senders_act = "command list \<times> bool"

definition senders_act :: "senders_act \<Rightarrow> ('t, 'io, unit) task_op" where
  "senders_act act =
     modify (\<lambda>self.
       let rx = tk_command_rx self
       in if cmd_sender_alive rx
          then self\<lparr>tk_command_rx := \<lparr>cmd_queue = cmd_queue rx @ fst act, cmd_sender_alive = (\<not> snd act)\<rparr>\<rparr>
          else self)"

definition run_round ::
  "('t, 'io) transport_read \<Rightarrow> ('t, 'io) transport_write \<Rightarrow> senders_act \<Rightarrow> ('t, 'io, unit) task_op" where
  "run_round read write_all act = and_then (senders_act act) (\<lambda>_. poll_round read write_all)"

partial_function (option) run ::
  "('t, 'io) transport_read \<Rightarrow> ('t, 'io) transport_write \<Rightarrow> senders_act stream \<Rightarrow> 't runtime_task \<Rightarrow>
    (('io runtime_task_error, unit) outcome \<times> 't runtime_task) option" where
  "run read write_all env self =
     (case run_round read write_all (shd env) self of
        (Ok _, self) \<Rightarrow> run read write_all (stl env) self
      | (Err e, self) \<Rightarrow> Some (Err e, self)
      | (Panic, self) \<Rightarrow> Some (Panic, self))"

text \<open>Its first rounds.\<close>

fun run_prefix ::
  "('t, 'io) transport_read \<Rightarrow> ('t, 'io) transport_write \<Rightarrow> senders_act list \<Rightarrow> ('t, 'io, unit) task_op" where
  "run_prefix read write_all [] = ret ()"
| "run_prefix read write_all (act # acts) =
     and_then (run_round read write_all act) (\<lambda>_. run_prefix read write_all acts)"

lemma run_finds_prefix:
  "run_prefix read write_all (stake n env) s = (r, s') \<Longrightarrow> r \<noteq> Ok () \<Longrightarrow> run read write_all env s = Some (r, s')"
proof (induction n arbitrary: env s)
  case (Suc n)
  obtain r1 s1 where s1: "run_round read write_all (shd env) s = (r1, s1)"
    by (cases "run_round read write_all (shd env) s")
  with Suc show ?case by (subst run.simps) (cases r1; auto simp: and_then_def)
qed (simp add: ret_def)

lemma run_is_prefix:
  assumes "run read write_all env s = Some x"
  shows "\<exists>n. run_prefix read write_all (stake n env) s = x \<and> fst x \<noteq> Ok ()"
proof (rule run.raw_induct [OF _ assms])
  fix f read write_all env s x
  assume IH: "\<And>read write_all env s x. f read write_all env s = Some x \<Longrightarrow>
      \<exists>n. run_prefix read write_all (stake n env) s = x \<and> fst x \<noteq> Ok ()"
    and x: "(case run_round read write_all (shd env) s of
        (Ok _, self) \<Rightarrow> f read write_all (stl env) self
      | (Err e, self) \<Rightarrow> Some (Err e, self)
      | (Panic, self) \<Rightarrow> Some (Panic, self)) = Some x"
  obtain r1 s1 where s1: "run_round read write_all (shd env) s = (r1, s1)"
    by (cases "run_round read write_all (shd env) s")
  show "\<exists>n. run_prefix read write_all (stake n env) s = x \<and> fst x \<noteq> Ok ()"
  proof (cases r1)
    case (Ok u)
    then have "f read write_all (stl env) s1 = Some x" using x s1 by simp
    then obtain n where "run_prefix read write_all (stake n (stl env)) s1 = x \<and> fst x \<noteq> Ok ()" using IH by blast
    then show ?thesis using s1 Ok by (intro exI [of _ "Suc n"]) (simp add: and_then_def)
  qed (use x s1 in \<open>auto simp: and_then_def intro!: exI [of _ "Suc 0"]\<close>)
qed

lemma run_iff:
  "run read write_all env s = Some (r, s') \<longleftrightarrow>
     r \<noteq> Ok () \<and> (\<exists>n. run_prefix read write_all (stake n env) s = (r, s'))"
  using run_finds_prefix run_is_prefix by fastforce

section \<open>What a round leaves alone\<close>

text \<open>Only the receipt of a command touches the command channel; nothing touches the registry.\<close>

abbreviation fixtures :: "'t runtime_task \<Rightarrow> command_channel \<times> client_registry" where
  "fixtures s \<equiv> (tk_command_rx s, tk_registry s)"

lemma keeps_fixtures_fields [keeps_intros]:
  "keeps fixtures (on_field tk_transport (\<lambda>d self. self\<lparr>tk_transport := d\<rparr>) m)"
  "keeps fixtures (on_field tk_driver (\<lambda>d self. self\<lparr>tk_driver := d\<rparr>) m1)"
  "keeps fixtures (on_field tk_channels (\<lambda>d self. self\<lparr>tk_channels := d\<rparr>) m2)"
  "keeps fixtures (with_local t m3)"
  by (auto simp: keeps_def on_field_def with_local_def split: prod.split outcome.split)

lemma keeps_fixtures [keeps_intros]:
  "keeps fixtures instant_now" "keeps fixtures (drive e)" "keeps fixtures (on_driver_state m)"
  "keeps fixtures (send_packet w p)" "keeps fixtures (send_event_to c ev)"
  "keeps fixtures (broadcast_event ev)" "keeps fixtures (send_completion_to c d)"
proof -
  show n: "keeps fixtures instant_now"
    unfolding instant_now_def by (intro keeps_intros keeps_modify; simp)
  show "keeps fixtures (drive e)" unfolding drive_def by (intro keeps_intros n)
  show d: "keeps fixtures (on_driver_state m)" for m :: "'x state_op"
    unfolding on_driver_state_def by (intro keeps_intros)
  show "keeps fixtures (send_packet w p)" unfolding send_packet_def by (intro keeps_intros n d)
  show "keeps fixtures (send_event_to c ev)" "keeps fixtures (broadcast_event ev)" for c ev
    unfolding send_event_to_def broadcast_event_def on_channels_def by (intro keeps_intros)+
  then show "keeps fixtures (send_completion_to c d)" by (simp add: send_completion_to_def)
qed

lemma keeps_result:
  assumes "keeps g m" and "\<And>x s s'. m s = (Ok x, s') \<Longrightarrow> keeps g (f x)"
  shows "keeps g (and_then m f)"
proof (rule keepsI)
  fix s
  obtain r s' where m: "m s = (r, s')" by (cases "m s")
  then have "g s' = g s" by (rule keepsD [OF assms(1)])
  then show "g (snd (and_then m f s)) = g s"
    using assms(2) m by (cases r) (simp_all add: and_then_def keeps_def)
qed

lemma keeps_fixtures_sends: "list_all is_send as \<Longrightarrow> keeps fixtures (handle_actions w as)"
proof (induction as)
  case (Cons a as)
  then show ?case by (cases a) (auto simp: handle_actions_eqs intro!: keeps_intros)
qed (simp add: handle_actions_eqs keeps_basic)

lemma keeps_fixtures_reconnect [keeps_intros]: "keeps fixtures (reconnect w)"
  unfolding reconnect_def
proof (rule keeps_result)
  show "keeps fixtures begin_reconnect" unfolding begin_reconnect_def by (intro keeps_intros)
qed (intro keeps_intros keeps_fixtures_sends begin_reconnect_sends)

lemma keeps_fixtures_actions [keeps_intros]: "keeps fixtures (handle_actions w as)"
proof (induction as)
  case (Cons a as)
  have "keeps fixtures (modify (\<lambda>self. self\<lparr>tk_router := f (tk_router self)\<rparr>))" for f
    by (rule keeps_modify) simp
  then show ?case
    using Cons by (cases a) (auto simp: handle_actions_eqs handle_actions_reconnect intro!: keeps_intros)
qed (simp add: handle_actions_eqs keeps_basic)

lemma keeps_fixtures_incoming [keeps_intros]: "keeps fixtures (poll_incoming read w)"
proof -
  have r: "keeps fixtures (read_one_packet read)"
    by (auto simp: read_one_packet_def keeps_def op_combinators split: prod.split outcome.split)
  have "keeps fixtures (fanout_loop ids p)" for ids p
    by (induction ids) (auto intro!: keeps_intros)
  then have "keeps fixtures (handle_incoming_publish w p now)" for p now
    unfolding handle_incoming_publish_def fanout_publish_def
    by (auto intro!: keeps_intros split: qos.split incoming_qos2_result.split)
  then show ?thesis
    unfolding poll_incoming_def by (auto intro!: keeps_intros r split: option.split packet.split)
qed

lemma keeps_fixtures_tick [keeps_intros]: "keeps fixtures (poll_tick w)"
  unfolding poll_tick_def by (intro keeps_intros keeps_modify) simp

text \<open>A round in closed form: the oldest command is taken and the rest of the round keeps the others.\<close>

definition after_command ::
  "('t, 'io) transport_read \<Rightarrow> ('t, 'io) transport_write \<Rightarrow> command option \<Rightarrow> ('t, 'io, unit) task_op" where
  "after_command read w c =
     and_then (case c of None \<Rightarrow> ret () | Some c \<Rightarrow> and_then (drive (D_Command c)) (handle_actions w)) (\<lambda>_.
     and_then (poll_incoming read w) (\<lambda>_. poll_tick w))"

lemma keeps_fixtures_after: "keeps fixtures (after_command read w c)"
  unfolding after_command_def by (auto intro!: keeps_intros split: option.split)

lemma poll_round_eq:
  "poll_round read w s =
     (case cmd_queue (tk_command_rx s) of
        c # rest \<Rightarrow> after_command read w (Some c) (s\<lparr>tk_command_rx := (tk_command_rx s)\<lparr>cmd_queue := rest\<rparr>\<rparr>)
      | [] \<Rightarrow> if cmd_sender_alive (tk_command_rx s) then after_command read w None s
              else (Err TE_CommandChannelClosed, s))"
  by (auto simp: poll_round_def poll_command_def try_recv_cmd_def after_command_def and_then_def op_combinators
      split: list.split prod.split outcome.split)

lemma poll_round_channel:
  assumes "poll_round read w s = (r, s')"
  shows "cmd_queue (tk_command_rx s') = tl (cmd_queue (tk_command_rx s))"
    and "cmd_sender_alive (tk_command_rx s') = cmd_sender_alive (tk_command_rx s)"
    and "tk_registry s' = tk_registry s"
proof -
  have a: "tk_command_rx s' = tk_command_rx t" "tk_registry s' = tk_registry t"
    if "after_command read w c t = (r, s')" for c t
    using keepsD [OF keeps_fixtures_after that] by simp_all
  show "cmd_queue (tk_command_rx s') = tl (cmd_queue (tk_command_rx s))"
    "cmd_sender_alive (tk_command_rx s') = cmd_sender_alive (tk_command_rx s)" "tk_registry s' = tk_registry s"
    using assms by (auto simp: poll_round_eq a split: list.splits if_splits)
qed

lemma poll_round_disconnected:
  "cmd_queue (tk_command_rx s) = [] \<Longrightarrow> \<not> cmd_sender_alive (tk_command_rx s) \<Longrightarrow>
     poll_round read w s = (Err TE_CommandChannelClosed, s)"
  by (simp add: poll_round_eq)

section \<open>Termination\<close>

lemma run_prefix_round:
  "run_round read w (shd env) s = (r, s1) \<Longrightarrow>
     run_prefix read w (stake (Suc k) env) s = (if r = Ok () then run_prefix read w (stake k (stl env)) s1 else (r, s1))"
  by (cases r) (simp_all add: and_then_def)

lemma run_round_channel:
  assumes "run_round read w act s = (r, s')"
  shows "cmd_sender_alive (tk_command_rx s') = (cmd_sender_alive (tk_command_rx s) \<and> \<not> snd act)"
    and "length (cmd_queue (tk_command_rx s')) \<le> length (cmd_queue (tk_command_rx s)) + length (fst act)"
  using assms poll_round_channel [of read w _ r s']
  by (auto simp: run_round_def senders_act_def modify_def and_then_def Let_def)

text \<open>Without Senders each round takes one of the commands that are left, until there are none.\<close>

lemma poll_round_closed:
  assumes "\<not> cmd_sender_alive (tk_command_rx s)" and "poll_round read w s = (Ok (), s')"
  shows "length (cmd_queue (tk_command_rx s)) = Suc (length (cmd_queue (tk_command_rx s')))"
proof -
  have "cmd_queue (tk_command_rx s) \<noteq> []"
    using assms poll_round_disconnected [of s read w] by (cases "cmd_queue (tk_command_rx s) = []") auto
  then show ?thesis using poll_round_channel(1) [OF assms(2)] by (cases "cmd_queue (tk_command_rx s)") simp_all
qed

lemma run_round_closed:
  fixes w :: "('t, 'io) transport_write"
  assumes "run_round read w act s = (Ok (), s')"
  shows "\<not> cmd_sender_alive (tk_command_rx s) \<Longrightarrow>
      length (cmd_queue (tk_command_rx s)) = Suc (length (cmd_queue (tk_command_rx s')))"
    and "snd act \<Longrightarrow> Suc (length (cmd_queue (tk_command_rx s'))) \<le>
      length (cmd_queue (tk_command_rx s)) + length (fst act)"
proof -
  obtain t where t: "(senders_act act :: ('t, 'io, unit) task_op) s = (Ok (), t)"
    by (simp add: senders_act_def modify_def)
  then have p: "poll_round read w t = (Ok (), s')" using assms by (simp add: run_round_def and_then_def)
  note c = poll_round_closed [OF _ p]
  show "length (cmd_queue (tk_command_rx s)) = Suc (length (cmd_queue (tk_command_rx s')))"
    if "\<not> cmd_sender_alive (tk_command_rx s)"
    using c t that by (auto simp: senders_act_def modify_def)
  show "Suc (length (cmd_queue (tk_command_rx s'))) \<le> length (cmd_queue (tk_command_rx s)) + length (fst act)"
    if "snd act"
    using c t that by (auto simp: senders_act_def modify_def Let_def split: if_splits)
qed

lemma run_drains:
  "\<not> cmd_sender_alive (tk_command_rx s) \<Longrightarrow>
     \<exists>k \<le> Suc (length (cmd_queue (tk_command_rx s))). fst (run_prefix read w (stake k env) s) \<noteq> Ok ()"
proof (induction "length (cmd_queue (tk_command_rx s))" arbitrary: s env rule: less_induct)
  case less
  obtain r s1 where r: "run_round read w (shd env) s = (r, s1)" by (cases "run_round read w (shd env) s")
  show ?case
  proof (cases "r = Ok ()")
    case True
    have l: "length (cmd_queue (tk_command_rx s)) = Suc (length (cmd_queue (tk_command_rx s1)))"
      using run_round_closed(1) [OF r [unfolded True] less.prems] .
    moreover have "\<not> cmd_sender_alive (tk_command_rx s1)" using run_round_channel(1) [OF r] less.prems by simp
    ultimately obtain k where k: "k \<le> Suc (length (cmd_queue (tk_command_rx s1)))"
      "fst (run_prefix read w (stake k (stl env)) s1) \<noteq> Ok ()"
      using less.hyps [of s1 "stl env"] by auto
    with l True show ?thesis
      by (intro exI [of _ "Suc k"]) (simp only: run_prefix_round [OF r], simp)
  qed (intro exI [of _ "Suc 0"], simp only: run_prefix_round [OF r], simp)
qed

text \<open>How many commands arrive in the first \<open>n + 1\<close> rounds.\<close>

primrec arrivals_until :: "nat \<Rightarrow> senders_act stream \<Rightarrow> nat" where
  "arrivals_until 0 env = length (fst (shd env))"
| "arrivals_until (Suc n) env = length (fst (shd env)) + arrivals_until n (stl env)"

lemma run_ends_within:
  assumes "snd (env !! n)"
  shows "\<exists>k \<le> Suc n + (length (cmd_queue (tk_command_rx s)) + arrivals_until n env).
    fst (run_prefix read w (stake k env) s) \<noteq> Ok ()"
  using assms
proof (induction n arbitrary: env s)
  case 0
  obtain r s1 where r: "run_round read w (shd env) s = (r, s1)" by (cases "run_round read w (shd env) s")
  note c = run_round_channel [OF r]
  show ?case
  proof (cases "r = Ok ()")
    case True
    obtain k where "k \<le> Suc (length (cmd_queue (tk_command_rx s1)))"
      "fst (run_prefix read w (stake k (stl env)) s1) \<noteq> Ok ()"
      using run_drains [of s1 read w "stl env"] c 0 by auto
    with run_round_closed(2) [OF r [unfolded True]] 0 True show ?thesis
      by (intro exI [of _ "Suc k"]) (simp only: run_prefix_round [OF r], simp)
  qed (intro exI [of _ "Suc 0"], simp only: run_prefix_round [OF r], simp)
next
  case (Suc n)
  obtain r s1 where r: "run_round read w (shd env) s = (r, s1)" by (cases "run_round read w (shd env) s")
  note c = run_round_channel [OF r]
  show ?case
  proof (cases "r = Ok ()")
    case True
    obtain k where "k \<le> Suc n + (length (cmd_queue (tk_command_rx s1)) + arrivals_until n (stl env))"
      "fst (run_prefix read w (stake k (stl env)) s1) \<noteq> Ok ()"
      using Suc.IH [OF Suc.prems [unfolded snth.simps], of s1] by blast
    with c(2) True show ?thesis
      by (intro exI [of _ "Suc k"]) (simp only: run_prefix_round [OF r], simp)
  qed (intro exI [of _ "Suc 0"], simp only: run_prefix_round [OF r], simp)
qed

text \<open>
  Claim C9 (termination). Closing the command channel ends the task: over any transport and from any state,
  when the last Sender is gone before round \<open>n + 1\<close>, \<open>run\<close> returns with an error (or a panic), at the
  latest after as many further rounds as there were commands: the loop cannot spin on a closed channel.
\<close>
theorem run_ends_without_senders:
  assumes "snd (env !! n)"
  shows "\<exists>k r s'. k \<le> Suc n + (length (cmd_queue (tk_command_rx s)) + arrivals_until n env) \<and> r \<noteq> Ok () \<and>
    run_prefix read write_all (stake k env) s = (r, s') \<and> run read write_all env s = Some (r, s')"
proof -
  obtain k where k: "k \<le> Suc n + (length (cmd_queue (tk_command_rx s)) + arrivals_until n env)"
    "fst (run_prefix read write_all (stake k env) s) \<noteq> Ok ()"
    using run_ends_within [OF assms] by blast
  obtain r s' where r: "run_prefix read write_all (stake k env) s = (r, s')"
    by (cases "run_prefix read write_all (stake k env) s")
  with k run_finds_prefix [OF r] show ?thesis by auto
qed

abbreviation closing :: "command list \<Rightarrow> senders_act stream" where
  "closing cs \<equiv> (cs, True) ## sconst ([], False)"

theorem run_ends_without_senders_witness:
  "let s = demo_task (new_driver small_state False) []
   in \<exists>s'. run demo_read demo_write (closing [C_Ping]) s = Some (Err TE_CommandChannelClosed, s') \<and>
        (\<exists>k \<le> 2. run_prefix demo_read demo_write (stake k (closing [C_Ping])) s = (Err TE_CommandChannelClosed, s'))"
proof -
  let ?s = "demo_task (new_driver small_state False) []"
  have "snd (closing [C_Ping] !! 0)" by simp
  from run_ends_without_senders [OF this, of ?s demo_read demo_write] obtain k r s' where
    k: "k \<le> 2" "run_prefix demo_read demo_write (stake k (closing [C_Ping])) ?s = (r, s')"
    and r: "run demo_read demo_write (closing [C_Ping]) ?s = Some (r, s')" by (auto simp: numeral_2_eq_2)
  have "r = Err TE_CommandChannelClosed"
    using r by (subst (asm) run.simps, subst (asm) run.simps)
      (simp add: run_round_def senders_act_def poll_round_def poll_command_def try_recv_cmd_def poll_incoming_def
        read_one_packet_def poll_tick_def drive_def instant_now_def handle_event_eq handle_command_def fake_read_def
        op_combinators demo_task_def new_task_def handle_actions_eqs and_then_def)
  with k r show ?thesis by auto
qed

text \<open>As long as a Sender lives the rounds are those of \<open>run_rounds\<close>.\<close>

lemma run_prefix_rounds:
  "cmd_sender_alive (tk_command_rx s) \<Longrightarrow> \<forall>a \<in> set acts. \<not> snd a \<Longrightarrow>
     run_prefix read write_all acts s = run_rounds read write_all (map fst acts) s"
proof (induction acts arbitrary: s)
  case (Cons act acts)
  let ?rx = "tk_command_rx s"
  let ?t = "s\<lparr>tk_command_rx := \<lparr>cmd_queue = cmd_queue ?rx @ fst act, cmd_sender_alive = True\<rparr>\<rparr>"
  obtain r s1 where r: "poll_round read write_all ?t = (r, s1)" by (cases "poll_round read write_all ?t")
  have "run_round read write_all act s = poll_round read write_all ?t"
    "and_then (commands_arrive (fst act)) f s = f () ?t" for f :: "unit \<Rightarrow> ('a, 'b, unit) task_op"
    using Cons.prems by (cases "tk_command_rx s";
        simp add: run_round_def senders_act_def commands_arrive_def modify_def Let_def and_then_def)+
  moreover have "cmd_sender_alive (tk_command_rx s1)" using poll_round_channel(2) [OF r] by simp
  ultimately show ?case using Cons r by (cases r) (simp_all add: and_then_def)
qed simp

text \<open>
  While clients hold a Sender, \<open>run\<close> returns exactly when one of its rounds fails, with the error and in the
  state of that round, and otherwise runs forever: what is proved of every finite sequence of rounds is
  proved of the thread.
\<close>
lemma run_as_rounds:
  assumes "cmd_sender_alive (tk_command_rx s)" and "\<forall>a \<in> sset env. \<not> snd a"
  shows "run read write_all env s = Some (r, s') \<longleftrightarrow>
    r \<noteq> Ok () \<and> (\<exists>n. run_rounds read write_all (map fst (stake n env)) s = (r, s'))"
proof -
  have "\<forall>a \<in> set (stake n env). \<not> snd a" for n using assms(2) by (auto simp: in_set_conv_nth) (metis snd_conv snth_sset)
  then have "run_prefix read write_all (stake n env) s = run_rounds read write_all (map fst (stake n env)) s" for n
    by (rule run_prefix_rounds [OF assms(1)])
  then show ?thesis by (simp add: run_iff)
qed

end
