(* ===== verification/Host_System.thy ===== *)
theory Host_System
  imports Task_Ledger End_To_End Task_Run Task_Eval
begin

text \<open>
  The whole host as a step relation: clients call their handles and receive events, the task thread
  runs its rounds, and new clients register, in any order.  The steps are those of src/client.rs,
  src/runtime/task.rs and src/runtime/host.rs, and the drop of handles and host; the ghost fields record which
  calls were accepted and which completions clients have read.
\<close>

section \<open>The system\<close>

record 't system =
  sys_task :: "'t runtime_task"
  sys_task_alive :: bool
  sys_handles :: "client_handle list"
  sys_accepted :: owner_bag
  sys_heard :: owner_bag

definition sys_start :: "'t runtime_task \<Rightarrow> 't system" where
  "sys_start s =
     \<lparr>sys_task = s, sys_task_alive = True, sys_handles = [], sys_accepted = {#}, sys_heard = {#}\<rparr>"

text \<open>A call on the handle number \<open>i\<close>: accepted when it returns a token.\<close>

definition sys_call :: "nat \<Rightarrow> client_request \<Rightarrow> 't system \<Rightarrow> 't system" where
  "sys_call i c sy =
     (let h = sys_handles sy ! i;
          (r, side) = client_call c \<lparr>cs_handle = h, cs_command_tx = tk_command_rx (sys_task sy),
                                     cs_task_alive = sys_task_alive sy\<rparr>
      in sy\<lparr>sys_handles := (sys_handles sy)[i := cs_handle side],
            sys_task := (sys_task sy)\<lparr>tk_command_rx := cs_command_tx side\<rparr>,
            sys_accepted := sys_accepted sy + reported (\<lambda>t. {#(hd_client_id h, t)#}) r\<rparr>)"

text \<open>Dropping a handle drops the Receiver and what is on its channel.\<close>

definition drop_handle :: "client_handle \<Rightarrow> 't runtime_task \<Rightarrow> 't runtime_task" where
  "drop_handle h s =
     s\<lparr>tk_channels := (tk_channels s)(hd_event_rx h := \<lparr>ch_events = [], ch_receiver_alive = False\<rparr>)\<rparr>"

text \<open>
  The task thread ends with its first error; a client reads an event; the host registers a client on
  a channel of its own; a client goes away; the host goes away after the last client, and with it the
  last Sender of the command channel (a host that goes earlier registers nobody from then on, which the
  steps allow).
\<close>

definition drop_host :: "'t runtime_task \<Rightarrow> 't runtime_task" where
  "drop_host s = s\<lparr>tk_command_rx := (tk_command_rx s)\<lparr>cmd_sender_alive := False\<rparr>\<rparr>"

inductive sys_step ::
  "('t, 'io) transport_read \<Rightarrow> ('t, 'io) transport_write \<Rightarrow> 't system \<Rightarrow> 't system \<Rightarrow> bool"
  for read write_all where
  call: "i < length (sys_handles sy) \<Longrightarrow> sys_step read write_all sy (sys_call i c sy)"
| round: "sys_task_alive sy \<Longrightarrow> poll_round read write_all (sys_task sy) = (r, s) \<Longrightarrow>
    sys_step read write_all sy (sy\<lparr>sys_task := s, sys_task_alive := (r = Ok ())\<rparr>)"
| recv: "h \<in> set (sys_handles sy) \<Longrightarrow> recv_event h (sys_task sy) = Some (Ok e, s) \<Longrightarrow>
    sys_step read write_all sy
      (sy\<lparr>sys_task := s, sys_heard := sys_heard sy + told_event (hd_client_id h) e\<rparr>)"
| join: "cmd_sender_alive (tk_command_rx (sys_task sy)) \<Longrightarrow> tx \<notin> snd ` set (reg_event_txs (tk_registry (sys_task sy))) \<Longrightarrow>
    new_client tx (sys_task sy) = (h, s) \<Longrightarrow>
    sys_step read write_all sy (sy\<lparr>sys_task := s, sys_handles := sys_handles sy @ [h]\<rparr>)"
| leave: "h \<in> set (sys_handles sy) \<Longrightarrow>
    sys_step read write_all sy
      (sy\<lparr>sys_task := drop_handle h (sys_task sy), sys_handles := remove1 h (sys_handles sy)\<rparr>)"
| shut: "sys_handles sy = [] \<Longrightarrow> sys_step read write_all sy (sy\<lparr>sys_task := drop_host (sys_task sy)\<rparr>)"

inductive_cases sys_stepE: "sys_step read write_all sy sy'"

section \<open>The invariant\<close>

definition handles_ok :: "'t system \<Rightarrow> bool" where
  "handles_ok sy \<longleftrightarrow> distinct (map hd_client_id (sys_handles sy)) \<and>
     (\<forall>h \<in> set (sys_handles sy). channel_of (sys_task sy) (hd_client_id h) = Some (hd_event_rx h))"

text \<open>
  Every token was accepted once, for a client that is registered, and is below the next token of that
  client's handle.
\<close>

definition tokens_ok :: "'t system \<Rightarrow> bool" where
  "tokens_ok sy \<longleftrightarrow>
     (\<forall>x. count (sys_accepted sy) x \<le> 1) \<and>
     (\<forall>(c, t) \<in># sys_accepted sy. c \<le> reg_next_id (tk_registry (sys_task sy)) \<and>
        (\<forall>h \<in> set (sys_handles sy). hd_client_id h = c \<longrightarrow> t < hd_next_token_id h))"

definition sys_inv :: "'t system \<Rightarrow> bool" where
  "sys_inv sy \<longleftrightarrow> ledger_inv (sys_task sy) \<and> handles_ok sy \<and> tokens_ok sy \<and>
     sys_heard sy + total_owners (sys_task sy) \<subseteq># sys_accepted sy"

lemma sys_inv_start: "ledger_inv s \<Longrightarrow> total_owners s = {#} \<Longrightarrow> sys_inv (sys_start s)"
  by (simp add: sys_inv_def sys_start_def handles_ok_def tokens_ok_def)

lemma sys_inv_round:
  assumes "sys_inv sy" and "poll_round read write_all (sys_task sy) = (r, s)"
  shows "sys_inv (sy\<lparr>sys_task := s, sys_task_alive := b\<rparr>)"
proof -
  have i: "ledger_inv (sys_task sy)" using assms(1) by (simp add: sys_inv_def)
  note l = task_ledgerD [OF ledger_poll_round i assms(2)]
  have "tk_registry s = tk_registry (sys_task sy)" by (rule poll_round_channel(3) [OF assms(2)])
  then have "handles_ok (sy\<lparr>sys_task := s, sys_task_alive := b\<rparr>) = handles_ok sy"
    "tokens_ok (sy\<lparr>sys_task := s, sys_task_alive := b\<rparr>) = tokens_ok sy"
    by (simp_all add: handles_ok_def tokens_ok_def channel_of_def)
  moreover have "total_owners s \<subseteq># total_owners (sys_task sy)" using l(2) by (cases r) simp_all
  ultimately show ?thesis
    using assms(1) l(1) by (auto simp: sys_inv_def intro: subset_mset.order_trans subset_mset.add_left_mono)
qed

lemma told_channel_taken:
  "ch_events ch = e # rest \<Longrightarrow> told_channel c ch = told_event c e + told_channel c (ch\<lparr>ch_events := rest\<rparr>)"
  by (simp add: told_channel_def)

lemma told_received:
  assumes "registry_inv (tk_registry s)" and "channel_of s c = Some tx"
    and "ch_events (tk_channels s tx) = e # rest"
  shows "told s = told (s\<lparr>tk_channels := (tk_channels s)(tx := (tk_channels s tx)\<lparr>ch_events := rest\<rparr>)\<rparr>) + told_event c e"
proof -
  have "(c, tx) \<in> set (reg_event_txs (tk_registry s))"
    using assms(2) by (auto simp: channel_of_def dest: map_of_SomeD)
  then obtain xs ys where r: "reg_event_txs (tk_registry s) = xs @ (c, tx) # ys" by (meson split_list)
  then have "tx \<notin> snd ` set xs" "tx \<notin> snd ` set ys" using assms(1) by (auto simp: registry_inv_def)
  then show ?thesis unfolding told_def by (simp add: r told_other told_channel_taken [OF assms(3)])
qed

lemma sys_inv_recv:
  assumes "sys_inv sy" and "h \<in> set (sys_handles sy)" and "recv_event h (sys_task sy) = Some (Ok e, s)"
  shows "sys_inv (sy\<lparr>sys_task := s, sys_heard := sys_heard sy + told_event (hd_client_id h) e\<rparr>)"
proof -
  let ?s = "sys_task sy" and ?tx = "hd_event_rx h"
  have i: "ledger_inv ?s" "channel_of ?s (hd_client_id h) = Some ?tx" "registry_inv (tk_registry ?s)"
    using assms(1,2) by (simp_all add: sys_inv_def handles_ok_def ledger_inv_def)
  obtain rest where e: "ch_events (tk_channels ?s ?tx) = e # rest"
    and s: "s = ?s\<lparr>tk_channels := (tk_channels ?s)(?tx := (tk_channels ?s ?tx)\<lparr>ch_events := rest\<rparr>)\<rparr>"
    using assms(3) by (auto simp: recv_event_def Let_def split: list.splits if_splits)
  have "total_owners ?s = total_owners s + told_event (hd_client_id h) e"
    using told_received [OF i(3,2) e] by (simp add: total_owners_def s)
  moreover have "ledger_inv s" "\<And>c. channel_of s c = channel_of ?s c" "tk_registry s = tk_registry ?s"
    using i(1) by (simp_all add: s ledger_inv_def channel_of_def)
  ultimately show ?thesis
    using assms(1) by (simp add: sys_inv_def handles_ok_def tokens_ok_def ac_simps)
qed

lemma sys_inv_join:
  assumes "sys_inv sy" and "tx \<notin> snd ` set (reg_event_txs (tk_registry (sys_task sy)))"
    and "new_client tx (sys_task sy) = (h, s)"
  shows "sys_inv (sy\<lparr>sys_task := s, sys_handles := sys_handles sy @ [h]\<rparr>)"
proof -
  let ?s = "sys_task sy" and ?reg = "tk_registry (sys_task sy)"
  have reg: "registry_inv ?reg" using assms(1) by (simp add: sys_inv_def ledger_inv_def)
  note n = new_client_is_separate [OF reg assms(2,3)]
  have "sys_inv sy" by (rule assms(1))
  then have old: "hd_client_id h' \<noteq> hd_client_id h" "channel_of s (hd_client_id h') = Some (hd_event_rx h')"
    if "h' \<in> set (sys_handles sy)" for h'
    using that n by (force simp: sys_inv_def handles_ok_def)+
  have q: "tk_command_rx s = tk_command_rx ?s" "tk_driver s = tk_driver ?s"
    using assms(3) by (auto simp: new_client_def register_def Let_def)
  have "reg_next_id ?reg + 1 \<notin> fst ` set (reg_event_txs ?reg)"
    using reg by (force simp: registry_inv_def list_all_iff)
  then have "reg_event_txs (tk_registry s) = reg_event_txs ?reg @ [(reg_next_id ?reg + 1, tx)]"
    and "tk_channels s = (tk_channels ?s)(tx := \<lparr>ch_events = [], ch_receiver_alive = True\<rparr>)"
    using assms(3) by (auto simp: new_client_def register_def Let_def update_nonempty_append)
  then have "told s = told ?s"
    using assms(2) by (simp add: told_def told_other) (simp add: told_channel_def)
  then have "total_owners s = total_owners ?s" by (simp add: total_owners_def q)
  moreover have "ledger_inv s" using n assms(1) by (simp add: sys_inv_def ledger_inv_def q)
  moreover have "handles_ok (sy\<lparr>sys_task := s, sys_handles := sys_handles sy @ [h]\<rparr>)"
    using assms(1) old n by (auto simp: sys_inv_def handles_ok_def)
  moreover have "tokens_ok (sy\<lparr>sys_task := s, sys_handles := sys_handles sy @ [h]\<rparr>)"
  proof -
    have "reg_next_id (tk_registry s) = reg_next_id ?reg + 1" "hd_client_id h = reg_next_id ?reg + 1"
      using assms(3) by (auto simp: new_client_def register_def new_handle_def Let_def)
    then show ?thesis using assms(1) by (fastforce simp: sys_inv_def tokens_ok_def)
  qed
  ultimately show ?thesis using assms(1) by (simp add: sys_inv_def)
qed

lemma told_mono:
  assumes "\<And>tx. tx \<in> snd ` set zs \<Longrightarrow> chs tx = chs' tx \<or> ch_events (chs tx) = []"
  shows "sum_list (map (\<lambda>(c, tx). told_channel c (chs tx)) zs) \<subseteq># sum_list (map (\<lambda>(c, tx). told_channel c (chs' tx)) zs)"
  using assms
proof (induction zs)
  case (Cons z zs)
  then have "told_channel (fst z) (chs (snd z)) \<subseteq># told_channel (fst z) (chs' (snd z))"
    by (force simp: told_channel_def)
  with Cons show ?case by (cases z) (auto intro: subset_mset.add_mono)
qed simp

lemma sys_inv_leave:
  assumes "sys_inv sy"
  shows "sys_inv (sy\<lparr>sys_task := drop_handle h (sys_task sy), sys_handles := remove1 h (sys_handles sy)\<rparr>)"
proof -
  have "told (drop_handle h (sys_task sy)) \<subseteq># told (sys_task sy)"
    unfolding told_def by (simp add: drop_handle_def) (rule told_mono, simp)
  then have "total_owners (drop_handle h (sys_task sy)) \<subseteq># total_owners (sys_task sy)"
    by (simp add: total_owners_def drop_handle_def)
  then have "sys_heard sy + total_owners (drop_handle h (sys_task sy)) \<subseteq># sys_accepted sy"
    using assms unfolding sys_inv_def by (meson subset_mset.add_left_mono subset_mset.order_trans)
  moreover have sub: "set (remove1 h (sys_handles sy)) \<subseteq> set (sys_handles sy)" by (rule set_remove1_subset)
  moreover have "distinct (map hd_client_id (remove1 h (sys_handles sy)))"
    using assms by (auto simp: sys_inv_def handles_ok_def distinct_map intro: inj_on_subset)
  moreover from sub have "tokens_ok (sy\<lparr>sys_task := drop_handle h (sys_task sy), sys_handles := remove1 h (sys_handles sy)\<rparr>)"
    using assms unfolding sys_inv_def tokens_ok_def by (fastforce simp: drop_handle_def)
  ultimately show ?thesis
    using assms unfolding sys_inv_def handles_ok_def by (auto simp: drop_handle_def ledger_inv_def channel_of_def)
qed

lemma sys_inv_shut: "sys_inv sy \<Longrightarrow> sys_inv (sy\<lparr>sys_task := drop_host (sys_task sy)\<rparr>)"
  by (simp add: sys_inv_def handles_ok_def tokens_ok_def drop_host_def ledger_inv_def channel_of_def
      total_owners_def told_def)

lemma client_call_dead:
  "\<not> cs_task_alive s \<Longrightarrow> client_call c s =
     (Err (call_command (hd_client_id (cs_handle s)) (hd_next_token_id (cs_handle s)) c),
      s\<lparr>cs_handle := (cs_handle s)\<lparr>hd_next_token_id := hd_next_token_id (cs_handle s) + 1\<rparr>\<rparr>)"
  by (cases c) (simp_all add: client_publish_def client_subscribe_def client_unsubscribe_def
      next_token_id_def send_command_def call_command_def op_defs Let_def)

lemma sys_call_eq:
  "sys_call i c sy =
     (let h = sys_handles sy ! i; t = hd_next_token_id h; hs = (sys_handles sy)[i := h\<lparr>hd_next_token_id := t + 1\<rparr>] in
      if sys_task_alive sy
      then sy\<lparr>sys_handles := hs, sys_accepted := add_mset (hd_client_id h, t) (sys_accepted sy),
              sys_task := (sys_task sy)\<lparr>tk_command_rx := (tk_command_rx (sys_task sy))
                \<lparr>cmd_queue := cmd_queue (tk_command_rx (sys_task sy)) @ [call_command (hd_client_id h) t c]\<rparr>\<rparr>\<rparr>
      else sy\<lparr>sys_handles := hs\<rparr>)"
  by (simp add: sys_call_def client_call_eq client_call_dead Let_def)

lemma command_owner_call [simp]: "command_owner (call_command c t r) = {#(c, t)#}"
  by (cases r) (simp_all add: call_command_def)

lemma sys_inv_call:
  assumes "sys_inv sy" and "i < length (sys_handles sy)"
  shows "sys_inv (sys_call i c sy)"
proof -
  let ?h = "sys_handles sy ! i"
  let ?h' = "?h\<lparr>hd_next_token_id := hd_next_token_id ?h + 1\<rparr>"
  let ?hs = "(sys_handles sy)[i := ?h']" and ?x = "(hd_client_id ?h, hd_next_token_id ?h)"
  note inv = assms(1) [unfolded sys_inv_def handles_ok_def tokens_ok_def]
  have ids: "map hd_client_id ?hs = map hd_client_id (sys_handles sy)"
    by (simp add: map_update) (metis list_update_id map_update)
  have ch: "channel_of (sys_task sy) (hd_client_id h) = Some (hd_event_rx h)" if "h \<in> set ?hs" for h
    using that inv assms(2) set_update_subset_insert [of "sys_handles sy" i ?h'] by (auto dest: nth_mem)
  have keep: "t < hd_next_token_id h" if "(hd_client_id h, t) \<in># sys_accepted sy" "h \<in> set ?hs" for h t
    using that inv assms(2) set_update_subset_insert [of "sys_handles sy" i ?h'] nth_mem [OF assms(2)] by fastforce
  have new: "count (sys_accepted sy) ?x = 0"
  proof (rule ccontr)
    assume "count (sys_accepted sy) ?x \<noteq> 0"
    then have "?x \<in># sys_accepted sy" by (simp add: not_in_iff)
    with inv nth_mem [OF assms(2)] show False by fast
  qed
  have inj: "inj_on hd_client_id (set ?hs)" using inv ids by (metis distinct_map)
  have last: "hd_next_token_id ?h < hd_next_token_id h" if "h \<in> set ?hs" "hd_client_id h = hd_client_id ?h" for h
  proof -
    have "?h' \<in> set ?hs" using assms(2) by (rule set_update_memI)
    from inj_onD [OF inj _ that(1) this] that(2) show ?thesis by simp
  qed
  have reg: "hd_client_id ?h \<le> reg_next_id (tk_registry (sys_task sy))"
    using inv nth_mem [OF assms(2)]
    by (fastforce simp: channel_of_def ledger_inv_def registry_inv_def list_all_iff dest: map_of_SomeD)
  define sy' where "sy' = sys_call i c sy"
  have f: "sys_handles sy' = ?hs" "sys_heard sy' = sys_heard sy"
    "sys_accepted sy' = (if sys_task_alive sy then add_mset ?x (sys_accepted sy) else sys_accepted sy)"
    and t: "tk_registry (sys_task sy') = tk_registry (sys_task sy)"
    "tk_driver (sys_task sy') = tk_driver (sys_task sy)" "tk_channels (sys_task sy') = tk_channels (sys_task sy)"
    "queued (cmd_queue (tk_command_rx (sys_task sy'))) = queued (cmd_queue (tk_command_rx (sys_task sy))) +
      (if sys_task_alive sy then {#?x#} else {#})"
    unfolding sy'_def sys_call_eq Let_def by simp_all
  have "handles_ok sy'"
    using inv ch ids unfolding handles_ok_def f channel_of_def t by simp
  moreover have "tokens_ok sy'"
    unfolding tokens_ok_def f using inv keep last new reg unfolding t by (auto simp del: split_paired_All)
  moreover have "total_owners (sys_task sy') = total_owners (sys_task sy) + (if sys_task_alive sy then {#?x#} else {#})"
    by (simp add: total_owners_def told_def t)
  moreover have "ledger_inv (sys_task sy')" using inv by (simp add: ledger_inv_def t)
  ultimately show ?thesis
    using inv f unfolding sy'_def sys_inv_def by simp
qed

lemma sys_inv_step: "sys_step read write_all sy sy' \<Longrightarrow> sys_inv sy \<Longrightarrow> sys_inv sy'"
  by (erule sys_stepE) (simp_all add: sys_inv_call sys_inv_round sys_inv_recv sys_inv_join sys_inv_leave
      sys_inv_shut)

lemma sys_inv_steps: "(sys_step read write_all)\<^sup>*\<^sup>* sy sy' \<Longrightarrow> sys_inv sy \<Longrightarrow> sys_inv sy'"
  by (induction rule: rtranclp_induct) (auto intro: sys_inv_step)

text \<open>
  Claim C1 (invariant). No call is answered twice: however the calls of any number of clients, their
  reads of events, the rounds of the task, the registration of new clients and the drop of handles
  interleave, over any transport and any bytes from the broker, no token is handed out twice to one client, and each
  accepted call has at most one place: waiting in the command queue, held by the session, on its
  client's event channel or read by the client.  So every client reads at most one completion for each
  of its tokens, and only for tokens it was given.
\<close>
theorem calls_are_answered_once:
  assumes "ledger_inv s" and "total_owners s = {#}"
    and "(sys_step read write_all)\<^sup>*\<^sup>* (sys_start s) sy"
  shows "sys_heard sy + total_owners (sys_task sy) \<subseteq># sys_accepted sy \<and>
    (\<forall>x. count (sys_accepted sy) x \<le> 1) \<and> (\<forall>x. count (sys_heard sy) x \<le> 1)"
proof -
  have "sys_inv sy" using sys_inv_steps [OF assms(3) sys_inv_start [OF assms(1,2)]] .
  then have i: "sys_heard sy + total_owners (sys_task sy) \<subseteq># sys_accepted sy" "\<forall>x. count (sys_accepted sy) x \<le> 1"
    by (simp_all add: sys_inv_def tokens_ok_def)
  have "count (sys_heard sy) x \<le> count (sys_accepted sy) x" for x
    using mset_subset_eq_count [OF i(1), of x] by simp
  with i show ?thesis by (meson order_trans)
qed

abbreviation demo_system :: "fake_transport runtime_task" where
  "demo_system \<equiv> demo_task (snd (run_small [(0, D_ConnectionRestored 0)])) [[0x40, 2, 0, 1]]"

abbreviation demo_waiting :: "fake_transport runtime_task" where
  "demo_waiting \<equiv> (snd (new_client 2 demo_system))
     \<lparr>tk_command_rx := \<lparr>cmd_queue = [C_Publish 1 (small_publish AtLeastOnce 0) 5], cmd_sender_alive = True\<rparr>\<rparr>"

lemma demo_round:
  "\<exists>s. poll_round demo_read demo_write demo_waiting = (Ok (), s) \<and>
    tk_channels s 2 = \<lparr>ch_events = [RE_Completion (Done_PubAck 1 1)], ch_receiver_alive = True\<rparr> \<and>
    tk_registry s = tk_registry demo_waiting"
  by (simp add: new_client_def demo_task_def poll_round_def small_eval round_eval cong: and_then_strict)

lemma demo_run:
  "\<exists>sy. (sys_step demo_read demo_write)\<^sup>*\<^sup>* (sys_start demo_system) sy \<and>
    sys_accepted sy = {#(5, 1)#} \<and> sys_heard sy = {#(5, 1)#}"
proof -
  let ?sys = "sys_step demo_read demo_write" and ?call = "Call_Publish (ascii ''t'') AtLeastOnce False [1]"
  let ?h = "new_handle 5 2"
  have c: "call_command 5 1 ?call = C_Publish 1 (small_publish AtLeastOnce 0) 5"
    by (simp add: call_command_def small_publish_def)
  define s0 where "s0 = snd (new_client 2 demo_system)"
  have n: "new_client 2 demo_system = (?h, s0)"
    unfolding s0_def by (simp add: new_client_def register_def Let_def)
  define sy1 where "sy1 = (sys_start demo_system)\<lparr>sys_task := s0, sys_handles := [?h]\<rparr>"
  have 1: "?sys (sys_start demo_system) sy1"
    using sys_step.join [of "sys_start demo_system" 2 ?h s0] n by (simp add: sys_start_def sy1_def)
  define sy2 where "sy2 = sys_call 0 ?call sy1"
  have 2: "?sys sy1 sy2" unfolding sy2_def by (rule sys_step.call) (simp add: sy1_def)
  have "tk_command_rx s0 = \<lparr>cmd_queue = [], cmd_sender_alive = True\<rparr>"
    unfolding s0_def by (simp add: new_client_def register_def Let_def)
  then have t2: "sys_task sy2 = demo_waiting" "sys_task_alive sy2" "sys_accepted sy2 = {#(5, 1)#}" "sys_heard sy2 = {#}"
    "sys_handles sy2 = [?h\<lparr>hd_next_token_id := 2\<rparr>]"
    using c unfolding sy2_def sys_call_eq by (simp_all add: sy1_def sys_start_def new_handle_def s0_def Let_def)
  obtain s where r: "poll_round demo_read demo_write demo_waiting = (Ok (), s)"
    and e: "tk_channels s 2 = \<lparr>ch_events = [RE_Completion (Done_PubAck 1 1)], ch_receiver_alive = True\<rparr>"
    using demo_round by blast
  define sy3 where "sy3 = sy2\<lparr>sys_task := s, sys_task_alive := True\<rparr>"
  have 3: "?sys sy2 sy3" using sys_step.round [of sy2 demo_read demo_write "Ok ()" s] r t2(1,2) by (simp add: sy3_def)
  obtain s' where v: "recv_event (?h\<lparr>hd_next_token_id := 2\<rparr>) s = Some (Ok (RE_Completion (Done_PubAck 1 1)), s')"
    using e by (simp add: recv_event_def new_handle_def Let_def)
  define sy4 where "sy4 = sy3\<lparr>sys_task := s', sys_heard := sys_heard sy3 + told_event 5 (RE_Completion (Done_PubAck 1 1))\<rparr>"
  have 4: "?sys sy3 sy4"
    using sys_step.recv [of "?h\<lparr>hd_next_token_id := 2\<rparr>" sy3 "RE_Completion (Done_PubAck 1 1)" s' demo_read demo_write]
      v t2(5) unfolding sy4_def sy3_def
    by (simp add: new_handle_def)
  have "?sys\<^sup>*\<^sup>* (sys_start demo_system) sy4" using 1 2 3 4 by (meson converse_rtranclp_into_rtranclp rtranclp.rtrancl_refl)
  then show ?thesis using t2 by (intro exI [of _ sy4]) (simp add: sy4_def sy3_def)
qed

theorem calls_are_answered_once_witness:
  "\<exists>sy. (sys_step demo_read demo_write)\<^sup>*\<^sup>* (sys_start demo_system) sy \<and>
    sys_accepted sy = {#(5, 1)#} \<and> sys_heard sy = {#(5, 1)#} \<and> total_owners (sys_task sy) = {#}"
proof -
  obtain sy where sy: "(sys_step demo_read demo_write)\<^sup>*\<^sup>* (sys_start demo_system) sy"
    "sys_accepted sy = {#(5, 1)#}" "sys_heard sy = {#(5, 1)#}"
    using demo_run by blast
  have l: "ledger_inv demo_system" using small_inv by (simp add: ledger_inv_def registry_inv_def)
  have o: "total_owners demo_system = {#}"
    by (simp add: total_owners_def told_def told_channel_def owners_def held_all_def small_eval)
  from calls_are_answered_once [OF l o sy(1)] sy(2,3) have "total_owners (sys_task sy) = {#}" by auto
  with sy show ?thesis by blast
qed

end
