(* ===== verification/Session_Typing.thy ===== *)
theory Session_Typing
  imports Session_Refinement Codec_Properties
begin

text \<open>
  What the driver sends is well-formed: when clients submit well-formed commands, every packet of
  every run obeys the protocol's rules on its fields, so the encoder accepts it.  Proved on the
  abstract session and carried to the driver by the refinement.
\<close>

section \<open>Well-formed commands, operations and sessions\<close>

abbreviation good_packet :: "packet \<Rightarrow> bool" where
  "good_packet p \<equiv> legal_packet p \<and> fits_packet p"

fun legal_command :: "command \<Rightarrow> bool" where
  "legal_command (C_Publish _ p _) \<longleftrightarrow> (pub_qos p = AtMostOnce \<longrightarrow> pub_pkid p = 0) \<and> fits_string (pub_topic p)"
| "legal_command (C_Subscribe _ s _) \<longleftrightarrow> sub_filters s \<noteq> [] \<and> list_all (\<lambda>f. fits_string (filter_path f)) (sub_filters s)"
| "legal_command (C_Unsubscribe _ u _) \<longleftrightarrow> unsub_filters u \<noteq> [] \<and> list_all fits_string (unsub_filters u)"
| "legal_command _ \<longleftrightarrow> True"

fun legal_event :: "driver_event \<Rightarrow> bool" where
  "legal_event (D_Command c) \<longleftrightarrow> legal_command c"
| "legal_event _ \<longleftrightarrow> True"

definition good_op :: "outgoing_op \<Rightarrow> bool" where
  "good_op op \<longleftrightarrow> legal_command (op_command op) \<and> good_packet (op_packet op)"

definition typed :: "session \<Rightarrow> bool" where
  "typed s \<longleftrightarrow> se_next_id s \<noteq> 0 \<and> (\<forall>k op. se_held s k = Some op \<longrightarrow> good_op op) \<and>
     (\<forall>k op. se_waiting s = Some (k, op) \<longrightarrow> good_op op) \<and> list_all good_op (se_queue s)"

text \<open>\<open>well_typed m Q\<close>: the operation keeps sessions well-formed and its results satisfy \<open>Q\<close>.\<close>

definition well_typed :: "'a session_op \<Rightarrow> ('a \<Rightarrow> bool) \<Rightarrow> bool" where
  "well_typed m Q \<longleftrightarrow> (\<forall>s r s'. typed s \<longrightarrow> m s = (r, s') \<longrightarrow> typed s' \<and> (\<forall>x. r = Ok x \<longrightarrow> Q x))"

lemma well_typedI:
  "(\<And>s r s'. typed s \<Longrightarrow> m s = (r, s') \<Longrightarrow> typed s' \<and> (\<forall>x. r = Ok x \<longrightarrow> Q x)) \<Longrightarrow> well_typed m Q"
  by (simp add: well_typed_def)

lemma well_typedD: "well_typed m Q \<Longrightarrow> typed s \<Longrightarrow> m s = (r, s') \<Longrightarrow> typed s' \<and> (\<forall>x. r = Ok x \<longrightarrow> Q x)"
  by (simp add: well_typed_def)

named_theorems typing \<open>typing rules of the session's operations\<close>

lemma well_typed_and_then [typing]:
  assumes "well_typed m P" and "\<And>x. P x \<Longrightarrow> well_typed (f x) Q"
  shows "well_typed (and_then m f) Q"
proof (rule well_typedI)
  fix s r s' assume s: "typed s" and r: "and_then m f s = (r, s')"
  obtain r1 s1 where m: "m s = (r1, s1)" by (cases "m s")
  note 1 = well_typedD [OF assms(1) s m]
  show "typed s' \<and> (\<forall>x. r = Ok x \<longrightarrow> Q x)"
    using 1 r m well_typedD [OF assms(2), of _ s1] by (cases r1) (auto simp: and_then_def)
qed

lemma well_typed_ret [typing]: "Q x \<Longrightarrow> well_typed (ret x) Q"
  by (simp add: well_typed_def ret_def)

fun good_action :: "driver_action \<Rightarrow> bool" where
  "good_action (A_Send p) = good_packet p"
| "good_action _ = True"

abbreviation acts :: "driver_action list session_op \<Rightarrow> bool" where
  "acts m \<equiv> well_typed m (list_all good_action)"

lemma typed_simps [simp]:
  "typed (s\<lparr>se_online := b\<rparr>) = typed s" "typed (s\<lparr>se_pinging := b\<rparr>) = typed s"
  "typed (s\<lparr>se_last_in := t\<rparr>) = typed s" "typed (s\<lparr>se_last_out := t\<rparr>) = typed s"
  "typed (s\<lparr>se_released := ks\<rparr>) = typed s" "typed (s\<lparr>se_open := ks\<rparr>) = typed s"
  by (simp_all add: typed_def)

lemma typed_changes:
  assumes "typed s"
  shows "k \<noteq> 0 \<Longrightarrow> typed (s\<lparr>se_next_id := k\<rparr>)" "typed (s\<lparr>se_held := (se_held s)(k := None)\<rparr>)"
    "good_op op \<Longrightarrow> typed (s\<lparr>se_held := (se_held s)(k \<mapsto> op)\<rparr>)"
    "good_op op \<Longrightarrow> typed (s\<lparr>se_waiting := Some (k, op)\<rparr>)" "typed (s\<lparr>se_waiting := None\<rparr>)"
    "good_op op \<Longrightarrow> typed (s\<lparr>se_queue := se_queue s @ [op]\<rparr>)" "typed (s\<lparr>se_queue := []\<rparr>)"
  using assms by (auto simp: typed_def)

section \<open>Operations\<close>

lemma next_nonzero: "(x :: u16) < y \<Longrightarrow> x + 1 \<noteq> 0"
  using u16_Suc [OF u16_less_not_FFFF] by blast

lemma typed_take_id [typing]: "well_typed (take_id needed k0) (\<lambda>k. (needed \<longrightarrow> k \<noteq> 0) \<and> (\<not> needed \<longrightarrow> k = k0))"
  by (rule well_typedI) (auto simp: take_id_def next_nonzero intro: typed_changes dest: typed_def [THEN iffD1] split: if_splits)

lemma typed_place [typing]: "good_op op \<Longrightarrow> well_typed (place k op) (\<lambda>_. True)"
  by (rule well_typedI) (auto simp: place_def intro: typed_changes split: if_splits)

lemma typed_accept [typing]:
  assumes "\<And>k. (tracked \<longrightarrow> k \<noteq> 0) \<Longrightarrow> (\<not> tracked \<longrightarrow> k = k0) \<Longrightarrow> good_op (mk k)"
  shows "well_typed (accept tracked k0 mk) (pred_option good_packet)"
  unfolding accept_def
proof (rule well_typed_and_then [OF typed_take_id])
  fix k assume k: "(tracked \<longrightarrow> k \<noteq> 0) \<and> (\<not> tracked \<longrightarrow> k = k0)"
  then have g: "good_op (mk k)" using assms by blast
  have p: "well_typed (and_then (place k (mk k)) (\<lambda>placed. ret (if placed then Some (op_packet (mk k)) else None)))
      (pred_option good_packet)"
    using g by (intro well_typed_and_then [OF typed_place [OF g]] well_typed_ret) (simp add: good_op_def)
  show "well_typed (\<lambda>s. if \<not> se_online s then (Ok None, s\<lparr>se_queue := se_queue s @ [mk k]\<rparr>)
      else if tracked then and_then (place k (mk k)) (\<lambda>placed. ret (if placed then Some (op_packet (mk k)) else None)) s
      else (Ok (Some (op_packet (mk k))), s)) (pred_option good_packet)"
    using well_typedD [OF p] g
    by (intro well_typedI) (auto simp: good_op_def intro: typed_changes split: if_splits)
qed

lemma typed_send_now [typing]: "pred_option good_packet p \<Longrightarrow> acts (send_now now p)"
  by (rule well_typedI) (auto simp: send_now_def split: option.splits)

lemma good_ops:
  "legal_command (C_Publish t p c) \<Longrightarrow> (pub_qos p \<noteq> AtMostOnce \<longrightarrow> k \<noteq> 0) \<Longrightarrow> (pub_qos p = AtMostOnce \<longrightarrow> k = pub_pkid p) \<Longrightarrow>
     good_op (publish_op t (p\<lparr>pub_pkid := k\<rparr>) c) \<and> good_op (publish_op t (again (p\<lparr>pub_pkid := k\<rparr>)) c)"
  "legal_command (C_Subscribe t sub c) \<Longrightarrow> k \<noteq> 0 \<Longrightarrow> good_op (subscribe_op t (sub\<lparr>sub_pkid := k\<rparr>) c)"
  "legal_command (C_Unsubscribe t u c) \<Longrightarrow> k \<noteq> 0 \<Longrightarrow> good_op (unsubscribe_op t (u\<lparr>unsub_pkid := k\<rparr>) c)"
  by (auto simp: good_op_def publish_op_def subscribe_op_def unsubscribe_op_def new_op_def again_def)

lemma typed_command: "legal_command c \<Longrightarrow> acts (session_command now c)"
proof (cases c)
  case (C_Publish t p c')
  moreover assume "legal_command c"
  ultimately show ?thesis
    using good_ops(1) [of t p c']
    by (auto intro!: well_typed_and_then [OF typed_accept typed_send_now] simp del: legal_command.simps)
next
  case (C_Subscribe t sub c')
  moreover assume "legal_command c"
  ultimately show ?thesis
    using good_ops(2) [of t sub c']
    by (auto intro!: well_typed_and_then [OF typed_accept typed_send_now] simp del: legal_command.simps)
next
  case (C_Unsubscribe t u c')
  moreover assume "legal_command c"
  ultimately show ?thesis
    using good_ops(3) [of t u c']
    by (auto intro!: well_typed_and_then [OF typed_accept typed_send_now] simp del: legal_command.simps)
qed (simp_all add: well_typed_ret)

lemma typed_acknowledge [typing]: "acts (acknowledge now done e k)"
proof (rule well_typedI)
  fix s r s' assume s: "typed s" and r: "acknowledge now done e k s = (r, s')"
  have "good_packet (mark_publish_dup (op_packet op))" if "good_op op" for op
    using that by (auto simp: good_op_def mark_publish_dup_def split: packet.splits)
  moreover have "good_op op" if "waiting_for k s = Some op" for op
    using s that by (auto simp: waiting_for_def typed_def split: option.splits if_splits)
  moreover have "typed (s\<lparr>se_held := (se_held s)(k \<mapsto> op), se_waiting := None\<rparr>)" if "good_op op" for op
    using s that by (auto simp: typed_def)
  ultimately show "typed s' \<and> (\<forall>x. r = Ok x \<longrightarrow> list_all good_action x)"
    using r s by (auto simp: acknowledge_def Let_def intro: typed_changes split: option.splits)
qed

lemma typed_release_held [typing]:
  "(\<And>op a. report op = Some a \<Longrightarrow> good_action a) \<Longrightarrow> acts (release_held k report)"
  by (rule well_typedI) (auto simp: release_held_def intro: typed_changes split: option.splits)

lemma typed_ranged [typing]: "(k \<noteq> 0 \<Longrightarrow> well_typed m Q) \<Longrightarrow> well_typed (ranged k m) Q"
  by (rule well_typedI, cases "k = 0") (auto simp: ranged_def in_range_def dest: well_typedD split: if_splits)

lemma good_reports:
  "suback_report k c = Some a \<Longrightarrow> good_action a" "unsuback_report k c = Some a \<Longrightarrow> good_action a"
  by (cases c; auto)+

lemma typed_after: "well_typed m Q \<Longrightarrow> (\<And>s. typed s \<Longrightarrow> typed (h s)) \<Longrightarrow> well_typed (\<lambda>s. m (h s)) Q"
  unfolding well_typed_def by blast

lemma typed_packet [typing]: "acts (session_packet p now)"
proof -
  have g: "good_packet p \<Longrightarrow> acts (send_now now (Some p))" for p
    by (rule typed_send_now) simp
  have cond: "acts m \<Longrightarrow> acts m' \<Longrightarrow> acts (\<lambda>s. if P s then m s else m' s)" for m m' P
    by (rule well_typedI) (auto dest: well_typedD split: if_splits)
  have upd: "acts m \<Longrightarrow> acts (\<lambda>s. m (s\<lparr>se_released := f s\<rparr>))" "acts m \<Longrightarrow> acts (\<lambda>s. m (s\<lparr>se_open := f s\<rparr>))" for m f
    by (rule typed_after; simp)+
  have err: "acts (\<lambda>s. (Err e, s))" for e by (rule well_typedI) auto
  have ping: "acts (\<lambda>s. (Ok [], s\<lparr>se_pinging := False, se_last_in := now\<rparr>))"
    by (rule well_typedI) auto
  show ?thesis
    by (cases p) (auto simp: Let_def well_typed_ret dest: good_reports
        intro!: typed_acknowledge typed_release_held typed_ranged ping cond upd g err)
qed

lemma typed_offline: "typed s \<Longrightarrow> typed (go_offline clean s)"
  by (cases "se_waiting s")
    (auto simp: typed_def go_offline_def Let_def list_all_iff held_in_order_def List.map_filter_def)

lemma typed_tick: "acts (session_tick clean now)"
  by (rule well_typedI) (auto simp: session_tick_def typed_offline split: if_splits)

lemma typed_replay_one: "good_op op \<Longrightarrow> well_typed (replay_one op) (pred_option good_packet)"
proof (cases "op_command op")
  case (C_Publish t p c)
  moreover assume "good_op op"
  ultimately show ?thesis
    using good_ops(1) [of t p c] unfolding good_op_def [of op]
    by (auto simp: replay_one_def intro!: typed_accept simp del: legal_command.simps)
next
  case (C_Subscribe t sub c)
  moreover assume "good_op op"
  ultimately show ?thesis
    using good_ops(2) [of t sub c] unfolding good_op_def [of op]
    by (auto simp: replay_one_def intro!: typed_accept simp del: legal_command.simps)
next
  case (C_Unsubscribe t u c)
  moreover assume "good_op op"
  ultimately show ?thesis
    using good_ops(3) [of t u c] unfolding good_op_def [of op]
    by (auto simp: replay_one_def intro!: typed_accept simp del: legal_command.simps)
qed (simp_all add: replay_one_def well_typed_ret)

lemma typed_replay: "list_all good_op ops \<Longrightarrow> acts (replay ops)"
proof (induction ops)
  case (Cons op ops)
  then show ?case
    by (auto intro!: well_typed_and_then [OF typed_replay_one] well_typed_and_then [where P = "list_all good_action"]
        well_typed_ret split: option.split)
qed (simp add: well_typed_ret)

lemma typed_event: "legal_event e \<Longrightarrow> acts (session_event clean clock e)"
proof (cases e)
  case (D_ConnectionRestored now)
  show ?thesis
  proof (rule well_typedI)
    fix s r s' assume s: "typed s" and r: "session_event clean clock e s = (r, s')"
    have "acts (replay (se_queue s))" using s by (intro typed_replay) (simp add: typed_def)
    moreover have "typed (s\<lparr>se_online := True, se_pinging := False, se_last_in := now, se_last_out := now, se_queue := []\<rparr>)"
      using s by (simp add: typed_def)
    ultimately show "typed s' \<and> (\<forall>x. r = Ok x \<longrightarrow> list_all good_action x)"
      using r D_ConnectionRestored by (auto simp: session_restored_def dest: well_typedD)
  qed
next
  case (D_Incoming p now)
  then show ?thesis
    using typed_after [OF typed_packet, of "\<lambda>s. s\<lparr>se_last_in := now\<rparr>" p now]
    by (simp add: session_incoming_def [abs_def])
next
  case (D_ConnectionLost c)
  then show ?thesis by (auto intro!: well_typedI simp: typed_offline)
qed (simp_all add: typed_tick typed_command)

lemma typed_run:
  "typed s \<Longrightarrow> list_all (legal_event \<circ> snd) es \<Longrightarrow>
     run_machine (\<lambda>(clock, e). session_event clean clock e) es s = (rs, s') \<Longrightarrow>
     typed s' \<and> list_all good_action (outputs rs)"
proof (induction es arbitrary: s rs s')
  case (Cons ce es)
  obtain clock e where ce: "ce = (clock, e)" by (cases ce)
  obtain r s1 where s1: "session_event clean clock e s = (r, s1)" by (cases "session_event clean clock e s")
  obtain rs1 s2 where s2: "run_machine (\<lambda>(clock, e). session_event clean clock e) es s1 = (rs1, s2)"
    by (cases "run_machine (\<lambda>(clock, e). session_event clean clock e) es s1")
  have "legal_event e" using Cons.prems(2) by (simp add: ce)
  note 1 = well_typedD [OF typed_event [OF this] Cons.prems(1) s1]
  from Cons.IH [OF conjunct1 [OF 1] _ s2] Cons.prems(2,3) 1 show ?case
    by (cases r) (auto simp: ce s1 s2 Let_def)
qed simp

section \<open>The property\<close>

lemma typed_driver:
  assumes "new_with_keep_alive m limit t1 t2 = Ok st" and "m \<noteq> 0xFFFF"
    and "list_all (legal_event \<circ> snd) es"
    and "run_machine (\<lambda>(clock, e). handle_event clock e) es (new_driver st clean) = (rs, d)"
  shows "state_inv (drv_state d) \<and> typed (session_of (drv_state d)) \<and> list_all good_action (outputs rs)"
proof -
  have d: "state_inv (drv_state (new_driver st clean)) \<and> drv_clean_session (new_driver st clean) = clean"
    using state_inv_new [OF assms(1,2)] by (simp add: new_driver_def)
  have "typed (session_of st)"
    using session_of_new [OF assms(1)] by (simp add: typed_def start_session_def)
  moreover note session.run_refines [OF d assms(4)]
  ultimately show ?thesis using typed_run [of "session_of st" es clean rs "session_of (drv_state d)"] assms(3)
    by (simp add: new_driver_def)
qed

text \<open>
  Claim C7 (type). What is sent is well-formed: over any run of a new driver in which clients submit
  well-formed commands, whatever the broker sends and however often the
  connection is lost and restored, every packet the driver asks to be sent obeys the rules on its
  fields (packet ids not zero, filter lists not empty, fields that fit), so that the encoder never
  refuses it but for its size, and what the encoder writes decodes to the packet.
\<close>
theorem sent_packets_are_wellformed:
  assumes "new_with_keep_alive m limit t1 t2 = Ok st" and "m \<noteq> 0xFFFF"
    and "list_all (legal_event \<circ> snd) es"
    and "run_machine (\<lambda>(clock, e). handle_event clock e) es (new_driver st clean) = (rs, d)"
    and "A_Send p \<in> set (outputs rs)"
  shows "legal_packet p \<and> fits_packet p \<and>
    (encode_packet p [] = (Err MalformedRemainingLength, [wire_byte1 p]) \<or>
     (\<exists>out. encode_packet p [] = (Ok (), out) \<and> decode_packet out = Ok p))"
proof -
  have "list_all good_action (outputs rs)" using typed_driver [OF assms(1-4)] by simp
  with assms(5) have g: "legal_packet p" "fits_packet p" by (auto simp: list_all_iff)
  show ?thesis
    using g decode_wire_frame [OF g, of "[]"] encode_packet_legal [OF g(1), of "[]"] by auto
qed

theorem sent_packets_are_wellformed_witness:
  "let es = [(0, D_Command (C_Publish 7 (small_publish ExactlyOnce 0) 3)), (1, D_ConnectionRestored 1)]
   in outputs (fst (run_small es)) = [A_Send (P_Publish ((small_publish ExactlyOnce 1)\<lparr>pub_dup := True\<rparr>))] \<and>
      legal_packet (P_Publish ((small_publish ExactlyOnce 1)\<lparr>pub_dup := True\<rparr>))"
proof -
  let ?es = "[(0, D_Command (C_Publish 7 (small_publish ExactlyOnce 0) 3)), (1, D_ConnectionRestored 1)]"
  let ?p = "P_Publish ((small_publish ExactlyOnce 1)\<lparr>pub_dup := True\<rparr>)"
  obtain rs d where r: "run_small ?es = (rs, d)" by (cases "run_small ?es")
  have o: "outputs (fst (run_small ?es)) = [A_Send ?p]" by (simp add: small_eval)
  have "utf8_valid [116]" by (simp add: utf8_valid.simps)
  then have l: "list_all (legal_event \<circ> snd) ?es" by (simp add: small_publish_def fits_string_def ascii_def)
  have "A_Send ?p \<in> set (outputs rs)" using o r by simp
  from sent_packets_are_wellformed [OF small_state_new _ l r [unfolded run_small_def] this] o show ?thesis by simp
qed

end
