(* ===== verification/Session_Liveness.thy ===== *)
theory Session_Liveness
  imports Session_Refinement Reconnect_Properties
begin

text \<open>
  Liveness under a broker that answers: what was queued while the connection was down is sent when it
  is restored and completes, once per operation, when the broker acknowledges it, in any order.  The
  argument runs on the abstract session.
\<close>

section \<open>A broker that answers\<close>

text \<open>What MQTT requires in reply to the packet of a command, and what its client is then told.\<close>

fun broker_replies :: "command \<Rightarrow> packet list" where
  "broker_replies (C_Publish _ p _) =
     (case pub_qos p of
        AtMostOnce \<Rightarrow> []
      | AtLeastOnce \<Rightarrow> [P_PubAck \<lparr>puback_pkid = pub_pkid p\<rparr>]
      | ExactlyOnce \<Rightarrow> [P_PubRec \<lparr>pubrec_pkid = pub_pkid p\<rparr>, P_PubComp \<lparr>pubcomp_pkid = pub_pkid p\<rparr>])"
| "broker_replies (C_Subscribe _ s _) =
     [P_SubAck \<lparr>suback_pkid = sub_pkid s, suback_return_codes = map (qos_to_u8 \<circ> filter_qos) (sub_filters s)\<rparr>]"
| "broker_replies (C_Unsubscribe _ u _) = [P_UnsubAck \<lparr>unsuback_pkid = unsub_pkid u\<rparr>]"
| "broker_replies _ = []"

fun client_reports :: "command \<Rightarrow> driver_action list" where
  "client_reports (C_Publish t p c) =
     (case pub_qos p of
        AtMostOnce \<Rightarrow> []
      | AtLeastOnce \<Rightarrow> [A_CompleteFor c (Done_PubAck t (pub_pkid p))]
      | ExactlyOnce \<Rightarrow> [A_CompleteFor c (Done_PubComp t (pub_pkid p))])"
| "client_reports (C_Subscribe t s c) = [A_SubscribeAckFor c (sub_filters s) (Done_SubAck t (sub_pkid s))]"
| "client_reports (C_Unsubscribe t u c) = [A_UnsubscribeAckFor c (unsub_filters u) (Done_UnsubAck t (unsub_pkid u))]"
| "client_reports _ = []"

text \<open>The packets arrive one by one, at any times.\<close>

definition arrive :: "packet list \<Rightarrow> (instant \<times> driver_event) list \<Rightarrow> bool" where
  "arrive ps es \<longleftrightarrow> list_all2 (\<lambda>p (clock, e). \<exists>now. e = D_Incoming p now) ps es"

definition is_ok :: "('e, 'a) outcome \<Rightarrow> bool" where
  "is_ok r \<longleftrightarrow> (\<exists>x. r = Ok x)"

fun is_report :: "driver_action \<Rightarrow> bool" where
  "is_report (A_CompleteFor _ _) = True"
| "is_report (A_SubscribeAckFor _ _ _) = True"
| "is_report (A_UnsubscribeAckFor _ _ _) = True"
| "is_report _ = False"

definition told_clients :: "driver_action list \<Rightarrow> driver_action list" where
  "told_clients as = filter is_report as"

lemma told_clients_simps [simp]:
  "told_clients [] = []" "told_clients (a # as) = (if is_report a then a # told_clients as else told_clients as)"
  "told_clients (as @ bs) = told_clients as @ told_clients bs"
  by (simp_all add: told_clients_def)

lemma arrive_simps:
  "arrive [] es \<longleftrightarrow> es = []"
  "arrive (p # ps) es \<longleftrightarrow> (\<exists>clock now es'. es = (clock, D_Incoming p now) # es' \<and> arrive ps es')"
  by (auto simp: arrive_def list_all2_Cons1)

lemma arrive_append: "arrive (ps @ qs) es \<longleftrightarrow> (\<exists>es1 es2. es = es1 @ es2 \<and> arrive ps es1 \<and> arrive qs es2)"
  by (induction ps arbitrary: es) (auto simp: arrive_simps Cons_eq_append_conv, blast+)

lemma run_machine_append:
  "run_machine step (xs @ ys) s =
     (case run_machine step xs s of (rs, s1) \<Rightarrow> case run_machine step ys s1 of (rs', s2) \<Rightarrow> (rs @ rs', s2))"
  by (induction xs arbitrary: s) (simp_all add: Let_def split: prod.split)

lemma outputs_append [simp]: "outputs (rs @ rs') = outputs rs @ outputs rs'"
  by (induction rs rule: outputs.induct) simp_all

section \<open>One operation\<close>

abbreviation run_session :: "bool \<Rightarrow> (instant \<times> driver_event) list \<Rightarrow> session \<Rightarrow>
    (runtime_error, driver_action list) outcome list \<times> session" where
  "run_session clean \<equiv> run_machine (\<lambda>(clock, e). session_event clean clock e)"

lemma not_waiting [simp]: "se_waiting s = None \<Longrightarrow> waiting_for k s = None"
  by (simp add: waiting_for_def)

lemma answered:
  assumes "op_carries k op" and "se_held s k = Some op" and "se_waiting s = None" and "in_range s k"
    and "arrive (broker_replies (op_command op)) es" and "run_session clean es s = (rs, s')"
  shows "list_all is_ok rs \<and> told_clients (outputs rs) = client_reports (op_command op) \<and>
    se_held s' = (se_held s)(k := None) \<and> se_waiting s' = None \<and> se_queue s' = se_queue s \<and>
    se_limit s' = se_limit s"
proof -
  have op: "op_ok op" "command_pkid (op_command op) = Some k" using assms(1) by (simp_all add: op_carries_def)
  show ?thesis
  proof (cases "op_command op")
    case (C_Publish t p c)
    then have "op_token_id op = t" "op_client_id op = c" "pub_pkid p = k" "pub_qos p \<noteq> AtMostOnce"
      using op by (auto simp: op_ok_def split: if_splits)
    then show ?thesis
      using assms C_Publish
      by (cases "pub_qos p") (auto simp: arrive_simps session_incoming_def acknowledge_def ranged_def
          in_range_def send_now_def is_ok_def waiting_for_def Let_def)
  next
    case (C_Subscribe t sub c)
    then show ?thesis
      using assms op by (auto simp: arrive_simps session_incoming_def release_held_def is_ok_def Let_def)
  next
    case (C_Unsubscribe t u c)
    then show ?thesis
      using assms op by (auto simp: arrive_simps session_incoming_def release_held_def is_ok_def Let_def)
  qed (use op in \<open>simp_all add: op_ok_def\<close>)
qed

section \<open>All of them\<close>

lemma tracked_ids_mset: "mset ops = mset ops' \<Longrightarrow> mset (tracked_ids ops) = mset (tracked_ids ops')"
  unfolding tracked_ids_def List.map_filter_def by (simp add: mset_filter)

lemma drained:
  assumes "list_all op_ok ops" and "distinct (tracked_ids ops)" and "\<forall>k \<in> set (tracked_ids ops). in_range s k"
    and "\<forall>op \<in> set ops. \<forall>k. command_pkid (op_command op) = Some k \<longrightarrow> se_held s k = Some op"
    and "se_waiting s = None" and "arrive (concat (map (\<lambda>op. broker_replies (op_command op)) ops)) es"
    and "run_session clean es s = (rs, s')"
  shows "list_all is_ok rs \<and> told_clients (outputs rs) = concat (map (\<lambda>op. client_reports (op_command op)) ops) \<and>
    se_held s' = (\<lambda>k. if k \<in> set (tracked_ids ops) then None else se_held s k) \<and> se_waiting s' = None \<and>
    se_queue s' = se_queue s"
  using assms
proof (induction ops arbitrary: es s rs s')
  case (Cons op ops)
  obtain es1 es2 where es: "es = es1 @ es2" "arrive (broker_replies (op_command op)) es1"
    "arrive (concat (map (\<lambda>op. broker_replies (op_command op)) ops)) es2"
    using Cons.prems(6) by (auto simp: arrive_append)
  obtain rs1 s1 where 1: "run_session clean es1 s = (rs1, s1)" by (cases "run_session clean es1 s")
  obtain rs2 s2 where 2: "run_session clean es2 s1 = (rs2, s2)" by (cases "run_session clean es2 s1")
  have r: "rs = rs1 @ rs2" "s' = s2" using Cons.prems(7) es(1) 1 2 by (simp_all add: run_machine_append)
  show ?case
  proof (cases "command_pkid (op_command op)")
    case None
    then have n: "broker_replies (op_command op) = []" "client_reports (op_command op) = []"
      using Cons.prems(1) by (cases "op_command op"; auto simp: op_ok_def split: if_splits)+
    then have "rs1 = []" "s1 = s" using es(2) 1 by (simp_all add: arrive_simps)
    then show ?thesis using Cons.IH [of s es2 rs2 s2] Cons.prems es 2 r n None by simp
  next
    case (Some k)
    have c: "op_carries k op" using Cons.prems(1) Some by (simp add: op_carries_def)
    have s: "se_held s k = Some op" "in_range s k" using Cons.prems(3,4) Some by auto
    note a = answered [OF c s(1) Cons.prems(5) s(2) es(2) 1]
    have "in_range s1 j = in_range s j" for j using a by (simp add: in_range_def)
    moreover have "\<forall>op' \<in> set ops. \<forall>j. command_pkid (op_command op') = Some j \<longrightarrow> se_held s1 j = Some op'"
    proof (intro ballI allI impI)
      fix op' j assume o: "op' \<in> set ops" "command_pkid (op_command op') = Some j"
      then have "j \<in> set (tracked_ids ops)" by (rule in_tracked_ids)
      then have "j \<noteq> k" using Cons.prems(2) Some by auto
      then show "se_held s1 j = Some op'" using a Cons.prems(4) o by simp
    qed
    ultimately have "list_all is_ok rs2 \<and>
        told_clients (outputs rs2) = concat (map (\<lambda>op. client_reports (op_command op)) ops) \<and>
        se_held s2 = (\<lambda>k. if k \<in> set (tracked_ids ops) then None else se_held s1 k) \<and> se_waiting s2 = None \<and>
        se_queue s2 = se_queue s1"
      using Cons.IH [of s1 es2 rs2 s2] Cons.prems(1-3) a es(3) 2 Some by simp
    with a r Some show ?thesis by (auto simp: fun_eq_iff)
  qed
qed (simp add: arrive_simps)

lemma replayed_op_same:
  assumes "op_ok op"
  shows "op_ok (replayed_op op)" "command_pkid (op_command (replayed_op op)) = command_pkid (op_command op)"
    "broker_replies (op_command (replayed_op op)) = broker_replies (op_command op)"
    "client_reports (op_command (replayed_op op)) = client_reports (op_command op)"
proof -
  have "op_ok (replayed_op op) \<and> command_pkid (op_command (replayed_op op)) = command_pkid (op_command op) \<and>
    broker_replies (op_command (replayed_op op)) = broker_replies (op_command op) \<and>
    client_reports (op_command (replayed_op op)) = client_reports (op_command op)"
  proof (cases "op_command op")
    case (C_Publish t p c)
    then show ?thesis
      using assms by (cases "pub_qos p") (simp_all add: replayed_op_def op_ok_def publish_op_def new_op_def)
  qed (use assms in \<open>simp_all add: replayed_op_def op_ok_def subscribe_op_def unsubscribe_op_def new_op_def\<close>)
  then show "op_ok (replayed_op op)" "command_pkid (op_command (replayed_op op)) = command_pkid (op_command op)"
    "broker_replies (op_command (replayed_op op)) = broker_replies (op_command op)"
    "client_reports (op_command (replayed_op op)) = client_reports (op_command op)"
    by blast+
qed

lemma tracked_ids_replayed: "list_all op_ok ops \<Longrightarrow> tracked_ids (map replayed_op ops) = tracked_ids ops"
  by (induction ops) (auto simp: replayed_op_same split: option.split)

lemma empty_session_owns_nothing:
  assumes "state_inv st" and "slot_of (inflight st) = (\<lambda>_. None)" and "collision (inflight st) = None"
    and "pending (inflight st) = []"
  shows "owners st = {#}"
proof -
  have "held_in_order (session_of st) = []" using assms(2) by (simp add: held_in_order_def List.map_filter_def)
  then have "held_ops (outgoing (inflight st)) = []" using held_in_order_eq [OF assms(1)] by simp
  with assms(3,4) show ?thesis by (simp add: owners_def held_all_def)
qed

text \<open>
  The restored connection: every queued operation is sent and, when it has a packet id, held under it;
  nothing else is held and nothing is queued.
\<close>

lemma restored_session:
  assumes "state_inv st" and "\<not> active st" and "distinct (tracked_ids (pending (inflight st)))"
    and "\<forall>k \<in> set (tracked_ids (pending (inflight st))). k \<le> store_max_inflight (inflight st)"
  obtains st1 where
    "handle_connection_restored now st = (Ok (map (\<lambda>op. A_Send (op_packet (replayed_op op))) (pending (inflight st))), st1)"
    and "pending (inflight st1) = []" and "collision (inflight st1) = None"
    and "\<forall>k. k \<notin> set (tracked_ids (pending (inflight st))) \<longrightarrow> slot_of (inflight st1) k = None"
    and "\<forall>op \<in> set (pending (inflight st)). \<forall>k. command_pkid (op_command op) = Some k \<longrightarrow>
      slot_of (inflight st1) k = Some (replayed_op op)"
    and "\<forall>k \<in> set (tracked_ids (pending (inflight st))). k \<noteq> 0"
proof -
  have "list_all op_ok (pending (inflight st))" using state_invD(8) [OF assms(1)] .
  then have nz: "k \<noteq> 0" if "k \<in> set (tracked_ids (pending (inflight st)))" for k
    using that by (induction "pending (inflight st)")
      (auto simp: op_ok_def tracked_ids_def List.map_filter_def list_all_iff)
  have "known_id k (inflight st)" if "k \<in> set (tracked_ids (pending (inflight st)))" for k
    using assms(4) nz [OF that] that state_invD(4) [OF assms(1)]
    by (auto simp: known_id_def store_inv_def word_le_nat_alt)
  with restored_free [OF assms(1-3), of now] nz that show thesis by blast
qed

text \<open>The replayed operations carry the same ids and ask for the same replies and reports.\<close>

lemma replayed_ops_same:
  assumes "list_all op_ok ops"
  shows "list_all op_ok (map replayed_op ops)" "tracked_ids (map replayed_op ops) = tracked_ids ops"
    "map (\<lambda>op. broker_replies (op_command op)) (map replayed_op ops) = map (\<lambda>op. broker_replies (op_command op)) ops"
    "map (\<lambda>op. client_reports (op_command op)) (map replayed_op ops) = map (\<lambda>op. client_reports (op_command op)) ops"
  using assms replayed_op_same tracked_ids_replayed by (auto simp: list_all_iff)

text \<open>
  Claim C4 (liveness). With a broker that answers, everything queued gets done: from every reachable
  state without a connection whose queued operations have different packet ids in range, once the
  connection is restored and the broker has replied to each operation (in any order of the operations,
  at any times), every event was handled without an error, the clients have been told of exactly the
  completions of their operations, one for each in the order of the replies, and the session holds
  nothing more.
\<close>
theorem queued_operations_complete:
  assumes "reachable m limit clean d" and "m \<noteq> 0xFFFF" and "\<not> active (drv_state d)"
    and "distinct (tracked_ids (pending (inflight (drv_state d))))"
    and "\<forall>k \<in> set (tracked_ids (pending (inflight (drv_state d)))). k \<le> m"
    and "mset ops = mset (pending (inflight (drv_state d)))"
    and "arrive (concat (map (\<lambda>op. broker_replies (op_command op)) ops)) es"
    and "run_machine (\<lambda>(clock, e). handle_event clock e) ((t, D_ConnectionRestored now) # es) d = (rs, d')"
  shows "list_all is_ok rs \<and>
    told_clients (outputs rs) = concat (map (\<lambda>op. client_reports (op_command op)) ops) \<and>
    owners (drv_state d') = {#}"
proof -
  let ?st = "drv_state d" and ?ps = "pending (inflight (drv_state d))" and ?ops = "map replayed_op ops"
  have i: "state_inv ?st" "store_max_inflight (inflight ?st) = m" "drv_clean_session d = clean"
    using reachable_inv [OF assms(1,2)] by (simp_all add: limits_def)
  obtain st1 where
    h: "handle_connection_restored now ?st = (Ok (map (\<lambda>op. A_Send (op_packet (replayed_op op))) ?ps), st1)"
    and st1: "pending (inflight st1) = []" "collision (inflight st1) = None"
      "\<forall>k. k \<notin> set (tracked_ids ?ps) \<longrightarrow> slot_of (inflight st1) k = None"
      "\<forall>op \<in> set ?ps. \<forall>k. command_pkid (op_command op) = Some k \<longrightarrow> slot_of (inflight st1) k = Some (replayed_op op)"
    and nz: "\<forall>k \<in> set (tracked_ids ?ps). k \<noteq> 0"
    using restored_session [OF i(1) assms(3,4), of now] assms(5) i(2) by blast
  let ?d1 = "d\<lparr>drv_state := st1\<rparr>"
  have e1: "handle_event t (D_ConnectionRestored now) d = (Ok (map (\<lambda>op. A_Send (op_packet (replayed_op op))) ?ps), ?d1)"
    using h by (simp add: handle_event_eq)
  have l1: "store_max_inflight (inflight st1) = m"
    using handle_event_keeps(1) [OF e1] i(2) by (simp add: limits_def)
  obtain rs1 where r: "run_machine (\<lambda>(clock, e). handle_event clock e) es ?d1 = (rs1, d')"
    and rs: "rs = Ok (map (\<lambda>op. A_Send (op_packet (replayed_op op))) ?ps) # rs1"
    using assms(8) e1 by (auto simp: Let_def split: prod.splits)
  from session.run_refines [OF _ r, of clean] handle_event_refines [OF i(1) e1] i(3) have
    a: "run_session clean es (session_of st1) = (rs1, session_of (drv_state d'))" and i': "state_inv (drv_state d')"
    by simp_all
  have set: "set ops = set ?ps" using assms(6) by (rule mset_eq_setD)
  then have oks: "list_all op_ok ops" using state_invD(8) [OF i(1)] by (simp add: list_all_iff)
  note same = replayed_ops_same [OF oks] and tm = tracked_ids_mset [OF assms(6)]
  have sids: "set (tracked_ids ops) = set (tracked_ids ?ps)" using tm by (rule mset_eq_setD)
  have o1: "distinct (tracked_ids ?ops)" using assms(4) tm same(2) by (metis mset_eq_imp_distinct_iff)
  have o2: "\<forall>k \<in> set (tracked_ids ?ops). in_range (session_of st1) k"
    using assms(5) nz unfolding same(2) sids by (auto simp: in_range_def l1 word_le_nat_alt Suc_leI unat_gt_0)
  have held: "\<forall>op \<in> set ?ops. \<forall>k. command_pkid (op_command op) = Some k \<longrightarrow> se_held (session_of st1) k = Some op"
    using st1(4) set oks replayed_op_same(2) by (auto simp: list_all_iff)
  have d: "list_all is_ok rs1"
    "told_clients (outputs rs1) = concat (map (\<lambda>op. client_reports (op_command op)) ops)"
    "se_held (session_of (drv_state d')) = (\<lambda>k. if k \<in> set (tracked_ids ops) then None else slot_of (inflight st1) k)"
    "se_waiting (session_of (drv_state d')) = None" "se_queue (session_of (drv_state d')) = []"
    using drained [OF same(1) o1 o2 held, of es clean rs1 "session_of (drv_state d')"] a st1(1,2) assms(7)
    unfolding same by (simp_all add: fun_eq_iff)
  have "told_clients (map (\<lambda>op. A_Send (op_packet (replayed_op op))) xs) = []" for xs by (induction xs) simp_all
  moreover have "slot_of (inflight (drv_state d')) = (\<lambda>_. None)"
    using d(3) st1(3) sids by (auto simp: fun_eq_iff)
  ultimately show ?thesis
    using d empty_session_owns_nothing [OF i'] rs by (simp add: is_ok_def)
qed

theorem queued_operations_complete_witness:
  "let d = snd (run_small [(2, D_Command (C_Publish 7 (small_publish ExactlyOnce 0) 3)),
      (3, D_Command (C_Subscribe 8 \<lparr>sub_pkid = 0, sub_filters = []\<rparr> 4))]);
     (rs, d') = run_machine (\<lambda>(clock, e). handle_event clock e)
       [(5, D_ConnectionRestored 5), (6, D_Incoming (P_SubAck \<lparr>suback_pkid = 2, suback_return_codes = []\<rparr>) 6),
        (7, D_Incoming (P_PubRec \<lparr>pubrec_pkid = 1\<rparr>) 7), (8, D_Incoming (P_PubComp \<lparr>pubcomp_pkid = 1\<rparr>) 9)] d
   in told_clients (outputs rs) = [A_SubscribeAckFor 4 [] (Done_SubAck 8 2), A_CompleteFor 3 (Done_PubComp 7 1)] \<and>
     owners (drv_state d') = {#}"
proof -
  let ?d = "snd (run_small [(2, D_Command (C_Publish 7 (small_publish ExactlyOnce 0) 3)),
      (3, D_Command (C_Subscribe 8 \<lparr>sub_pkid = 0, sub_filters = []\<rparr> 4))])"
  let ?es = "[(6, D_Incoming (P_SubAck \<lparr>suback_pkid = 2, suback_return_codes = []\<rparr>) 6),
        (7, D_Incoming (P_PubRec \<lparr>pubrec_pkid = 1\<rparr>) 7), (8, D_Incoming (P_PubComp \<lparr>pubcomp_pkid = 1\<rparr>) 9)]"
  let ?pub = "publish_op 7 (small_publish ExactlyOnce 1) 3" and ?sub = "subscribe_op 8 \<lparr>sub_pkid = 2, sub_filters = []\<rparr> 4"
  obtain rs d' where r: "run_machine (\<lambda>(clock, e). handle_event clock e) ((5, D_ConnectionRestored 5) # ?es) ?d = (rs, d')"
    by fastforce
  have p: "pending (inflight (drv_state ?d)) = [?pub, ?sub]" "\<not> active (drv_state ?d)"
    by (simp_all add: small_eval publish_op_def subscribe_op_def)
  have t: "tracked_ids [?pub, ?sub] = [1, 2]"
    by (simp add: publish_op_def subscribe_op_def new_op_def small_publish_def)
  have c: "op_command ?pub = C_Publish 7 (small_publish ExactlyOnce 1) 3"
    "op_command ?sub = C_Subscribe 8 \<lparr>sub_pkid = 2, sub_filters = []\<rparr> 4"
    by (simp_all add: publish_op_def subscribe_op_def new_op_def)
  have a: "arrive (concat (map (\<lambda>op. broker_replies (op_command op)) [?sub, ?pub])) ?es"
    unfolding list.map concat.simps c by (simp add: arrive_simps small_publish_def)
  have "told_clients (outputs rs) = concat (map (\<lambda>op. client_reports (op_command op)) [?sub, ?pub]) \<and>
      owners (drv_state d') = {#}"
    using queued_operations_complete [OF small_reachable _ p(2) _ _ _ a r] p(1) t by auto
  then show ?thesis
    unfolding Let_def r prod.case by (simp add: publish_op_def subscribe_op_def new_op_def small_publish_def)
qed

end
