(* ===== verification/Task_Shutdown.thy ===== *)
theory Task_Shutdown
  imports Task_Run Session_Typing Task_Eval
begin

text \<open>
  How the task ends when nothing goes wrong: over a link that takes every write and has nothing to
  read, with well-formed commands, every command is handed to the driver before the loop ends, and it
  ends because its clients are gone.
\<close>

section \<open>A quiet link\<close>

definition quiet_link ::
  "('t, 'io) transport_read \<Rightarrow> ('t, 'io) transport_write \<Rightarrow> 't set \<Rightarrow> bool" where
  "quiet_link read write_all L \<longleftrightarrow>
     (\<forall>t \<in> L. \<forall>buf. \<exists>buf' t'. read buf t = (Ok 0, buf', t') \<and> t' \<in> L) \<and>
     (\<forall>t \<in> L. \<forall>bytes. \<exists>t'. write_all bytes t = (Ok (), t') \<and> t' \<in> L)"

definition healthy :: "'t set \<Rightarrow> 't runtime_task \<Rightarrow> bool" where
  "healthy L s \<longleftrightarrow> state_inv (drv_state (tk_driver s)) \<and> typed (session_of (drv_state (tk_driver s))) \<and>
     tk_transport s \<in> L"

lemma healthy_simps [simp]:
  "healthy L (s\<lparr>tk_clock := c\<rparr>) = healthy L s" "healthy L (s\<lparr>tk_channels := chs\<rparr>) = healthy L s"
  "healthy L (s\<lparr>tk_last_tick := t\<rparr>) = healthy L s" "healthy L (s\<lparr>tk_command_rx := rx\<rparr>) = healthy L s"
  "healthy L (s\<lparr>tk_read_buf := b\<rparr>) = healthy L s"
  by (simp_all add: healthy_def)

text \<open>The one error left is the refusal of a packet that is too long for its length field.\<close>

abbreviation oversize :: "('io runtime_task_error, 'a) outcome" where
  "oversize \<equiv> Err (TE_Protocol MalformedRemainingLength)"

definition goes_well :: "'t set \<Rightarrow> ('t, 'io, 'a) task_op \<Rightarrow> ('a \<Rightarrow> bool) \<Rightarrow> bool" where
  "goes_well L m Q \<longleftrightarrow>
     (\<forall>s r s'. healthy L s \<longrightarrow> m s = (r, s') \<longrightarrow> healthy L s' \<and> ((\<exists>x. r = Ok x \<and> Q x) \<or> r = oversize))"

lemma goes_wellI:
  "(\<And>s r s'. healthy L s \<Longrightarrow> m s = (r, s') \<Longrightarrow> healthy L s' \<and> ((\<exists>x. r = Ok x \<and> Q x) \<or> r = oversize)) \<Longrightarrow>
     goes_well L m Q"
  by (simp add: goes_well_def)

lemma goes_wellD:
  "goes_well L m Q \<Longrightarrow> healthy L s \<Longrightarrow> m s = (r, s') \<Longrightarrow> healthy L s' \<and> ((\<exists>x. r = Ok x \<and> Q x) \<or> r = oversize)"
  by (simp add: goes_well_def)

lemma goes_well_and_then:
  assumes "goes_well L m P" and "\<And>x. P x \<Longrightarrow> goes_well L (f x) Q"
  shows "goes_well L (and_then m f) Q"
proof (rule goes_wellI)
  fix s r s' assume s: "healthy L s" and r: "and_then m f s = (r, s')"
  obtain r1 s1 where m: "m s = (r1, s1)" by (cases "m s")
  note 1 = goes_wellD [OF assms(1) s m]
  show "healthy L s' \<and> ((\<exists>x. r = Ok x \<and> Q x) \<or> r = oversize)"
    using 1 r m goes_wellD [OF assms(2), of _ s1 r s'] by (cases r1) (auto simp: and_then_def)
qed

lemma goes_well_ret: "Q x \<Longrightarrow> goes_well L (ret x) Q"
  by (rule goes_wellI) (auto simp: ret_def)

lemma goes_well_now: "goes_well L instant_now (\<lambda>_. True)"
  by (rule goes_wellI) (auto simp: instant_now_def op_combinators)

section \<open>The driver's answers\<close>

fun calm_action :: "driver_action \<Rightarrow> bool" where
  "calm_action (A_Send p) = good_packet p"
| "calm_action A_TriggerReconnect = True"
| "calm_action _ = False"

fun own_event :: "driver_event \<Rightarrow> bool" where
  "own_event (D_Tick _) = True"
| "own_event (D_Command c) = legal_command c"
| "own_event (D_ConnectionRestored _) = True"
| "own_event _ = False"

lemma accept_Ok: "\<exists>p s'. accept tracked k0 mk s = (Ok p, s')"
  by (auto simp: accept_def take_id_def place_def and_then_def ret_def split: prod.split outcome.split)

lemma replay_sends: "\<exists>pkts s'. replay ops s = (Ok (map A_Send pkts), s')"
proof (induction ops arbitrary: s)
  case (Cons op ops)
  obtain p s1 where 1: "replay_one op s = (Ok p, s1)"
    using accept_Ok by (cases "op_command op") (fastforce simp: replay_one_def ret_def)+
  obtain pkts s2 where "replay ops s1 = (Ok (map A_Send pkts), s2)" using Cons by blast
  with 1 have "replay (op # ops) s = (Ok (map A_Send ((case p of Some x \<Rightarrow> [x] | None \<Rightarrow> []) @ pkts)), s2)"
    by (simp add: and_then_def ret_def split: option.split)
  then show ?case by blast
qed (auto simp: ret_def)

lemma own_event_answer:
  assumes "own_event e" and "session_event clean clock e s = (r, s')"
  shows "\<exists>as. r = Ok as \<and> list_all (\<lambda>a. is_send a \<or> a = A_TriggerReconnect) as"
proof (cases e)
  case (D_Command c)
  have "\<exists>as. r = Ok as \<and> list_all (\<lambda>a. is_send a \<or> a = A_TriggerReconnect) as"
    if "and_then (accept tracked k0 mk) (send_now clock) s = (r, s')" for tracked k0 mk
    using accept_Ok [of tracked k0 mk s] that
    by (auto simp: and_then_def send_now_def split: option.splits)
  then show ?thesis using D_Command assms(2) by (cases c) (auto simp: ret_def)
next
  case (D_ConnectionRestored now)
  have "list_all (\<lambda>a. is_send a \<or> a = A_TriggerReconnect) (map A_Send pkts)" for pkts by (induction pkts) simp_all
  moreover obtain pkts s2 where "replay (se_queue s)
      (s\<lparr>se_online := True, se_pinging := False, se_last_in := now, se_last_out := now, se_queue := []\<rparr>) =
      (Ok (map A_Send pkts), s2)"
    using replay_sends by blast
  ultimately show ?thesis using D_ConnectionRestored assms(2) by (auto simp: session_restored_def)
qed (use assms in \<open>auto simp: session_tick_def split: if_splits\<close>)

lemma goes_well_drive: "own_event e \<Longrightarrow> goes_well L (drive e) (list_all calm_action)"
proof (rule goes_wellI)
  fix s r s' assume e: "own_event e" and s: "healthy L s" and r: "drive e s = (r, s')"
  let ?d = "tk_driver s"
  obtain r1 d1 where h: "handle_event (shd (tk_clock s)) e ?d = (r1, d1)"
    by (cases "handle_event (shd (tk_clock s)) e ?d")
  have i: "state_inv (drv_state ?d)" "typed (session_of (drv_state ?d))" using s by (simp_all add: healthy_def)
  note f = handle_event_refines [OF i(1) h]
  have l: "legal_event e" using e by (cases e) simp_all
  obtain as where as: "r1 = Ok as" "list_all (\<lambda>a. is_send a \<or> a = A_TriggerReconnect) as"
    using own_event_answer [OF e] f by blast
  have t: "typed (session_of (drv_state d1)) \<and> (\<forall>x. r1 = Ok x \<longrightarrow> list_all good_action x)"
    using well_typedD [OF typed_event [OF l] i(2)] f by blast
  have "calm_action a" if a: "a \<in> set as" for a
  proof -
    have "is_send a \<or> a = A_TriggerReconnect" "good_action a" using a as t by (auto simp: list_all_iff)
    then show ?thesis by (cases a) auto
  qed
  moreover have "r = Ok as" "s' = s\<lparr>tk_clock := stl (tk_clock s), tk_driver := d1\<rparr>"
    using r h as(1) by (auto simp: drive_def instant_now_def op_combinators)
  ultimately show "healthy L s' \<and> ((\<exists>x. r = Ok x \<and> list_all calm_action x) \<or> r = oversize)"
    using f t s by (simp add: healthy_def list_all_iff)
qed

section \<open>The task's operations\<close>

locale quiet_transport =
  fixes read :: "('t, 'io) transport_read" and write_all :: "('t, 'io) transport_write" and L :: "'t set"
  assumes quiet: "quiet_link read write_all L"
begin

lemma goes_well_send: "good_packet p \<Longrightarrow> goes_well L (send_packet write_all p) (\<lambda>_. True)"
proof (rule goes_wellI)
  fix s r s' assume p: "good_packet p" and s: "healthy L s" and r: "send_packet write_all p s = (r, s')"
  show "healthy L s' \<and> ((\<exists>x. r = Ok x \<and> True) \<or> r = oversize)"
  proof (cases "length (wire_body p) \<le> MAX_REMAINING_LEN")
    case True
    obtain t where "write_all (wire_frame p) (tk_transport s) = (Ok (), t)" "t \<in> L"
      using quiet s unfolding quiet_link_def healthy_def by blast
    with p r True s show ?thesis by (auto simp: send_packet_ok healthy_def state_inv_def)
  next
    case False
    then have "encode_packet p [] = (Err MalformedRemainingLength, [wire_byte1 p])"
      using p encode_packet_legal [of p "[]"] by simp
    with r s show ?thesis by (auto simp: send_packet_def and_then_def with_local_def map_err_op_def)
  qed
qed

lemma goes_well_broadcast: "goes_well L (broadcast_event e) (\<lambda>_. True)"
proof (rule goes_wellI)
  fix s r s' assume "healthy L s" "broadcast_event e s = (r, s')"
  then show "healthy L s' \<and> ((\<exists>x. r = Ok x \<and> True) \<or> r = oversize)"
    using broadcast_ok [of "reg_event_txs (tk_registry s)" e "tk_channels s"]
    by (auto simp: broadcast_event_def on_channels_def registry_broadcast_def op_combinators split: prod.splits)
qed

lemma goes_well_sends:
  "list_all calm_action as \<Longrightarrow> list_all is_send as \<Longrightarrow> goes_well L (handle_actions write_all as) (\<lambda>_. True)"
proof (induction as)
  case (Cons a as)
  then show ?case
    by (cases a) (auto simp: handle_actions_eqs intro!: goes_well_and_then [OF goes_well_send])
qed (simp add: handle_actions_eqs goes_well_ret)

lemma goes_well_reconnect: "goes_well L (reconnect write_all) (\<lambda>_. True)"
proof -
  have "goes_well L begin_reconnect (\<lambda>as. list_all calm_action as \<and> list_all is_send as)"
  proof (rule goes_wellI)
    fix s r s' assume s: "healthy L s" and r: "begin_reconnect s = (r, s')"
    have "goes_well L begin_reconnect (list_all calm_action)"
      unfolding begin_reconnect_def by (intro goes_well_and_then [OF goes_well_now] goes_well_drive) simp
    from goes_wellD [OF this s r] begin_reconnect_sends [of s _ s'] r
    show "healthy L s' \<and> ((\<exists>x. r = Ok x \<and> list_all calm_action x \<and> list_all is_send x) \<or> r = oversize)"
      by auto
  qed
  then show ?thesis
    unfolding reconnect_def
    by (rule goes_well_and_then) (rule goes_well_and_then [OF goes_well_sends goes_well_broadcast]; simp)
qed

lemma goes_well_actions: "list_all calm_action as \<Longrightarrow> goes_well L (handle_actions write_all as) (\<lambda>_. True)"
proof (induction as)
  case (Cons a as)
  then show ?case
    by (cases a) (auto simp: handle_actions_eqs handle_actions_reconnect
        intro!: goes_well_and_then [OF goes_well_send] goes_well_and_then [OF goes_well_broadcast]
          goes_well_and_then [OF goes_well_reconnect])
qed (simp add: handle_actions_eqs goes_well_ret)

lemma goes_well_event: "own_event e \<Longrightarrow> goes_well L (and_then (drive e) (handle_actions write_all)) (\<lambda>_. True)"
  by (rule goes_well_and_then [OF goes_well_drive goes_well_actions])

lemma goes_well_incoming: "goes_well L (poll_incoming read write_all) (\<lambda>_. True)"
proof (rule goes_wellI)
  fix s r s' assume s: "healthy L s" and r: "poll_incoming read write_all s = (r, s')"
  obtain buf t where "read (tk_read_buf s) (tk_transport s) = (Ok 0, buf, t)" "t \<in> L"
    using quiet s unfolding quiet_link_def healthy_def by blast
  with r s show "healthy L s' \<and> ((\<exists>x. r = Ok x \<and> True) \<or> r = oversize)"
    by (auto simp: poll_incoming_def read_one_packet_def and_then_def ret_def healthy_def)
qed

lemma goes_well_tick: "goes_well L (poll_tick write_all) (\<lambda>_. True)"
proof -
  have m: "goes_well L (modify (\<lambda>self. self\<lparr>tk_last_tick := now\<rparr>)) (\<lambda>_. True)" for now
    by (rule goes_wellI) (auto simp: modify_def)
  have g: "goes_well L (get f) (\<lambda>_. True)" for f :: "'t runtime_task \<Rightarrow> bool"
    by (rule goes_wellI) (auto simp: get_def)
  show ?thesis
    unfolding poll_tick_def
    by (intro goes_well_and_then [OF goes_well_now] goes_well_and_then [OF g])
      (auto intro!: goes_well_ret goes_well_and_then [OF m] goes_well_event)
qed

lemma goes_well_after:
  "pred_option legal_command c \<Longrightarrow> goes_well L (after_command read write_all c) (\<lambda>_. True)"
  unfolding after_command_def
  by (intro goes_well_and_then [where P = "\<lambda>_. True"] goes_well_incoming goes_well_tick)
    (auto intro!: goes_well_ret goes_well_event split: option.split)

lemma goes_well_round:
  assumes "run_round read write_all act s = (r, s')" and "healthy L s" and "list_all legal_command (fst act)"
    and "list_all legal_command (cmd_queue (tk_command_rx s))"
  shows "healthy L s' \<and> list_all legal_command (cmd_queue (tk_command_rx s')) \<and>
    (r = Ok () \<or> r = oversize \<or>
     r = Err TE_CommandChannelClosed \<and> cmd_queue (tk_command_rx s') = [] \<and> \<not> cmd_sender_alive (tk_command_rx s'))"
proof -
  obtain t where t: "(senders_act act :: ('t, 'io, unit) task_op) s = (Ok (), t)"
    by (simp add: senders_act_def modify_def)
  then have p: "poll_round read write_all t = (r, s')" using assms(1) by (simp add: run_round_def and_then_def)
  have l: "healthy L t" "list_all legal_command (cmd_queue (tk_command_rx t))"
    using t assms(2-4) by (auto simp: senders_act_def modify_def Let_def split: if_splits)
  have c: "list_all legal_command (cmd_queue (tk_command_rx s'))"
    using l(2) poll_round_channel(1) [OF p] by (cases "cmd_queue (tk_command_rx t)") simp_all
  show ?thesis
  proof (cases "cmd_queue (tk_command_rx t)")
    case Nil
    then show ?thesis
      using p c l goes_wellD [OF goes_well_after [of None] l(1), of r s'] by (auto simp: poll_round_eq split: if_splits)
  next
    case (Cons cmd rest)
    then have "after_command read write_all (Some cmd) (t\<lparr>tk_command_rx := (tk_command_rx t)\<lparr>cmd_queue := rest\<rparr>\<rparr>) = (r, s')"
      using p by (simp add: poll_round_eq)
    from goes_wellD [OF goes_well_after _ this] l c Cons show ?thesis by auto
  qed
qed

lemma goes_well_prefix:
  "run_prefix read write_all moves s = (r, s') \<Longrightarrow> healthy L s \<Longrightarrow> list_all (list_all legal_command \<circ> fst) moves \<Longrightarrow>
     list_all legal_command (cmd_queue (tk_command_rx s)) \<Longrightarrow>
     r = Ok () \<or> r = oversize \<or>
     r = Err TE_CommandChannelClosed \<and> cmd_queue (tk_command_rx s') = [] \<and> \<not> cmd_sender_alive (tk_command_rx s')"
proof (induction moves arbitrary: s)
  case (Cons act moves)
  obtain r1 s1 where r1: "run_round read write_all act s = (r1, s1)" by (cases "run_round read write_all act s")
  have g: "healthy L s1 \<and> list_all legal_command (cmd_queue (tk_command_rx s1)) \<and>
    (r1 = Ok () \<or> r1 = oversize \<or>
     r1 = Err TE_CommandChannelClosed \<and> cmd_queue (tk_command_rx s1) = [] \<and> \<not> cmd_sender_alive (tk_command_rx s1))"
    using goes_well_round [OF r1] Cons.prems by simp
  show ?case
  proof (cases r1)
    case (Ok u)
    then show ?thesis using Cons.IH [of s1] Cons.prems g r1 by (simp add: and_then_def)
  qed (use Cons.prems g r1 in \<open>auto simp: and_then_def\<close>)
qed (simp add: ret_def)

end

text \<open>The scripted transport with nothing left to read is a quiet link.\<close>

interpretation fake_idle: quiet_transport fake_read fake_write_all "{t. ft_reads t = []}"
  by unfold_locales (simp add: quiet_link_def fake_read_def fake_write_all_def)

section \<open>The property\<close>

text \<open>
  Claim C8 (liveness). A clean end: a task whose driver has run well-formed events, over a link that takes every
  write and has nothing to read, whose clients send well-formed commands and then go (the last Sender
  before round \<open>n + 1\<close>), returns; and unless a packet was too long to encode, it returns because its
  clients are gone and after every command they had sent was taken from the channel, none left behind.
\<close>
theorem task_ends_cleanly:
  assumes "quiet_link read write_all L" and "link \<in> L"
    and "new_with_keep_alive m limit t1 t2 = Ok st" and "m \<noteq> 0xFFFF" and "list_all (legal_event \<circ> snd) es"
    and "run_machine (\<lambda>(clock, e). handle_event clock e) es (new_driver st clean) = (rs, d)"
    and "list_all legal_command (cmd_queue rx)" and "\<forall>act \<in> sset env. list_all legal_command (fst act)"
    and "snd (env !! n)"
  shows "\<exists>r s. run read write_all env (new_task rx reg chs d link interval clock) = Some (r, s) \<and>
    (r = Err TE_CommandChannelClosed \<and> cmd_queue (tk_command_rx s) = [] \<and> \<not> cmd_sender_alive (tk_command_rx s) \<or>
     r = Err (TE_Protocol MalformedRemainingLength))"
proof -
  let ?s = "new_task rx reg chs d link interval clock"
  have h: "healthy L ?s"
    using typed_driver [OF assms(3-6)] assms(2) by (simp add: healthy_def new_task_def)
  obtain k where "fst (run_prefix read write_all (stake k env) ?s) \<noteq> Ok ()"
    using run_ends_within [OF assms(9), of ?s read write_all] by blast
  then obtain r s where k: "run_prefix read write_all (stake k env) ?s = (r, s)" "r \<noteq> Ok ()"
    by (cases "run_prefix read write_all (stake k env) ?s") simp
  have "act \<in> sset env" if "act \<in> set (stake k env)" for act
    using that by (auto simp: in_set_conv_nth)
  then have "list_all (list_all legal_command \<circ> fst) (stake k env)" using assms(8) by (auto simp: list_all_iff)
  from quiet_transport.goes_well_prefix [OF quiet_transport.intro [OF assms(1)] k(1) h this]
    k(2) run_finds_prefix [OF k] assms(7) show ?thesis by (auto simp: new_task_def)
qed

abbreviation closing_task :: "fake_transport runtime_task" where
  "closing_task \<equiv> demo_task (snd (run_small [(0, D_ConnectionRestored 0)])) []"

lemma closing_run:
  "\<exists>s. run demo_read demo_write (closing [C_Publish 7 (small_publish AtLeastOnce 0) 3]) closing_task =
      Some (Err TE_CommandChannelClosed, s) \<and> ft_writes (tk_transport s) = [[0x32, 6, 0, 1, 116, 0, 1, 1]]"
  by (subst run.simps, subst run.simps)
    (simp add: run_round_def senders_act_def poll_round_def demo_task_def small_eval round_eval cong: and_then_strict)

theorem task_ends_cleanly_witness:
  "\<exists>s. run demo_read demo_write (closing [C_Publish 7 (small_publish AtLeastOnce 0) 3]) closing_task =
      Some (Err TE_CommandChannelClosed, s) \<and> ft_writes (tk_transport s) = [[0x32, 6, 0, 1, 116, 0, 1, 1]] \<and>
    cmd_queue (tk_command_rx s) = []"
proof -
  let ?env = "closing [C_Publish 7 (small_publish AtLeastOnce 0) 3]"
  obtain s where s: "run demo_read demo_write ?env closing_task = Some (Err TE_CommandChannelClosed, s)"
    "ft_writes (tk_transport s) = [[0x32, 6, 0, 1, 116, 0, 1, 1]]" using closing_run by blast
  obtain rs d where d: "run_small [(0, D_ConnectionRestored 0)] = (rs, d)"
    by (cases "run_small [(0, D_ConnectionRestored 0)]")
  have "utf8_valid [116]" by (simp add: utf8_valid.simps)
  then have l: "\<forall>act \<in> sset ?env. list_all legal_command (fst act)"
    by (auto simp: small_publish_def fits_string_def ascii_def)
  have e: "list_all (legal_event \<circ> snd) [(0 :: nat, D_ConnectionRestored 0)]" by simp
  have q: "list_all legal_command (cmd_queue \<lparr>cmd_queue = [], cmd_sender_alive = True\<rparr>)" by simp
  have t: "\<lparr>ft_reads = [], ft_writes = []\<rparr> \<in> {t. ft_reads t = []}" "(2 :: u16) \<noteq> 0xFFFF" "snd (?env !! 0)" by simp_all
  obtain r s' where "run demo_read demo_write ?env closing_task = Some (r, s')"
    and "r = Err TE_CommandChannelClosed \<and> cmd_queue (tk_command_rx s') = [] \<or>
      r = (oversize :: (unit runtime_task_error, unit) outcome)"
    using task_ends_cleanly [where reg = "\<lparr>reg_next_id = 4, reg_event_txs = [(3, 0), (4, 1)]\<rparr>"
        and chs = "\<lambda>_. \<lparr>ch_events = [], ch_receiver_alive = True\<rparr>" and interval = 100 and clock = "sconst 5",
        OF fake_idle.quiet t(1) small_state_new t(2) e d [unfolded run_small_def] q l t(3)]
    unfolding demo_task_def d snd_conv by blast
  with s show ?thesis by auto
qed

end
