(* ===== verification/Crate_Tests.thy ===== *)
theory Crate_Tests
  imports Client_Host Task_Eval
begin

text \<open>
  The crate's own unit tests, run on the model: the test modules of src/runtime/router.rs, src/client.rs
  and src/runtime/task.rs, one definition per test function, under its name.  That they pass is evidence
  that the model and the code agree where the authors wrote down what they expect.

  A failed assertion, an \<open>unwrap()\<close> of an error and a \<open>recv()\<close> that would never return are a Panic; a test
  passes when its outcome is \<open>Ok\<close>.
\<close>

section \<open>Test harness\<close>

definition check :: "bool \<Rightarrow> ('s, 'e, unit) op" where
  "check b s = (if b then Ok () else Panic, s)"

definition unwrap :: "('s, 'e, 'a) op \<Rightarrow> ('s, 'f, 'a) op" where
  "unwrap m s = (case m s of (Ok x, s) \<Rightarrow> (Ok x, s) | (_, s) \<Rightarrow> (Panic, s))"

definition expect :: "'a option \<Rightarrow> ('s, 'e, 'a) op" where
  "expect x s = (case x of Some y \<Rightarrow> (Ok y, s) | None \<Rightarrow> (Panic, s))"

definition passes :: "(unit, unit) outcome \<times> 's \<Rightarrow> bool" where
  "passes result \<longleftrightarrow> (case fst result of Ok _ \<Rightarrow> True | _ \<Rightarrow> False)"

section \<open>src/runtime/router.rs\<close>

definition subscribed_to :: "(nat \<times> string) list \<Rightarrow> router" where
  "subscribed_to subs = fold (\<lambda>(id, f). add_subscription id (ascii f)) subs default_router"

definition matching :: "string \<Rightarrow> router \<Rightarrow> nat list \<Rightarrow> bool" where
  "matching topic r ids \<longleftrightarrow> matching_clients (ascii topic) r = Ok ids"

definition router_add_subscription_tracks_multiple_clients :: bool where
  "router_add_subscription_tracks_multiple_clients \<longleftrightarrow>
     matching ''sensor/temp'' (subscribed_to [(1, ''sensor/+''), (2, ''sensor/+'')]) [1, 2]"

definition router_add_subscription_deduplicates_client :: bool where
  "router_add_subscription_deduplicates_client \<longleftrightarrow>
     matching ''sensor/temp'' (subscribed_to [(1, ''sensor/+''), (1, ''sensor/+'')]) [1]"

definition router_remove_subscription_drops_empty_entry :: bool where
  "router_remove_subscription_drops_empty_entry \<longleftrightarrow>
     matching ''sensor/temp'' (remove_subscription 1 (ascii ''sensor/+'') (subscribed_to [(1, ''sensor/+'')])) []"

definition router_matching_clients_exact_and_broadcast :: bool where
  "router_matching_clients_exact_and_broadcast \<longleftrightarrow>
     matching ''sensor/temp'' (subscribed_to [(1, ''sensor/temp''), (2, ''sensor/temp'')]) [1, 2]"

definition router_matching_clients_single_level_wildcard :: bool where
  "router_matching_clients_single_level_wildcard \<longleftrightarrow>
     (let router = subscribed_to [(1, ''sensor/+'')]
      in matching ''sensor/temp'' router [1] \<and> matching ''sensor/temp/outdoor'' router [])"

definition router_matching_clients_multi_level_wildcard :: bool where
  "router_matching_clients_multi_level_wildcard \<longleftrightarrow>
     (let router = subscribed_to [(1, ''alerts/#'')]
      in matching ''alerts'' router [1] \<and> matching ''alerts/high/cpu'' router [1])"

lemma router_tests:
  "router_add_subscription_tracks_multiple_clients" "router_add_subscription_deduplicates_client"
  "router_remove_subscription_drops_empty_entry" "router_matching_clients_exact_and_broadcast"
  "router_matching_clients_single_level_wildcard" "router_matching_clients_multi_level_wildcard"
  by code_simp+

section \<open>src/client.rs\<close>

text \<open>The client with both channels open, on event channel 0.\<close>

definition test_client :: "nat \<Rightarrow> client_side" where
  "test_client client_id =
     \<lparr>cs_handle = new_handle client_id 0, cs_command_tx = \<lparr>cmd_queue = [], cmd_sender_alive = True\<rparr>,
      cs_task_alive = True\<rparr>"

definition recv_command :: "(client_side, 'e, command) op" where
  "recv_command s =
     (case cmd_queue (cs_command_tx s) of
        cmd # rest \<Rightarrow> (Ok cmd, s\<lparr>cs_command_tx := (cs_command_tx s)\<lparr>cmd_queue := rest\<rparr>\<rparr>)
      | [] \<Rightarrow> (Panic, s))"

definition publish_sends_command_and_returns_token :: bool where
  "publish_sends_command_and_returns_token \<longleftrightarrow> passes
     (and_then (unwrap (client_publish (ascii ''a/b'') AtMostOnce False (ascii ''hello''))) (\<lambda>token.
      and_then (check (token = 1)) (\<lambda>_.
      and_then recv_command (\<lambda>cmd.
      and_then (get (\<lambda>client. hd_client_id (cs_handle client))) (\<lambda>own_id.
      case cmd of
        C_Publish token_id publish client_id \<Rightarrow>
          check (token_id = 1 \<and> pub_topic publish = ascii ''a/b'' \<and> pub_qos publish = AtMostOnce \<and>
            client_id = own_id \<and> pub_payload publish = ascii ''hello'' \<and> pub_pkid publish = 0 \<and> \<not> pub_dup publish)
      | _ \<Rightarrow> check False)))) (test_client 17))"

definition token_id_increments :: bool where
  "token_id_increments \<longleftrightarrow> passes
     (and_then (unwrap (client_publish (ascii ''a'') AtMostOnce False [])) (\<lambda>first.
      and_then (unwrap (client_publish (ascii ''b'') AtMostOnce False [])) (\<lambda>second.
      check (first = 1 \<and> second = 2))) (test_client 1))"

definition subscribe_sends_command_and_returns_token :: bool where
  "subscribe_sends_command_and_returns_token \<longleftrightarrow> passes
     (and_then (unwrap (client_subscribe (ascii ''sensor/+'') AtLeastOnce)) (\<lambda>token.
      and_then (check (token = 1)) (\<lambda>_.
      and_then recv_command (\<lambda>cmd.
      case cmd of
        C_Subscribe token_id subscribe client_id \<Rightarrow>
          check (client_id = 5 \<and> token_id = 1 \<and> sub_pkid subscribe = 0 \<and> length (sub_filters subscribe) = 1 \<and>
            filter_path (sub_filters subscribe ! 0) = ascii ''sensor/+'' \<and>
            filter_qos (sub_filters subscribe ! 0) = AtLeastOnce)
      | _ \<Rightarrow> check False))) (test_client 5))"

definition unsubscribe_sends_command_and_returns_token :: bool where
  "unsubscribe_sends_command_and_returns_token \<longleftrightarrow> passes
     (and_then (unwrap (client_unsubscribe (ascii ''sensor/+''))) (\<lambda>token.
      and_then (check (token = 1)) (\<lambda>_.
      and_then recv_command (\<lambda>cmd.
      case cmd of
        C_Unsubscribe token_id unsubscribe client_id \<Rightarrow>
          check (client_id = 5 \<and> token_id = 1 \<and> unsub_pkid unsubscribe = 0 \<and>
            unsub_filters unsubscribe = [ascii ''sensor/+''])
      | _ \<Rightarrow> check False))) (test_client 5))"

lemma client_tests:
  "publish_sends_command_and_returns_token" "token_id_increments"
  "subscribe_sends_command_and_returns_token" "unsubscribe_sends_command_and_returns_token"
  by code_simp+

section \<open>src/runtime/task.rs\<close>

text \<open>The clock of the tests stands still at an hour, in nanoseconds.\<close>

definition test_clock :: "instant stream" where
  "test_clock = sconst (3600 * 1000000000)"

type_synonym 'a test = "(fake_transport, unit, 'a) task_op"

definition build_task :: "fake_transport runtime_task \<times> nat" where
  "build_task =
     (let (client_id, registry) = register 0 default_registry;
          state = (case new_state 4 (shd test_clock) (shd test_clock) of Ok s \<Rightarrow> snd (set_active True s))
      in (new_task \<lparr>cmd_queue = [], cmd_sender_alive = True\<rparr> registry
            (\<lambda>_. \<lparr>ch_events = [], ch_receiver_alive = True\<rparr>) (new_driver state False)
            \<lparr>ft_reads = [], ft_writes = []\<rparr> 1000000 test_clock, client_id))"

definition run_test :: "(nat \<Rightarrow> unit test) \<Rightarrow> bool" where
  "run_test test \<longleftrightarrow> (let (task, client_id) = build_task in fst (test client_id task) = Ok ())"

text \<open>The event is sent by the Sender of the channel and received by the handle.\<close>

definition recv_event_returns_runtime_event :: bool where
  "recv_event_returns_runtime_event \<longleftrightarrow>
     (let chs = (\<lambda>_. \<lparr>ch_events = [], ch_receiver_alive = True\<rparr>);
          (sent, chs) = send_event 0 RE_Disconnected chs;
          event = recv_event (new_handle 1 0) ((fst build_task)\<lparr>tk_channels := chs\<rparr>)
      in sent = Ok () \<and> map_option fst event = Some (Ok RE_Disconnected))"

definition send_to_task :: "command \<Rightarrow> unit test" where
  "send_to_task cmd = commands_arrive [cmd]"

definition recv_now :: "sender \<Rightarrow> runtime_event test" where
  "recv_now rx s =
     (case ch_events (tk_channels s rx) of
        event # rest \<Rightarrow> (Ok event, s\<lparr>tk_channels := (tk_channels s)(rx := (tk_channels s rx)\<lparr>ch_events := rest\<rparr>)\<rparr>)
      | [] \<Rightarrow> (Panic, s))"

definition writes :: "bytes list test" where
  "writes = get (\<lambda>task. ft_writes (tk_transport task))"

definition pop_write :: "bytes test" where
  "pop_write s =
     (case rev (ft_writes (tk_transport s)) of
        bytes # before \<Rightarrow> (Ok bytes, s\<lparr>tk_transport := (tk_transport s)\<lparr>ft_writes := rev before\<rparr>\<rparr>)
      | [] \<Rightarrow> (Panic, s))"

definition push_read :: "bytes \<Rightarrow> unit test" where
  "push_read bytes = modify (\<lambda>task. task\<lparr>tk_transport := (tk_transport task)\<lparr>ft_reads := ft_reads (tk_transport task) @ [bytes]\<rparr>\<rparr>)"

definition decoded :: "bytes \<Rightarrow> packet test" where
  "decoded bytes = unwrap (lift (decode_packet bytes) :: (fake_transport runtime_task, mqtt_error, packet) op)"

definition encoded :: "packet \<Rightarrow> bytes test" where
  "encoded packet = unwrap (with_local [] (encode_packet packet))"

definition plain_publish :: "qos \<Rightarrow> string \<Rightarrow> u16 \<Rightarrow> string \<Rightarrow> publish" where
  "plain_publish qos topic pkid payload =
     \<lparr>pub_dup = False, pub_qos = qos, pub_retain = False, pub_topic = ascii topic, pub_pkid = pkid, pub_payload = ascii payload\<rparr>"

definition command_publish_writes_encoded_publish :: bool where
  "command_publish_writes_encoded_publish \<longleftrightarrow> run_test (\<lambda>client_id.
     let publish = plain_publish AtLeastOnce ''a/b'' 0 ''hello'' in
     and_then (send_to_task (C_Publish 1 publish client_id)) (\<lambda>_.
     and_then (unwrap (poll_command demo_write)) (\<lambda>_.
     and_then writes (\<lambda>ws.
     and_then (check (length ws = 1)) (\<lambda>_.
     and_then (decoded (ws ! 0)) (\<lambda>packet.
     case packet of
       P_Publish p \<Rightarrow> check (pub_topic p = pub_topic publish \<and> pub_payload p = pub_payload publish \<and> pub_pkid p \<noteq> 0)
     | _ \<Rightarrow> check False))))))"

definition incoming_puback_emits_completion :: bool where
  "incoming_puback_emits_completion \<longleftrightarrow> run_test (\<lambda>client_id.
     and_then (send_to_task (C_Publish 7 (plain_publish AtLeastOnce ''x'' 0 ''y'') client_id)) (\<lambda>_.
     and_then (unwrap (poll_command demo_write)) (\<lambda>_.
     and_then pop_write (\<lambda>encoded_publish.
     and_then (decoded encoded_publish) (\<lambda>packet.
     and_then (case packet of P_Publish p \<Rightarrow> ret (pub_pkid p) | _ \<Rightarrow> expect None) (\<lambda>pkid.
     and_then (encoded (P_PubAck \<lparr>puback_pkid = pkid\<rparr>)) (\<lambda>ack_bytes.
     and_then (push_read ack_bytes) (\<lambda>_.
     and_then (unwrap (poll_incoming demo_read demo_write)) (\<lambda>_.
     and_then (recv_now 0) (\<lambda>event.
     check (event = RE_Completion (Done_PubAck 7 pkid))))))))))))"

definition poll_tick_writes_pingreq_after_idle :: bool where
  "poll_tick_writes_pingreq_after_idle \<longleftrightarrow> run_test (\<lambda>_.
     let minute_ago = shd test_clock - 60 * 1000000000 in
     and_then (modify (\<lambda>task. task\<lparr>tk_driver := (tk_driver task)\<lparr>drv_state := (drv_state (tk_driver task))
        \<lparr>active := True, last_incoming := minute_ago, last_outgoing := minute_ago\<rparr>\<rparr>, tk_last_tick := minute_ago\<rparr>)) (\<lambda>_.
     and_then (unwrap (poll_tick demo_write)) (\<lambda>_.
     and_then writes (\<lambda>ws.
     and_then (check (length ws = 1)) (\<lambda>_.
     and_then (decoded (ws ! 0)) (\<lambda>packet.
     check (packet = P_PingReq)))))))"

text \<open>Clients b and c are on channels 1 and 2.\<close>

definition join_client :: "sender \<Rightarrow> nat test" where
  "join_client event_tx self =
     (let (client_id, reg) = register event_tx (tk_registry self) in (Ok client_id, self\<lparr>tk_registry := reg\<rparr>))"

definition route :: "nat \<Rightarrow> string \<Rightarrow> unit test" where
  "route client_id filt = modify (\<lambda>self. self\<lparr>tk_router := add_subscription client_id (ascii filt) (tk_router self)\<rparr>)"

definition no_event :: "sender \<Rightarrow> unit test" where
  "no_event rx = and_then (get (\<lambda>task. ch_events (tk_channels task rx))) (\<lambda>events. check (events = []))"

definition incoming_publish_fanout_routes_only_to_matching_clients :: bool where
  "incoming_publish_fanout_routes_only_to_matching_clients \<longleftrightarrow> run_test (\<lambda>client_a.
     and_then (join_client 1) (\<lambda>client_b.
     and_then (join_client 2) (\<lambda>client_c.
     and_then (route client_a ''sensor/+'') (\<lambda>_.
     and_then (route client_b ''sensor/temp'') (\<lambda>_.
     and_then (route client_b ''sensor/+'') (\<lambda>_.
     let publish = plain_publish AtMostOnce ''sensor/temp'' 0 ''hello'' in
     and_then (unwrap (handle_incoming_publish demo_write publish (shd test_clock))) (\<lambda>_.
     and_then (recv_now 0) (\<lambda>event_a.
     and_then (check (event_a = RE_IncomingPublish publish)) (\<lambda>_.
     and_then (recv_now 1) (\<lambda>event_b.
     and_then (check (event_b = RE_IncomingPublish publish)) (\<lambda>_.
     no_event 2)))))))))))"

definition incoming_qos2_duplicate_is_not_fanned_out_twice :: bool where
  "incoming_qos2_duplicate_is_not_fanned_out_twice \<longleftrightarrow> run_test (\<lambda>client_id.
     and_then (route client_id ''sensor/+'') (\<lambda>_.
     let publish = plain_publish ExactlyOnce ''sensor/temp'' 3 ''hello'' in
     and_then (unwrap (handle_incoming_publish demo_write publish (shd test_clock))) (\<lambda>_.
     and_then (recv_now 0) (\<lambda>event.
     and_then (check (event = RE_IncomingPublish publish)) (\<lambda>_.
     and_then (unwrap (handle_incoming_publish demo_write publish (shd test_clock))) (\<lambda>_.
     no_event 0))))))"

text \<open>A command is sent, its packet id read off the wire, and the broker's answer received.\<close>

definition exchange :: "command \<Rightarrow> (packet \<Rightarrow> u16 option) \<Rightarrow> (u16 \<Rightarrow> packet) \<Rightarrow> u16 test" where
  "exchange cmd id_of answer =
     and_then (send_to_task cmd) (\<lambda>_.
     and_then (unwrap (poll_command demo_write)) (\<lambda>_.
     and_then pop_write (\<lambda>wire.
     and_then (decoded wire) (\<lambda>packet.
     and_then (expect (id_of packet)) (\<lambda>pkid.
     and_then (encoded (answer pkid)) (\<lambda>bytes.
     and_then (push_read bytes) (\<lambda>_.
     and_then (unwrap (poll_incoming demo_read demo_write)) (\<lambda>_.
     ret pkid))))))))"

definition routed_to :: "string \<Rightarrow> nat list \<Rightarrow> unit test" where
  "routed_to topic ids = and_then (get tk_router) (\<lambda>router. check (matching topic router ids))"

definition subscribe_ack_adds_route_and_unsuback_removes_it :: bool where
  "subscribe_ack_adds_route_and_unsuback_removes_it \<longleftrightarrow> run_test (\<lambda>client_id.
     and_then (exchange
        (C_Subscribe 11 \<lparr>sub_pkid = 0, sub_filters = [\<lparr>filter_path = ascii ''sensor/+'', filter_qos = AtMostOnce\<rparr>]\<rparr> client_id)
        (\<lambda>packet. case packet of P_Subscribe s \<Rightarrow> Some (sub_pkid s) | _ \<Rightarrow> None)
        (\<lambda>pkid. P_SubAck \<lparr>suback_pkid = pkid, suback_return_codes = [0]\<rparr>)) (\<lambda>subscribe_pkid.
     and_then (recv_now 0) (\<lambda>event.
     and_then (check (event = RE_Completion (Done_SubAck 11 subscribe_pkid))) (\<lambda>_.
     and_then (routed_to ''sensor/temp'' [client_id]) (\<lambda>_.
     and_then (exchange
        (C_Unsubscribe 12 \<lparr>unsub_pkid = 0, unsub_filters = [ascii ''sensor/+'']\<rparr> client_id)
        (\<lambda>packet. case packet of P_UnSubscribe u \<Rightarrow> Some (unsub_pkid u) | _ \<Rightarrow> None)
        (\<lambda>pkid. P_UnsubAck \<lparr>unsuback_pkid = pkid\<rparr>)) (\<lambda>unsubscribe_pkid.
     and_then (recv_now 0) (\<lambda>event.
     and_then (check (event = RE_Completion (Done_UnsubAck 12 unsubscribe_pkid))) (\<lambda>_.
     routed_to ''sensor/temp'' []))))))))"

section \<open>The tests pass\<close>

lemmas test_defs = check_def unwrap_def expect_def passes_def matching_def test_clock_def build_task_def
  run_test_def send_to_task_def recv_now_def writes_def pop_write_def push_read_def decoded_def encoded_def
  plain_publish_def join_client_def route_def no_event_def routed_to_def exchange_def

lemmas test_eval = test_defs round_eval

lemma recv_event_returns_passes: "recv_event_returns_runtime_event"
  by (simp add: recv_event_returns_runtime_event_def test_eval recv_event_def new_handle_def cong: and_then_strict)

lemma command_publish_writes_passes: "command_publish_writes_encoded_publish"
  by (simp add: command_publish_writes_encoded_publish_def test_eval cong: and_then_strict)

lemma incoming_puback_emits_passes: "incoming_puback_emits_completion"
  by (simp add: incoming_puback_emits_completion_def test_eval cong: and_then_strict)

lemma poll_tick_writes_passes: "poll_tick_writes_pingreq_after_idle"
  by (simp add: poll_tick_writes_pingreq_after_idle_def test_eval cong: and_then_strict)

lemma incoming_publish_fanout_passes: "incoming_publish_fanout_routes_only_to_matching_clients"
  by (simp add: incoming_publish_fanout_routes_only_to_matching_clients_def test_eval cong: and_then_strict)

lemma incoming_qos2_duplicate_passes: "incoming_qos2_duplicate_is_not_fanned_out_twice"
  by (simp add: incoming_qos2_duplicate_is_not_fanned_out_twice_def test_eval cong: and_then_strict)

lemma subscribe_ack_adds_passes: "subscribe_ack_adds_route_and_unsuback_removes_it"
  by (simp add: subscribe_ack_adds_route_and_unsuback_removes_it_def test_eval cong: and_then_strict)

text \<open>
  The crate's unit tests pass on the model: all seventeen tests of the router, the
  client handle and the runtime task, with the values, bytes and events their authors expect.
\<close>
theorem crate_tests_pass:
  "router_add_subscription_tracks_multiple_clients \<and>
   router_add_subscription_deduplicates_client \<and>
   router_remove_subscription_drops_empty_entry \<and>
   router_matching_clients_exact_and_broadcast \<and>
   router_matching_clients_single_level_wildcard \<and>
   router_matching_clients_multi_level_wildcard \<and>
   publish_sends_command_and_returns_token \<and>
   token_id_increments \<and>
   recv_event_returns_runtime_event \<and>
   subscribe_sends_command_and_returns_token \<and>
   unsubscribe_sends_command_and_returns_token \<and>
   command_publish_writes_encoded_publish \<and>
   incoming_puback_emits_completion \<and>
   poll_tick_writes_pingreq_after_idle \<and>
   incoming_publish_fanout_routes_only_to_matching_clients \<and>
   incoming_qos2_duplicate_is_not_fanned_out_twice \<and>
   subscribe_ack_adds_route_and_unsuback_removes_it"
  by (intro conjI router_tests client_tests
      recv_event_returns_passes
      command_publish_writes_passes
      incoming_puback_emits_passes
      poll_tick_writes_passes
      incoming_publish_fanout_passes
      incoming_qos2_duplicate_passes
      subscribe_ack_adds_passes)

end
