(* ===== verification/Spec2Isabelle.thy ===== *)
theory Spec2Isabelle
  imports Codec_Properties Frame_Stream Pkid_Pool Inflight_Store Driver_Properties Session_Properties
    Reconnect_Properties Runtime_Deviations Router Task_Properties Task_Keepalive Client_Host End_To_End
    Qos2_Reconnect Host_System
    Session_Typing Session_Liveness Task_Shutdown Crate_Tests
begin

text \<open>
  Verification of an MQTT 3.1.1 client library in Rust (src/src).

  THE PROGRAM.  A ClientHandle (client.rs) sends commands over a channel to a RuntimeTask
  (runtime/task.rs) that runs on its own thread.  The task owns a RuntimeDriver (runtime/driver.rs),
  a Router (runtime/router.rs), a FrameParser (codec/stream.rs) and a Transport
  (runtime/transport.rs).  Its loop takes a command, reads from the transport, checks the clock, and
  hands each of them as a DriverEvent to the driver; the driver runs the session state machine
  (runtime/state.rs, on the slot table runtime/inflight.rs and the packet ids of runtime/pkid.rs) and
  answers with DriverActions, which the task turns into frames (codec/packet.rs) and into events on
  the channels of the clients.  RuntimeHost (runtime/host.rs) builds the task and registers clients.

  CONVENTIONS (Prelude).  A fallible function returns an \<open>outcome\<close>: \<open>Ok\<close>, \<open>Err\<close> or \<open>Panic\<close>, the last
  for an index out of range, an overflow of checked arithmetic or a failed assertion.  A method on
  mutable state is an \<open>op\<close>: the state goes in, outcome and state come out, and the state keeps what
  was written before an error, as in the code.  \<open>and_then\<close> is the question mark operator in sequence.
  Structs are records, enums datatypes.  u8 and u16 are words of their width; usize (lengths, token
  ids, client ids) is a natural number, so the overflow of a counter after \<open>2 ^ 64\<close> calls is not
  modelled.  A String is the list of its UTF-8 bytes.  Instants and durations are natural numbers and
  \<open>duration_since\<close> saturates; each reading of the clock is an argument or is drawn from a stream.

  THE THEORIES, in the order of their imports.

  \<^item> Mqtt\_Types: types.rs and protocol/v4/error.rs.
  \<^item> Primitives, Remaining\_Length, Fixed\_Header, Packet\_Codec: codec/primitives.rs, fixed\_header.rs,
    packet.rs.  Loops are functions with termination proofs: the length varint (at most four rounds)
    and the filter lists (each round shortens the cursor).  The locale \<open>item_codec\<close> is the contract of
    a reader and a writer that undo each other, interpreted on each pair of primitives; \<open>item_loop\<close>
    (Codec\_Loops) extends it to lists and is interpreted on topic filters and topic names.
  \<^item> Wire\_Format: the reference, a packet's frame written down without cursors, buffers and errors, with
    \<open>legal_packet\<close> (the protocol's rules on fields) and \<open>fits_packet\<close> (strings fit 16 bits, are UTF-8).
    Codec\_Correct and Codec\_Properties prove that the encoder writes exactly that frame and that the
    decoder accepts exactly such frames, that neither panics on any input, and what a truncated or
    oversized packet does.
  \<^item> Frame\_Stream: codec/stream.rs.  The locale \<open>chunk_parser\<close> is the contract by which the cutting of
    a stream into chunks does not matter; it is interpreted on the parser of the code.
  \<^item> Pkid\_Pool, Inflight\_Store: runtime/pkid.rs, runtime/inflight.rs.  The locale \<open>op_table\<close> is the
    contract of a table from keys to operations; interpreted on \<open>try_insert\<close> and \<open>release_ack\<close>, it
    gives that the table neither loses nor duplicates.
  \<^item> Runtime\_Types, Runtime\_State: runtime/state.rs, one definition per method.  State\_Invariant,
    State\_Steps, State\_Ledger: the session invariant \<open>state_inv\<close>; closed forms of every method on
    states that satisfy it; and a ledger, the multiset of (client, token) pairs a state holds, with
    what every method does to it.
  \<^item> Runtime\_Driver: runtime/driver.rs.  The locale \<open>token_machine\<close> states that a machine whose steps
    balance a ledger reports each token at most once in any run; interpreted on \<open>handle_event\<close>.
  \<^item> Driver\_Properties, Session\_Properties, Reconnect\_Properties: what the driver guarantees on all
    reachable states (\<open>reachable\<close>, an inductive predicate): no panic, the window, completions; the
    QoS 1 and QoS 2 flows; what becomes of a command online and offline, replay and keep-alive.
    Reconnect\_Replay: a connection lost and restored at once puts everything back into its slot.
    Runtime\_Deviations: where the code departs from MQTT 3.1.1 or from what it sets out to do.
  \<^item> Session\_Spec: the abstract session, a map from packet ids to operations, a queue, two sets of packet
    ids and a cyclic id, with one operation per event.  Session\_Refinement: every method of the state
    and of the driver computes on states of the invariant what the session computes on their abstraction
    (\<open>sim\<close>, a logic of refinement); the locale \<open>machine_refinement\<close> lifts a refinement of steps to runs
    and is interpreted on \<open>handle_event\<close>.  Session\_Typing (what is sent is well-formed) and
    Session\_Liveness (what is queued completes when the broker answers) argue on the abstract session.
  \<^item> Router: runtime/router.rs.  The topic loop is proved equal to the matching rule of MQTT
    (\<open>filter_matches\<close>), and the entry list refines a set of subscriptions (locale
    \<open>subscription_table\<close>).
  \<^item> Runtime\_Task, Task\_Properties: runtime/task.rs, events.rs and transport.rs.  The transport is a
    parameter, its two methods arguments of the definitions; the locale \<open>transport\<close> assumes only what
    std::io documents (\<open>transport_ok\<close>: a read keeps the buffer's length and returns at most that, no
    panic), and is interpreted on the FakeTransport of the crate's own tests.
  \<^item> Task\_Run: the loop \<open>run\<close> of runtime/task.rs as a partial function; it returns exactly when a round
    fails, and always once the Senders are gone.  Task\_Shutdown: over a link without errors (locale
    \<open>quiet_transport\<close>, interpreted on FakeTransport) it then ends with CommandChannelClosed after it has
    taken every command.  Task\_Keepalive: rounds without commands and bytes, the PINGREQ they write, and
    the reconnect when nobody answers it.
  \<^item> Client\_Host: client.rs and host.rs.
  \<^item> End\_To\_End: properties through all layers, from a command in the queue to the event its client
    receives.  Link\_Frames: frames that arrive in pieces, on any transport.  Qos2\_Link: for whole
    sequences of QoS 2 frames, in any pieces, what a receiving task delivers and replies is what an
    abstract receiver, a set of open packet ids, prescribes.  Qos2\_Reconnect: what a broken connection
    does to exactly-once delivery between two halves of this code.
  \<^item> Task\_Ledger, Host\_System: the ledger carried up through the task (\<open>task_ledger\<close>, a logic of the
    task's operations) and then to the whole host, the step relation \<open>sys_step\<close> in which client calls,
    client reads, task rounds, new clients and the drop of handles and host interleave: no call is
    answered twice.
  \<^item> Task\_Eval: evaluation of whole rounds on concrete states by the simplifier.  Crate\_Tests: the
    crate's own unit tests (the test modules of runtime/router.rs, client.rs and runtime/task.rs) as
    definitions over the model, which it passes.

  BOUNDS AND FUEL.  No definition takes fuel.  \<open>RuntimeTask::run\<close> loops until an error: \<open>run\<close> is a
  partial function into an option, None being the loop that never returns, and \<open>run_rounds\<close> takes the
  list of what the clients send before each round; Task\_Run joins the two, so a statement about every
  such list is one about the loop.  \<open>handle_actions\<close> and \<open>reconnect\<close> call each other; the
  termination proof shows the nesting to be one level deep.  A blocking receive that would wait is
  None.  Arithmetic is modelled with the overflow checks of the dev profile; for the one addition
  that can overflow, in \<open>next_candidate\<close>, the wrapping form of a release build is modelled too.

  NOT MODELLED.  Memory-level concurrency: client calls, client reads, registrations and task rounds
  interleave explicitly, a round being one step.  The drop of the registry with its Senders, after which
  a waiting \<open>recv_event\<close> would end with RecvError.  Poisoned mutexes.  Allocation.  The display texts of
  errors.  protocol/v4/codec.rs and types.rs, which are one-word files outside the module tree.  The
  integration tests under tests/.
\<close>

end
